(* ===== verification/Prelude.thy ===== *)
theory Prelude
  imports Main "HOL-Library.Word"
begin

text \<open>
  Vocabulary shared by the theories of this development.

  \<^item> The machine integers of the Rust sources are words (\<open>u8\<close> is \<open>8 word\<close> and so on): \<open>+\<close> and
    \<open>-\<close> wrap as \<open>wrapping_add\<close> and \<open>wrapping_sub\<close> do, \<open>checked_add\<close> is \<open>checked_add_w\<close>,
    \<open>saturating_add\<close> is \<open>saturating_add_w\<close>.  A \<open>usize\<close> that counts the elements of a list in memory
    is a \<open>nat\<close>; a signed number that only travels (an error code, an IANA number) is an \<open>int\<close>.
  \<^item> \<open>Result<T, E>\<close> is \<open>'e + 't\<close> with the error on the left; the \<open>?\<close> operator is \<open>andthen\<close>.
  \<^item> A Rust \<open>str\<close> is the list of its UTF-8 bytes, a HOL \<open>string\<close> (a \<open>char\<close> is 8 bits); a
    \<open>Vec<u8>\<close> of binary data is a list of \<open>8 word\<close>.
  \<^item> Big and little endian byte encodings, with their round trips.
  \<^item> Two interfaces that several components provide: \<open>cursor_codec\<close> (an encoder and a cursor-style
    decoder that inverts it at any offset) and \<open>machine\<close> (a step function and an invariant it keeps).
\<close>

unbundle bit_operations_syntax

type_synonym u8 = "8 word"
type_synonym u16 = "16 word"
type_synonym u32 = "32 word"
type_synonym u64 = "64 word"
type_synonym bytes = "u8 list"

named_theorems res_simps \<open>evaluation of the result combinators\<close>
named_theorems codec_simps \<open>round trips of byte encodings\<close>

subsection \<open>Results\<close>

definition andthen :: "'e + 'a \<Rightarrow> ('a \<Rightarrow> 'e + 'b) \<Rightarrow> 'e + 'b" where
  "andthen r f = (case r of Inl e \<Rightarrow> Inl e | Inr x \<Rightarrow> f x)"

definition map_err :: "('e \<Rightarrow> 'f) \<Rightarrow> 'e + 'a \<Rightarrow> 'f + 'a" where
  "map_err g r = (case r of Inl e \<Rightarrow> Inl (g e) | Inr x \<Rightarrow> Inr x)"

definition ok_or :: "'e \<Rightarrow> 'a option \<Rightarrow> 'e + 'a" where
  "ok_or e x = (case x of None \<Rightarrow> Inl e | Some v \<Rightarrow> Inr v)"

definition is_ok :: "'e + 'a \<Rightarrow> bool" where
  "is_ok r = (case r of Inl _ \<Rightarrow> False | Inr _ \<Rightarrow> True)"

lemma andthen_simps [simp, res_simps]:
  "andthen (Inl e) f = Inl e" "andthen (Inr x) f = f x"
  by (simp_all add: andthen_def)

lemma map_err_simps [simp, res_simps]:
  "map_err g (Inl e) = Inl (g e)" "map_err g (Inr x) = Inr x"
  by (simp_all add: map_err_def)

lemma ok_or_simps [simp, res_simps]:
  "ok_or e None = Inl e" "ok_or e (Some v) = Inr v"
  by (simp_all add: ok_or_def)

lemma is_ok_simps [simp, res_simps]:
  "\<not> is_ok (Inl e)" "is_ok (Inr x)"
  by (simp_all add: is_ok_def)

lemma is_ok_iff: "is_ok r \<longleftrightarrow> (\<exists>x. r = Inr x)"
  by (cases r) auto

lemma andthen_eq_Inr [simp]: "andthen r f = Inr y \<longleftrightarrow> (\<exists>x. r = Inr x \<and> f x = Inr y)"
  by (cases r) auto

lemma andthen_eq_Inl: "andthen r f = Inl e \<longleftrightarrow> r = Inl e \<or> (\<exists>x. r = Inr x \<and> f x = Inl e)"
  by (cases r) auto

lemma map_err_eq_Inr [simp]: "map_err g r = Inr y \<longleftrightarrow> r = Inr y"
  by (cases r) auto

lemma ok_or_eq_Inr [simp]: "ok_or e x = Inr y \<longleftrightarrow> x = Some y"
  by (cases x) auto

lemma andthen_assoc: "andthen (andthen r f) g = andthen r (\<lambda>x. andthen (f x) g)"
  by (cases r) simp_all

lemma andthen_is_ok: "is_ok (andthen r f) \<longleftrightarrow> (\<exists>x. r = Inr x \<and> is_ok (f x))"
  by (cases r) auto

lemma if_guard_Inr [simp]:
  "(if c then Inl e else r) = Inr y \<longleftrightarrow> \<not> c \<and> r = Inr y"
  by simp

lemma if_guard_ok: "is_ok (if c then Inl e else r) \<longleftrightarrow> \<not> c \<and> is_ok r"
  by simp

subsection \<open>Checked and saturating arithmetic\<close>

definition checked_add_w :: "'a::len word \<Rightarrow> 'a word \<Rightarrow> 'a word option" where
  "checked_add_w a b = (if unat a + unat b < 2 ^ LENGTH('a) then Some (a + b) else None)"

definition saturating_add_w :: "'a::len word \<Rightarrow> 'a word \<Rightarrow> 'a word" where
  "saturating_add_w a b = (if unat a + unat b < 2 ^ LENGTH('a) then a + b else - 1)"

lemma checked_add_w_Some: "checked_add_w a b = Some c \<Longrightarrow> unat c = unat a + unat b"
  by (auto simp: checked_add_w_def unat_word_ariths split: if_splits)

lemma unat_less_pow: "unat (w :: 'a::len word) < 2 ^ LENGTH('a)"
  by simp

lemma unat_max_word: "unat (- 1 :: 'a::len word) = 2 ^ LENGTH('a) - 1"
  by (simp add: unsigned_minus_1_eq_mask mask_eq_exp_minus_1)

lemma unat_saturating_add_w:
  "unat (saturating_add_w (a :: 'a::len word) b) = min (unat a + unat b) (2 ^ LENGTH('a) - 1)"
  by (auto simp: saturating_add_w_def unat_word_ariths unat_max_word min_def not_less)

lemma saturating_add_w_ge: "a \<le> saturating_add_w a b"
proof -
  have "unat a \<le> 2 ^ LENGTH('a) - 1"
    using unat_less_pow [of a] by linarith
  then show ?thesis
    by (simp add: word_le_nat_alt unat_saturating_add_w)
qed

subsection \<open>Collecting results\<close>

text \<open>\<open>iter().map(f).collect::<Result<Vec<_>, _>>()\<close> and the loops that push with \<open>?\<close>.\<close>

fun collect_res :: "('a \<Rightarrow> 'e + 'b) \<Rightarrow> 'a list \<Rightarrow> 'e + 'b list" where
  "collect_res f [] = Inr []"
| "collect_res f (x # xs) =
     andthen (f x) (\<lambda>y. andthen (collect_res f xs) (\<lambda>ys. Inr (y # ys)))"

lemma collect_res_ok: "\<forall>x \<in> set xs. f x = Inr (g x) \<Longrightarrow> collect_res f xs = Inr (map g xs)"
  by (induction xs) auto

lemma collect_res_eq_Inr:
  "collect_res f xs = Inr ys \<longleftrightarrow> length ys = length xs \<and> (\<forall>i < length xs. f (xs ! i) = Inr (ys ! i))"
proof (induction xs arbitrary: ys)
  case Nil
  then show ?case by auto
next
  case (Cons x xs)
  then show ?case
    by (cases ys) (auto simp: nth_Cons' less_Suc_eq_0_disj)
qed

subsection \<open>Lists\<close>

lemma take_append_exact [simp]: "n = length xs \<Longrightarrow> take n (xs @ ys) = xs"
  by simp

lemma drop_append_exact [simp]: "n = length xs \<Longrightarrow> drop n (xs @ ys) = ys"
  by simp

lemma list_eq_butlast_last: "xs \<noteq> [] \<Longrightarrow> xs = butlast xs @ [last xs]"
  by simp

lemma nth_append_offset [simp]: "i = length xs \<Longrightarrow> (xs @ y # ys) ! i = y"
  by simp

lemma find_Some_mem: "List.find P xs = Some x \<Longrightarrow> x \<in> set xs \<and> P x"
  by (metis find_Some_iff nth_mem)

subsection \<open>Byte orders\<close>

text \<open>
  \<open>be_bytes n v\<close> is the \<open>n\<close>-byte big endian form of \<open>v\<close> (\<open>to_be_bytes\<close>), \<open>be_val\<close> reads one
  (\<open>from_be_bytes\<close>); the little endian forms are their reversals.
\<close>

fun be_bytes :: "nat \<Rightarrow> nat \<Rightarrow> bytes" where
  "be_bytes 0 v = []"
| "be_bytes (Suc n) v = be_bytes n (v div 256) @ [of_nat v]"

definition be_val :: "bytes \<Rightarrow> nat" where
  "be_val bs = foldl (\<lambda>acc b. acc * 256 + unat b) 0 bs"

definition le_bytes :: "nat \<Rightarrow> nat \<Rightarrow> bytes" where
  "le_bytes n v = rev (be_bytes n v)"

definition le_val :: "bytes \<Rightarrow> nat" where
  "le_val bs = be_val (rev bs)"

lemma be_val_Nil [simp]: "be_val [] = 0"
  by (simp add: be_val_def)

lemma be_val_snoc [simp]: "be_val (bs @ [b]) = be_val bs * 256 + unat b"
  by (simp add: be_val_def)

lemma length_be_bytes [simp]: "length (be_bytes n v) = n"
  by (induction n arbitrary: v) auto

lemma length_le_bytes [simp]: "length (le_bytes n v) = n"
  by (simp add: le_bytes_def)

lemma unat_of_nat_byte: "unat (of_nat v :: u8) = v mod 256"
  by (simp add: unat_of_nat)

lemma be_val_be_bytes: "be_val (be_bytes n v) = v mod 256 ^ n"
proof (induction n arbitrary: v)
  case 0
  then show ?case by simp
next
  case (Suc n)
  have "be_val (be_bytes (Suc n) v) = (v div 256) mod 256 ^ n * 256 + v mod 256"
    by (simp add: Suc unat_of_nat_byte)
  also have "\<dots> = v mod (256 * 256 ^ n)"
    by (simp add: mod_mult2_eq)
  finally show ?case by simp
qed

lemma be_val_be_bytes_lt [codec_simps]: "v < 256 ^ n \<Longrightarrow> be_val (be_bytes n v) = v"
  by (simp add: be_val_be_bytes)

lemma le_val_le_bytes_lt [codec_simps]: "v < 256 ^ n \<Longrightarrow> le_val (le_bytes n v) = v"
  by (simp add: le_val_def le_bytes_def be_val_be_bytes)

lemma be_val_bound: "be_val bs < 256 ^ length bs"
proof (induction bs rule: rev_induct)
  case Nil
  then show ?case by simp
next
  case (snoc b bs)
  have "unat b < 256"
    using unat_less_pow [of b] by simp
  with snoc show ?case by simp
qed

lemma be_bytes_be_val [codec_simps]: "be_bytes (length bs) (be_val bs) = bs"
proof (induction bs rule: rev_induct)
  case Nil
  then show ?case by simp
next
  case (snoc b bs)
  have b: "unat b < 256"
    using unat_less_pow [of b] by simp
  then have "(be_val bs * 256 + unat b) div 256 = be_val bs"
    by simp
  moreover have "(of_nat (be_val bs * 256 + unat b) :: u8) = b"
  proof -
    have "(256 :: u8) = 0"
      by simp
    then have "(of_nat n * 256 :: u8) = 0" for n
      by (metis mult_zero_right)
    then show ?thesis
      by (simp add: of_nat_mult)
  qed
  ultimately show ?case
    using snoc by simp
qed

abbreviation be16 :: "u16 \<Rightarrow> bytes" where "be16 w \<equiv> be_bytes 2 (unat w)"
abbreviation be32 :: "u32 \<Rightarrow> bytes" where "be32 w \<equiv> be_bytes 4 (unat w)"
abbreviation be64 :: "u64 \<Rightarrow> bytes" where "be64 w \<equiv> be_bytes 8 (unat w)"
abbreviation le16 :: "u16 \<Rightarrow> bytes" where "le16 w \<equiv> le_bytes 2 (unat w)"
abbreviation le32 :: "u32 \<Rightarrow> bytes" where "le32 w \<equiv> le_bytes 4 (unat w)"

lemma of_be16 [simp, codec_simps]: "of_nat (be_val (be16 w)) = w"
  using unat_less_pow [of w] by (simp add: be_val_be_bytes_lt)

lemma of_be32 [simp, codec_simps]: "of_nat (be_val (be32 w)) = w"
  using unat_less_pow [of w] by (simp add: be_val_be_bytes_lt)

lemma of_be64 [simp, codec_simps]: "of_nat (be_val (be64 w)) = w"
  using unat_less_pow [of w] by (simp add: be_val_be_bytes_lt)

lemma of_le16 [simp, codec_simps]: "of_nat (le_val (le16 w)) = w"
  using unat_less_pow [of w] by (simp add: le_val_le_bytes_lt)

lemma of_le32 [simp, codec_simps]: "of_nat (le_val (le32 w)) = w"
  using unat_less_pow [of w] by (simp add: le_val_le_bytes_lt)

subsection \<open>Interface: an encoder and a decoder that reads at a cursor\<close>

text \<open>
  The binary formats are written by appending to a buffer and read by functions that take the whole
  buffer and a cursor.  \<open>dec b i\<close> returns the value and the cursor behind it.
\<close>

fun dec_times :: "(bytes \<Rightarrow> nat \<Rightarrow> 'e + 'a \<times> nat) \<Rightarrow> nat \<Rightarrow> bytes \<Rightarrow> nat \<Rightarrow> 'e + 'a list \<times> nat" where
  "dec_times dec 0 b i = Inr ([], i)"
| "dec_times dec (Suc n) b i =
     andthen (dec b i) (\<lambda>(x, i'). andthen (dec_times dec n b i') (\<lambda>(xs, i''). Inr (x # xs, i'')))"

locale cursor_codec =
  fixes enc :: "'a \<Rightarrow> bytes"
    and dec :: "bytes \<Rightarrow> nat \<Rightarrow> 'e + 'a \<times> nat"
    and good :: "'a \<Rightarrow> bool"
  assumes dec_enc: "good x \<Longrightarrow> dec (p @ enc x @ r) (length p) = Inr (x, length p + length (enc x))"
begin

lemma dec_enc_at:
  assumes "good x" and "b = p @ enc x @ r" and "i = length p"
  shows "dec b i = Inr (x, i + length (enc x))"
  using assms dec_enc by simp

lemma dec_times_concat:
  assumes "\<forall>x \<in> set xs. good x"
  shows "dec_times dec (length xs) (p @ concat (map enc xs) @ r) (length p)
           = Inr (xs, length p + length (concat (map enc xs)))"
  using assms
proof (induction xs arbitrary: p)
  case Nil
  then show ?case by simp
next
  case (Cons x xs)
  have "dec (p @ enc x @ concat (map enc xs) @ r) (length p) = Inr (x, length p + length (enc x))"
    using Cons.prems dec_enc by simp
  moreover have "dec_times dec (length xs) ((p @ enc x) @ concat (map enc xs) @ r)
      (length (p @ enc x)) = Inr (xs, length (p @ enc x) + length (concat (map enc xs)))"
    using Cons.prems by (intro Cons.IH) auto
  ultimately show ?case
    by (simp add: add.assoc)
qed

lemma enc_inj: "good x \<Longrightarrow> good y \<Longrightarrow> enc x = enc y \<Longrightarrow> x = y"
  using dec_enc [of x "[]" "[]"] dec_enc [of y "[]" "[]"] by simp

end

subsection \<open>Interface: a machine that keeps an invariant\<close>

text \<open>
  A component with mutable state is a step function from a state and an input to a state and an
  output; \<open>run\<close> feeds it a list of inputs.
\<close>

fun run :: "('s \<Rightarrow> 'i \<Rightarrow> 's \<times> 'o) \<Rightarrow> 's \<Rightarrow> 'i list \<Rightarrow> 's \<times> 'o list" where
  "run step s [] = (s, [])"
| "run step s (x # xs) = (let (s', y) = step s x; (s'', ys) = run step s' xs in (s'', y # ys))"

locale machine =
  fixes step :: "'s \<Rightarrow> 'i \<Rightarrow> 's \<times> 'o"
    and inv :: "'s \<Rightarrow> bool"
  assumes step_inv: "inv s \<Longrightarrow> inv (fst (step s x))"
begin

lemma run_inv: "inv s \<Longrightarrow> inv (fst (run step s xs))"
proof (induction xs arbitrary: s)
  case Nil
  then show ?case by simp
next
  case (Cons x xs)
  then have "inv (fst (run step (fst (step s x)) xs))"
    using step_inv by blast
  then show ?case
    by (simp add: split_beta)
qed

end

lemma run_append:
  "run step s (xs @ ys) =
     (let (s', os) = run step s xs; (s'', os') = run step s' ys in (s'', os @ os'))"
  by (induction xs arbitrary: s) (auto simp: split_beta)

lemma length_run [simp]: "length (snd (run step s xs)) = length xs"
  by (induction xs arbitrary: s) (auto simp: split_beta)

end
