(* ===== verification/Rust_Text.thy ===== *)
theory Rust_Text
  imports Prelude
begin

text \<open>
  The part of Rust's string library the program uses.  A \<open>str\<close> is the list of its UTF-8 octets, as a
  HOL \<^typ>\<open>string\<close>; every character the program tests for is ASCII, and no octet of a multi-octet
  character is, so a loop over octets and a loop over characters do the same.  The UTF-8 decoder
  is the one behind \<open>from_utf8\<close> and \<open>from_utf8_lossy\<close>: a step reads one character or the longest
  prefix of one.
\<close>

definition ord_of :: "char \<Rightarrow> nat" where
  "ord_of c = of_char c"

definition is_ascii :: "string \<Rightarrow> bool" where
  "is_ascii s = list_all (\<lambda>c. ord_of c < 128) s"

lemma ord_of_less [simp]: "ord_of c < 256"
  by (simp add: ord_of_def)

lemma ord_of_inj [simp]: "ord_of c = ord_of d \<longleftrightarrow> c = d"
  by (simp add: ord_of_def)

subsection \<open>Splitting and joining\<close>

fun split_on :: "char \<Rightarrow> string \<Rightarrow> string list" where
  "split_on d [] = [[]]"
| "split_on d (c # cs) =
     (if c = d then [] # split_on d cs
      else case split_on d cs of [] \<Rightarrow> [[c]] | x # xs \<Rightarrow> (c # x) # xs)"

fun str_join :: "string \<Rightarrow> string list \<Rightarrow> string" where
  "str_join sep [] = []"
| "str_join sep [x] = x"
| "str_join sep (x # y # ys) = x @ sep @ str_join sep (y # ys)"

fun split_once :: "char \<Rightarrow> string \<Rightarrow> (string \<times> string) option" where
  "split_once d [] = None"
| "split_once d (c # cs) =
     (if c = d then Some ([], cs) else map_option (\<lambda>(a, b). (c # a, b)) (split_once d cs))"

definition rsplit_once :: "char \<Rightarrow> string \<Rightarrow> (string \<times> string) option" where
  "rsplit_once d s = map_option (\<lambda>(a, b). (rev b, rev a)) (split_once d (rev s))"

definition strip_prefix :: "string \<Rightarrow> string \<Rightarrow> string option" where
  "strip_prefix p s = (if take (length p) s = p then Some (drop (length p) s) else None)"

definition strip_suffix :: "string \<Rightarrow> string \<Rightarrow> string option" where
  "strip_suffix p s = map_option rev (strip_prefix (rev p) (rev s))"

definition starts_with :: "string \<Rightarrow> string \<Rightarrow> bool" where
  "starts_with s p = (take (length p) s = p)"

definition ends_with :: "string \<Rightarrow> string \<Rightarrow> bool" where
  "ends_with s p = starts_with (rev s) (rev p)"

lemma split_on_ne [simp]: "split_on d s \<noteq> []"
  by (induction s) (auto split: list.splits)

lemma str_join_Cons: "xs \<noteq> [] \<Longrightarrow> str_join sep (x # xs) = x @ sep @ str_join sep xs"
  by (cases xs) auto

lemma str_join_split_on: "str_join [d] (split_on d s) = s"
proof (induction s)
  case Nil
  then show ?case by simp
next
  case (Cons c cs)
  obtain x xs where *: "split_on d cs = x # xs"
    by (cases "split_on d cs") auto
  with Cons show ?case
    by (cases xs) auto
qed

lemma split_on_no_sep: "x \<in> set (split_on d s) \<Longrightarrow> d \<notin> set x"
  by (induction s arbitrary: x) (fastforce split: list.splits if_splits)+

lemma split_on_append:
  "d \<notin> set a \<Longrightarrow> split_on d (a @ d # s) = a # split_on d s"
  by (induction a) auto

lemma split_on_single: "d \<notin> set a \<Longrightarrow> split_on d a = [a]"
  by (induction a) auto

lemma split_on_join:
  assumes "xs \<noteq> []" and "\<forall>x \<in> set xs. d \<notin> set x"
  shows "split_on d (str_join [d] xs) = xs"
  using assms
proof (induction xs)
  case Nil
  then show ?case by simp
next
  case (Cons x xs)
  then show ?case
    by (cases xs) (auto simp: split_on_append split_on_single)
qed

lemma split_once_eq_Some:
  "split_once d s = Some (a, b) \<longleftrightarrow> s = a @ d # b \<and> d \<notin> set a"
  by (induction s arbitrary: a b) (auto simp: Cons_eq_append_conv)

lemma split_once_eq_None: "split_once d s = None \<longleftrightarrow> d \<notin> set s"
  by (induction s) auto

lemma rsplit_once_eq_Some:
  "rsplit_once d s = Some (a, b) \<longleftrightarrow> s = a @ d # b \<and> d \<notin> set b"
proof -
  have "rsplit_once d s = Some (a, b) \<longleftrightarrow> split_once d (rev s) = Some (rev b, rev a)"
    by (auto simp: rsplit_once_def)
  also have "\<dots> \<longleftrightarrow> s = a @ d # b \<and> d \<notin> set b"
    by (auto simp: split_once_eq_Some rev_swap)
  finally show ?thesis .
qed

lemma rsplit_once_eq_None: "rsplit_once d s = None \<longleftrightarrow> d \<notin> set s"
  by (simp add: rsplit_once_def split_once_eq_None)

lemma strip_prefix_eq_Some: "strip_prefix p s = Some r \<longleftrightarrow> s = p @ r"
  unfolding strip_prefix_def by (metis append_eq_conv_conj option.inject option.distinct(1))

lemma strip_suffix_eq_Some: "strip_suffix p s = Some r \<longleftrightarrow> s = r @ p"
  by (auto simp: strip_suffix_def strip_prefix_eq_Some rev_swap)

lemma starts_with_iff: "starts_with s p \<longleftrightarrow> (\<exists>r. s = p @ r)"
  unfolding starts_with_def by (metis append_eq_conv_conj append_take_drop_id)

lemma ends_with_iff: "ends_with s p \<longleftrightarrow> (\<exists>r. s = r @ p)"
  by (auto simp: ends_with_def starts_with_iff rev_swap) (metis rev_rev_ident)

subsection \<open>UTF-8\<close>

definition utf8_cont :: "nat \<Rightarrow> bool" where
  "utf8_cont b = (128 \<le> b \<and> b < 192)"

definition utf8_width :: "nat \<Rightarrow> nat" where
  "utf8_width b =
     (if b < 128 then 1 else if b < 194 then 0 else if b < 224 then 2
      else if b < 240 then 3 else if b < 245 then 4 else 0)"

definition utf8_second :: "nat \<Rightarrow> nat \<Rightarrow> bool" where
  "utf8_second b x =
     (if b = 224 then 160 \<le> x \<and> x \<le> 191
      else if b = 237 then 128 \<le> x \<and> x \<le> 159
      else if b = 240 then 144 \<le> x \<and> x \<le> 191
      else if b = 244 then 128 \<le> x \<and> x \<le> 143
      else utf8_cont x)"

definition safe_get :: "string \<Rightarrow> nat \<Rightarrow> nat" where
  "safe_get s i = (if i < length s then ord_of (s ! i) else 0)"

fun utf8_step :: "string \<Rightarrow> bool \<times> nat" where
  "utf8_step [] = (True, 0)"
| "utf8_step (c # s) =
     (let b = ord_of c; w = utf8_width b in
      if w = 1 then (True, 1)
      else if w = 2 then (if utf8_cont (safe_get s 0) then (True, 2) else (False, 1))
      else if w = 3 then
        (if utf8_second b (safe_get s 0)
         then (if utf8_cont (safe_get s 1) then (True, 3) else (False, 2))
         else (False, 1))
      else if w = 4 then
        (if utf8_second b (safe_get s 0)
         then (if utf8_cont (safe_get s 1)
               then (if utf8_cont (safe_get s 2) then (True, 4) else (False, 3))
               else (False, 2))
         else (False, 1))
      else (False, 1))"

lemma utf8_step_pos: "s \<noteq> [] \<Longrightarrow> 0 < snd (utf8_step s)"
  by (cases s) (auto simp: Let_def)

definition replacement :: string where
  "replacement = [CHR 0xEF, CHR 0xBF, CHR 0xBD]"

lemma utf8_step_drop: "s \<noteq> [] \<Longrightarrow> (ok, n) = utf8_step s \<Longrightarrow> length (drop n s) < length s"
  using utf8_step_pos [of s] by (cases "utf8_step s") auto

function from_utf8_lossy :: "string \<Rightarrow> string" where
  "from_utf8_lossy s =
     (if s = [] then []
      else let (ok, n) = utf8_step s in
        (if ok then take n s else replacement) @ from_utf8_lossy (drop n s))"
  by pat_completeness auto
termination
  by (relation "measure length") (use utf8_step_drop in \<open>simp_all only: wf_measure in_measure, blast+\<close>)

function utf8_valid :: "string \<Rightarrow> bool" where
  "utf8_valid s =
     (if s = [] then True else let (ok, n) = utf8_step s in ok \<and> utf8_valid (drop n s))"
  by pat_completeness auto
termination
  by (relation "measure length") (use utf8_step_drop in \<open>simp_all only: wf_measure in_measure, blast+\<close>)

declare from_utf8_lossy.simps [simp del] utf8_valid.simps [simp del]

lemma from_utf8_lossy_Nil [simp]: "from_utf8_lossy [] = []"
  by (simp add: from_utf8_lossy.simps)

lemma utf8_valid_Nil [simp]: "utf8_valid []"
  by (simp add: utf8_valid.simps)

lemma from_utf8_lossy_valid: "utf8_valid s \<Longrightarrow> from_utf8_lossy s = s"
proof (induction s rule: from_utf8_lossy.induct)
  case (1 s)
  show ?case
  proof (cases "s = []")
    case False
    obtain ok n where st: "utf8_step s = (ok, n)"
      by (cases "utf8_step s")
    with 1(2) False have "ok" and "utf8_valid (drop n s)"
      by (simp_all add: utf8_valid.simps [of s])
    with 1(1) [OF False st [symmetric] refl] st False show ?thesis
      by (subst from_utf8_lossy.simps) simp
  qed simp
qed

lemma safe_get_cont: "utf8_cont (safe_get s i) \<Longrightarrow> i < length s"
  by (auto simp: safe_get_def utf8_cont_def split: if_splits)

lemma safe_get_second: "utf8_second b (safe_get s i) \<Longrightarrow> i < length s"
  by (auto simp: safe_get_def utf8_second_def utf8_cont_def split: if_splits)

lemma safe_get_take:
  "i < n \<Longrightarrow> i < length s \<Longrightarrow> safe_get (take n s @ t) i = safe_get s i"
  by (auto simp: safe_get_def nth_append)

text \<open>A complete character is read the same whatever follows it.\<close>

lemma utf8_step_take:
  assumes st: "utf8_step s = (True, n)" and "s \<noteq> []"
  shows "utf8_step (take n s @ t) = (True, n) \<and> n \<le> length s"
proof -
  obtain c s' where s: "s = c # s'"
    using \<open>s \<noteq> []\<close> by (cases s) auto
  let ?w = "utf8_width (ord_of c)"
  have "?w \<in> {0, 1, 2, 3, 4}"
    by (simp add: utf8_width_def)
  then consider "?w = 1" | "?w = 2" | "?w = 3" | "?w = 4" | "?w = 0"
    by (elim insertE emptyE)
  then show ?thesis
  proof cases
    case 1
    with st s have "n = Suc 0"
      by simp
    with 1 s show ?thesis
      by simp
  next
    case 2
    with st s safe_get_cont [of s' 0] show ?thesis
      by (auto simp: Let_def safe_get_take Suc_le_eq split: if_splits)
  next
    case 3
    with st s safe_get_second [of "ord_of c" s' 0] safe_get_cont [of s' 1] show ?thesis
      by (auto simp: Let_def safe_get_take Suc_le_eq split: if_splits)
  next
    case 4
    with st s safe_get_second [of "ord_of c" s' 0] safe_get_cont [of s' 1] safe_get_cont [of s' 2]
    show ?thesis
      by (auto simp: Let_def safe_get_take Suc_le_eq split: if_splits)
  qed (use st s in \<open>auto simp: Let_def\<close>)
qed

lemma utf8_valid_append_char:
  "utf8_step s = (True, n) \<Longrightarrow> s \<noteq> [] \<Longrightarrow> utf8_valid (take n s @ t) = utf8_valid t"
  using utf8_step_take [of s n t] utf8_step_pos [of s]
  by (subst utf8_valid.simps) auto

lemma utf8_step_replacement: "utf8_step (replacement @ t) = (True, 3)"
  by (simp add: replacement_def Let_def utf8_width_def utf8_second_def utf8_cont_def
      safe_get_def ord_of_def)

lemma utf8_valid_replacement: "utf8_valid (replacement @ t) = utf8_valid t"
  using utf8_step_replacement [of t]
  by (subst utf8_valid.simps) (simp add: replacement_def)

lemma utf8_valid_lossy: "utf8_valid (from_utf8_lossy s)"
proof (induction s rule: from_utf8_lossy.induct)
  case (1 s)
  show ?case
  proof (cases "s = []")
    case False
    obtain ok n where st: "utf8_step s = (ok, n)"
      by (cases "utf8_step s")
    with 1 [OF False st [symmetric] refl] False show ?thesis
      by (subst from_utf8_lossy.simps)
        (simp add: utf8_valid_append_char utf8_valid_replacement)
  qed simp
qed

lemma is_ascii_Cons [simp]: "is_ascii (c # s) \<longleftrightarrow> ord_of c < 128 \<and> is_ascii s"
  by (simp add: is_ascii_def)

lemma is_ascii_Nil [simp]: "is_ascii []"
  by (simp add: is_ascii_def)

lemma is_ascii_valid: "is_ascii s \<Longrightarrow> utf8_valid s"
proof (induction s)
  case (Cons c s)
  then show ?case
    by (subst utf8_valid.simps) (simp add: Let_def utf8_width_def)
qed simp

lemma from_utf8_lossy_ascii [simp]: "is_ascii s \<Longrightarrow> from_utf8_lossy s = s"
  by (simp add: from_utf8_lossy_valid is_ascii_valid)

definition from_utf8 :: "string \<Rightarrow> string option" where
  "from_utf8 s = (if utf8_valid s then Some s else None)"

subsection \<open>Case, white space and numbers\<close>

definition lower_char :: "char \<Rightarrow> char" where
  "lower_char c = (if 65 \<le> ord_of c \<and> ord_of c \<le> 90 then char_of (ord_of c + 32) else c)"

definition upper_char :: "char \<Rightarrow> char" where
  "upper_char c = (if 97 \<le> ord_of c \<and> ord_of c \<le> 122 then char_of (ord_of c - 32) else c)"

definition to_ascii_lowercase :: "string \<Rightarrow> string" where
  "to_ascii_lowercase s = map lower_char s"

definition to_ascii_uppercase :: "string \<Rightarrow> string" where
  "to_ascii_uppercase s = map upper_char s"

definition eq_ignore_ascii_case :: "string \<Rightarrow> string \<Rightarrow> bool" where
  "eq_ignore_ascii_case a b = (to_ascii_lowercase a = to_ascii_lowercase b)"

definition is_ascii_whitespace :: "char \<Rightarrow> bool" where
  "is_ascii_whitespace c = (ord_of c \<in> {9, 10, 12, 13, 32})"

definition is_ascii_digit :: "char \<Rightarrow> bool" where
  "is_ascii_digit c = (48 \<le> ord_of c \<and> ord_of c \<le> 57)"

text \<open>The UTF-8 forms of the Unicode white space characters, which \<open>trim\<close> removes.\<close>

definition ws_seqs :: "string list" where
  "ws_seqs =
     map (\<lambda>n. [char_of n]) [9 :: nat, 10, 11, 12, 13, 32] @
     map (map char_of) ([[0xC2 :: nat, 0x85], [0xC2, 0xA0], [0xE1, 0x9A, 0x80],
       [0xE2, 0x80, 0xA8], [0xE2, 0x80, 0xA9], [0xE2, 0x80, 0xAF], [0xE2, 0x81, 0x9F],
       [0xE3, 0x80, 0x80]] @ map (\<lambda>k. [0xE2, 0x80, k]) [0x80..<0x8B])"

definition ws_prefix :: "(string \<Rightarrow> string) \<Rightarrow> string \<Rightarrow> nat" where
  "ws_prefix f s = (case find (\<lambda>w. starts_with s (f w)) ws_seqs of None \<Rightarrow> 0 | Some w \<Rightarrow> length w)"

lemma ws_seqs_ne: "w \<in> set ws_seqs \<Longrightarrow> w \<noteq> []"
  by (auto simp: ws_seqs_def)

function trim_by :: "(string \<Rightarrow> string) \<Rightarrow> string \<Rightarrow> string" where
  "trim_by f s = (let n = ws_prefix f s in if n = 0 \<or> s = [] then s else trim_by f (drop n s))"
  by pat_completeness auto
termination
  by (relation "measure (length \<circ> snd)") auto

declare trim_by.simps [simp del]

definition trim :: "string \<Rightarrow> string" where
  "trim s = rev (trim_by rev (rev (trim_by (\<lambda>w. w) s)))"

definition graphic :: "char \<Rightarrow> bool" where
  "graphic c = (33 \<le> ord_of c \<and> ord_of c < 127)"

lemma ws_seqs_ends: "list_all (\<lambda>w. w \<noteq> [] \<and> \<not> graphic (hd w) \<and> \<not> graphic (last w)) ws_seqs"
  by code_simp

lemma ws_prefix_graphic:
  assumes "graphic c" and "\<And>w. w \<noteq> [] \<Longrightarrow> \<not> graphic (hd w) \<Longrightarrow> \<not> graphic (last w) \<Longrightarrow>
    f w \<noteq> [] \<and> \<not> graphic (hd (f w))"
  shows "ws_prefix f (c # s) = 0"
proof -
  have "\<not> starts_with (c # s) (f w)" if "w \<in> set ws_seqs" for w
  proof -
    have "f w \<noteq> []" "\<not> graphic (hd (f w))"
      using ws_seqs_ends assms(2) that by (auto simp: list_all_iff)
    with assms(1) show ?thesis
      by (cases "f w") (auto simp: starts_with_def)
  qed
  then have "find (\<lambda>w. starts_with (c # s) (f w)) ws_seqs = None"
    by (simp add: find_None_iff)
  then show ?thesis
    by (simp add: ws_prefix_def)
qed

lemma trim_by_graphic:
  "graphic c \<Longrightarrow> trim_by (\<lambda>w. w) (c # s) = c # s" "graphic c \<Longrightarrow> trim_by rev (c # s) = c # s"
  by (subst trim_by.simps, simp add: ws_prefix_graphic hd_rev)+

lemma trim_id: "s \<noteq> [] \<Longrightarrow> graphic (hd s) \<Longrightarrow> graphic (last s) \<Longrightarrow> trim s = s"
proof -
  assume s: "s \<noteq> []" "graphic (hd s)" "graphic (last s)"
  then have "trim_by (\<lambda>w. w) s = s"
    by (cases s) (simp_all add: trim_by_graphic)
  moreover have "trim_by rev (rev s) = rev s"
    using s by (cases s rule: rev_cases) (simp_all add: trim_by_graphic)
  ultimately show ?thesis
    by (simp add: trim_def)
qed

definition split_by :: "(char \<Rightarrow> bool) \<Rightarrow> string \<Rightarrow> string list" where
  "split_by p s =
     foldr (\<lambda>c acc. if p c then [] # acc else (c # hd acc) # tl acc) s [[]]"

text \<open>\<open>str::parse\<close> for integer types: an optional sign, then at least one digit, in range.\<close>

fun parse_digits :: "string \<Rightarrow> nat \<Rightarrow> nat option" where
  "parse_digits [] acc = Some acc"
| "parse_digits (c # cs) acc =
     (if is_ascii_digit c then parse_digits cs (acc * 10 + (ord_of c - 48)) else None)"

definition parse_nat :: "string \<Rightarrow> nat option" where
  "parse_nat s = (if s = [] then None else parse_digits s 0)"

definition parse_unsigned :: "nat \<Rightarrow> string \<Rightarrow> nat option" where
  "parse_unsigned bound s =
     (case parse_nat (case s of [] \<Rightarrow> [] | c # cs \<Rightarrow> if c = CHR ''+'' then cs else s) of
        None \<Rightarrow> None | Some n \<Rightarrow> if n < bound then Some n else None)"

definition parse_i32 :: "string \<Rightarrow> int option" where
  "parse_i32 s =
     (case s of [] \<Rightarrow> None
      | c # cs \<Rightarrow>
          if c = CHR ''-'' then
            (case parse_nat cs of None \<Rightarrow> None
             | Some n \<Rightarrow> if n \<le> 2 ^ 31 then Some (- int n) else None)
          else
            (case parse_nat (if c = CHR ''+'' then cs else s) of None \<Rightarrow> None
             | Some n \<Rightarrow> if n < 2 ^ 31 then Some (int n) else None))"

end
