(* ===== verification/Names.thy ===== *)
theory Names
  imports Rust_Text
begin

text \<open>
  Principal names: \<open>crates/krb5-types/src/name.rs\<close> (parsing and printing with escapes), the
  \<open>PrincipalName\<close> methods of \<open>crates/krb5-types/src/lib.rs\<close>, and the database key of a name
  (\<open>lookup_principal_id\<close> of \<open>crates/krb5-kdc/src/kdb.rs\<close>).  The parser is a loop over the text with the
  components read so far, the realm and two flags as its state.  The lemmas show that parsing
  inverts printing and that distinct principals have distinct printed names.
\<close>

subsection \<open>Data\<close>

datatype name_error = NotUtf8 | NotGeneralString | EmptyName | Malformed

record parsed_name =
  components :: "string list"
  parsed_realm :: string
  has_realm :: bool

record principal_name =
  name_type :: int
  name_string :: "string list"

definition NT_UNKNOWN :: int where "NT_UNKNOWN = 0"
definition NT_PRINCIPAL :: int where "NT_PRINCIPAL = 1"
definition NT_SRV_INST :: int where "NT_SRV_INST = 2"
definition NT_SRV_HST :: int where "NT_SRV_HST = 3"
definition NT_ENTERPRISE :: int where "NT_ENTERPRISE = 10"
definition NT_WELLKNOWN :: int where "NT_WELLKNOWN = 11"
definition NT_MS_PRINCIPAL :: int where "NT_MS_PRINCIPAL = -128"

lemmas nt_defs = NT_UNKNOWN_def NT_PRINCIPAL_def NT_SRV_INST_def NT_SRV_HST_def
  NT_ENTERPRISE_def NT_WELLKNOWN_def NT_MS_PRINCIPAL_def

subsection \<open>The parser\<close>

text \<open>The loop's variables: \<open>comps\<close>, \<open>realm\<close>, \<open>in_realm\<close> and \<open>first_at\<close>.\<close>

record name_state =
  st_comps :: "string list"
  st_realm :: "string option"
  st_in_realm :: bool
  st_first_at :: bool

definition push_char :: "name_state \<Rightarrow> char \<Rightarrow> name_state" where
  "push_char st ch =
     (if st_in_realm st
      then st\<lparr>st_realm := Some ((case st_realm st of None \<Rightarrow> [] | Some r \<Rightarrow> r) @ [ch])\<rparr>
      else if st_comps st = [] then st
      else st\<lparr>st_comps := butlast (st_comps st) @ [last (st_comps st) @ [ch]]\<rparr>)"

definition unescape_char :: "char \<Rightarrow> char" where
  "unescape_char n =
     (if n = CHR ''n'' then CHR 0x0A
      else if n = CHR ''t'' then CHR 0x09
      else if n = CHR ''b'' then CHR 0x08
      else if n = CHR ''0'' then CHR 0x00
      else n)"

fun parse_loop :: "bool \<Rightarrow> string \<Rightarrow> name_state \<Rightarrow> name_error + name_state" where
  "parse_loop ent [] st = Inr st"
| "parse_loop ent (c # cs) st =
     (if c = CHR 0x5C then
        (case cs of [] \<Rightarrow> Inl Malformed
         | n # rest \<Rightarrow> parse_loop ent rest (push_char st (unescape_char n)))
      else if c = CHR ''/'' \<and> \<not> ent then
        (if st_in_realm st then Inl Malformed
         else parse_loop ent cs (st\<lparr>st_comps := st_comps st @ [[]]\<rparr>))
      else if c = CHR ''@'' \<and> (\<not> ent \<or> \<not> st_first_at st) then
        (if st_in_realm st then Inl Malformed
         else parse_loop ent cs (st\<lparr>st_in_realm := True, st_realm := Some []\<rparr>))
      else
        parse_loop ent cs
          (push_char (if c = CHR ''@'' \<and> ent then st\<lparr>st_first_at := False\<rparr> else st) c))"

definition parse_init :: name_state where
  "parse_init = \<lparr>st_comps = [[]], st_realm = None, st_in_realm = False, st_first_at = True\<rparr>"

definition parse_name_ex :: "string \<Rightarrow> string \<Rightarrow> bool \<Rightarrow> name_error + parsed_name" where
  "parse_name_ex s default_realm ent =
     andthen (parse_loop ent s parse_init)
       (\<lambda>st. Inr \<lparr>components = st_comps st,
                 parsed_realm = (case st_realm st of None \<Rightarrow> default_realm | Some r \<Rightarrow> r),
                 has_realm = st_in_realm st\<rparr>)"

definition parse_name :: "string \<Rightarrow> string \<Rightarrow> name_error + string list \<times> string" where
  "parse_name s default_realm =
     andthen (parse_name_ex s default_realm False) (\<lambda>p. Inr (components p, parsed_realm p))"

definition infer_name_type :: "string list \<Rightarrow> int" where
  "infer_name_type comps =
     (if length comps = 2 \<and> comps ! 0 = ''krbtgt'' then NT_SRV_INST
      else if 2 \<le> length comps \<and> comps ! 0 = ''WELLKNOWN'' then NT_WELLKNOWN
      else NT_PRINCIPAL)"

subsection \<open>Kerberos strings and names\<close>

text \<open>The characters a \<open>GeneralString\<close> is built from: all octets but 0x80 to 0xA0.\<close>

definition general_char :: "char \<Rightarrow> bool" where
  "general_char c = (ord_of c < 128 \<or> 161 \<le> ord_of c)"

definition general_string :: "string \<Rightarrow> name_error + string" where
  "general_string s = (if list_all general_char s then Inr s else Inl NotGeneralString)"

definition try_ascii :: "string \<Rightarrow> name_error + string" where
  "try_ascii s = (if \<not> is_ascii s then Inl NotGeneralString else general_string s)"

definition kerberos_string_from_bytes :: "string \<Rightarrow> name_error + string" where
  "kerberos_string_from_bytes b = andthen (ok_or NotUtf8 (from_utf8 b)) try_ascii"

definition try_new :: "int \<Rightarrow> string list \<Rightarrow> name_error + principal_name" where
  "try_new nt parts =
     andthen (collect_res try_ascii parts) (\<lambda>ns. Inr \<lparr>name_type = nt, name_string = ns\<rparr>)"

definition try_from_bytes :: "int \<Rightarrow> string list \<Rightarrow> name_error + principal_name" where
  "try_from_bytes nt parts =
     andthen (collect_res kerberos_string_from_bytes parts)
       (\<lambda>ns. Inr \<lparr>name_type = nt, name_string = ns\<rparr>)"

text \<open>\<open>None\<close> is the panic of \<open>expect\<close>.\<close>

definition new_name :: "int \<Rightarrow> string list \<Rightarrow> principal_name option" where
  "new_name nt parts = (case try_new nt parts of Inl e \<Rightarrow> None | Inr n \<Rightarrow> Some n)"

definition krbtgt :: "string \<Rightarrow> principal_name option" where
  "krbtgt realm = new_name NT_SRV_INST [''krbtgt'', realm]"

definition components_eq :: "principal_name \<Rightarrow> principal_name \<Rightarrow> bool" where
  "components_eq a b = (name_string a = name_string b)"

definition principal_compare ::
  "principal_name \<Rightarrow> string \<Rightarrow> principal_name \<Rightarrow> string \<Rightarrow> bool" where
  "principal_compare name_a realm_a name_b realm_b =
     (realm_a = realm_b \<and> components_eq name_a name_b)"

definition component_strings :: "principal_name \<Rightarrow> string list" where
  "component_strings n = map from_utf8_lossy (name_string n)"

definition components_joined :: "principal_name \<Rightarrow> string" where
  "components_joined n = str_join ''/'' (map from_utf8_lossy (name_string n))"

definition principal_from_unparsed_ex ::
  "string \<Rightarrow> string \<Rightarrow> bool \<Rightarrow> name_error + principal_name \<times> string" where
  "principal_from_unparsed_ex s default_realm ent =
     andthen (parse_name_ex s default_realm ent)
       (\<lambda>p. let ntype = if ent then NT_ENTERPRISE else infer_name_type (components p) in
         andthen (try_new ntype (components p)) (\<lambda>n. Inr (n, parsed_realm p)))"

definition principal_from_unparsed ::
  "string \<Rightarrow> string \<Rightarrow> name_error + principal_name \<times> string" where
  "principal_from_unparsed s default_realm = principal_from_unparsed_ex s default_realm False"

subsection \<open>The printer\<close>

definition quote_char :: "char \<Rightarrow> string" where
  "quote_char c =
     (if c = CHR ''/'' \<or> c = CHR ''@'' \<or> c = CHR 0x5C then [CHR 0x5C, c]
      else if c = CHR 0x09 then [CHR 0x5C, CHR ''t'']
      else if c = CHR 0x0A then [CHR 0x5C, CHR ''n'']
      else if c = CHR 0x08 then [CHR 0x5C, CHR ''b'']
      else if c = CHR 0x00 then [CHR 0x5C, CHR ''0'']
      else [c])"

fun quote_component :: "string \<Rightarrow> string" where
  "quote_component [] = []"
| "quote_component (c # cs) = quote_char c @ quote_component cs"

definition unparse_components :: "string list \<Rightarrow> string" where
  "unparse_components comps = str_join ''/'' (map quote_component comps)"

definition unparse_name :: "string list \<Rightarrow> string \<Rightarrow> string" where
  "unparse_name comps realm = unparse_components comps @ ''@'' @ quote_component realm"

definition unparse_components_no_realm :: "string list \<Rightarrow> string" where
  "unparse_components_no_realm comps =
     str_join ''/''
       (map (\<lambda>c. str_join ''@'' (map quote_component (split_on (CHR ''@'') c))) comps)"

definition unparse :: "principal_name \<Rightarrow> string" where
  "unparse n = unparse_components (component_strings n)"

definition unparse_with_realm :: "principal_name \<Rightarrow> string \<Rightarrow> string" where
  "unparse_with_realm n realm = unparse_name (component_strings n) realm"

definition unparse_no_realm :: "principal_name \<Rightarrow> string" where
  "unparse_no_realm n = unparse_components_no_realm (component_strings n)"

definition default_salt :: "principal_name \<Rightarrow> string \<Rightarrow> string" where
  "default_salt n realm = realm @ concat (name_string n)"

subsection \<open>Ticket-granting names\<close>

definition is_krbtgt :: "principal_name \<Rightarrow> bool" where
  "is_krbtgt n = (length (name_string n) = 2 \<and> name_string n ! 0 = ''krbtgt'')"

definition is_krbtgt_for :: "principal_name \<Rightarrow> string \<Rightarrow> bool" where
  "is_krbtgt_for n realm =
     (length (name_string n) = 2 \<and> name_string n ! 0 = ''krbtgt'' \<and> name_string n ! 1 = realm)"

definition is_local_tgs_principal :: "principal_name \<Rightarrow> string \<Rightarrow> bool" where
  "is_local_tgs_principal n princ_realm = (is_krbtgt n \<and> is_krbtgt_for n princ_realm)"

definition is_cross_tgs_principal :: "principal_name \<Rightarrow> string \<Rightarrow> bool" where
  "is_cross_tgs_principal n princ_realm = (is_krbtgt n \<and> \<not> is_krbtgt_for n princ_realm)"

subsection \<open>The database key of a name\<close>

definition lookup_principal_id :: "principal_name \<Rightarrow> string \<Rightarrow> string" where
  "lookup_principal_id name realm =
     (if name_type name = NT_ENTERPRISE then
        let raw = components_joined name in
        (case rsplit_once (CHR ''@'') raw of
           Some (user, suffix) \<Rightarrow>
             (if user \<noteq> [] then
                (if suffix = realm then user @ ''@'' @ realm else unparse_name [raw] realm)
              else unparse_name [raw] realm)
         | None \<Rightarrow> unparse_name [raw] realm)
      else unparse_with_realm name realm)"

subsection \<open>Parsing inverts printing\<close>

definition push_str :: "name_state \<Rightarrow> string \<Rightarrow> name_state" where
  "push_str st s = fold (\<lambda>c st. push_char st c) s st"

lemma push_str_simps [simp]:
  "push_str st [] = st"
  "push_str st (c # cs) = push_str (push_char st c) cs"
  by (simp_all add: push_str_def)

lemma parse_loop_quote_char:
  "parse_loop False (quote_char c @ rest) st = parse_loop False rest (push_char st c)"
  by (auto simp: quote_char_def unescape_char_def)

lemma parse_loop_quote:
  "parse_loop False (quote_component s @ rest) st = parse_loop False rest (push_str st s)"
  by (induction s arbitrary: st) (auto simp: parse_loop_quote_char)

lemma push_str_comps:
  "\<not> st_in_realm st \<Longrightarrow> st_comps st = cs @ [x] \<Longrightarrow> push_str st s = st\<lparr>st_comps := cs @ [x @ s]\<rparr>"
  by (induction s arbitrary: st x) (simp_all add: push_char_def)

lemma push_str_realm:
  "st_in_realm st \<Longrightarrow> st_realm st = Some r \<Longrightarrow> push_str st s = st\<lparr>st_realm := Some (r @ s)\<rparr>"
  by (induction s arbitrary: st r) (simp_all add: push_char_def)

lemma parse_loop_components:
  assumes "comps \<noteq> []" and "\<not> st_in_realm st" and "st_comps st = cs @ [[]]"
  shows "parse_loop False (unparse_components comps @ rest) st
           = parse_loop False rest (st\<lparr>st_comps := cs @ comps\<rparr>)"
  using assms
proof (induction comps arbitrary: st cs)
  case Nil
  then show ?case by simp
next
  case (Cons c comps)
  have c: "push_str st c = st\<lparr>st_comps := cs @ [c]\<rparr>"
    using push_str_comps [of st cs "[]" c] Cons.prems by simp
  show ?case
  proof (cases comps)
    case Nil
    with c show ?thesis
      by (simp add: unparse_components_def parse_loop_quote)
  next
    case (Cons d ds)
    then have "unparse_components (c # comps)
        = quote_component c @ CHR ''/'' # unparse_components comps"
      by (simp add: unparse_components_def)
    with c Cons Cons.IH [of "st\<lparr>st_comps := (cs @ [c]) @ [[]]\<rparr>" "cs @ [c]"] Cons.prems
    show ?thesis
      by (simp add: parse_loop_quote)
  qed
qed

lemma parse_unparse_ex:
  assumes "comps \<noteq> []"
  shows "parse_name_ex (unparse_name comps realm) d False
           = Inr \<lparr>components = comps, parsed_realm = realm, has_realm = True\<rparr>"
proof -
  have "parse_loop False (unparse_name comps realm) parse_init
      = Inr \<lparr>st_comps = comps, st_realm = Some realm, st_in_realm = True, st_first_at = True\<rparr>"
    using parse_loop_components [OF assms, of parse_init "[]" "''@'' @ quote_component realm"]
      parse_loop_quote [of realm "[]"] push_str_realm
    by (simp add: unparse_name_def parse_init_def)
  then show ?thesis
    by (simp add: parse_name_ex_def)
qed

lemma unparse_name_inj:
  assumes "comps \<noteq> []" and "comps' \<noteq> []"
  shows "unparse_name comps realm = unparse_name comps' realm' \<longleftrightarrow> comps = comps' \<and> realm = realm'"
proof
  assume "unparse_name comps realm = unparse_name comps' realm'"
  then have "(Inr \<lparr>components = comps, parsed_realm = realm, has_realm = True\<rparr> :: name_error + _)
      = Inr \<lparr>components = comps', parsed_realm = realm', has_realm = True\<rparr>"
    by (metis parse_unparse_ex assms)
  then show "comps = comps' \<and> realm = realm'"
    by simp
qed simp

lemma parse_loop_comps_ne:
  "parse_loop ent s st = Inr st' \<Longrightarrow> st_comps st \<noteq> [] \<Longrightarrow> st_comps st' \<noteq> []"
proof (induction ent s st rule: parse_loop.induct)
  case (2 ent c cs st)
  then show ?case
    by (auto simp: push_char_def split: if_splits list.splits)
qed simp

lemma parse_name_ex_comps_ne: "parse_name_ex s d ent = Inr p \<Longrightarrow> components p \<noteq> []"
  using parse_loop_comps_ne [of ent s parse_init]
  by (auto simp: parse_name_ex_def parse_init_def)

subsection \<open>Properties\<close>

text \<open>
  C18: A printed principal name reads back as itself.  Whatever text \<open>parse_name\<close> accepts, with
  any escapes and any default realm, printing the components and the realm it found with
  \<open>unparse_name\<close> and parsing that again gives the same components and the same realm, whatever
  default realm the second parse uses; and every non-empty list of components printed with a
  realm is such a text.
\<close>
theorem parse_unparse_name:
  "(parse_name s d = Inr (comps, realm) \<longrightarrow>
      parse_name (unparse_name comps realm) d' = Inr (comps, realm)) \<and>
   (comps \<noteq> [] \<longrightarrow> parse_name (unparse_name comps realm) d' = Inr (comps, realm))"
  using parse_name_ex_comps_ne [of s d False]
  by (auto simp: parse_name_def parse_unparse_ex)

theorem parse_unparse_name_witness:
  "parse_name (''a'' @ CHR 0x5C # ''/b/c'' @ CHR 0x5C # ''tx@R'') ''D'' = Inr ([''a/b'', [CHR ''c'', CHR 0x09, CHR ''x'']], ''R'') \<and>
   parse_name (unparse_name [''a/b'', [CHR ''c'', CHR 0x09, CHR ''x'']] ''R'') ''E''
     = Inr ([''a/b'', [CHR ''c'', CHR 0x09, CHR ''x'']], ''R'')"
  using parse_unparse_name
    [of "(''a'' @ CHR 0x5C # ''/b/c'' @ CHR 0x5C # ''tx@R'')" "''D''" "[''a/b'', [CHR ''c'', CHR 0x09, CHR ''x'']]" "''R''" "''E''"]
  by (simp add: parse_name_def parse_name_ex_def parse_init_def push_char_def unescape_char_def)

text \<open>
  C19: Database keys do not collide.  Two names that are not enterprise names, with at least one
  component each and components that are valid UTF-8, have the same key exactly when
  \<open>principal_compare\<close> identifies them with their realms; for other than valid UTF-8 the printed
  form replaces octets and the key is that of the replaced text.
\<close>
theorem lookup_principal_id_inj:
  assumes "name_type a \<noteq> NT_ENTERPRISE" and "name_type b \<noteq> NT_ENTERPRISE"
    and "name_string a \<noteq> []" and "name_string b \<noteq> []"
    and "list_all utf8_valid (name_string a)" and "list_all utf8_valid (name_string b)"
  shows "lookup_principal_id a ra = lookup_principal_id b rb \<longleftrightarrow> principal_compare a ra b rb"
proof -
  have "component_strings a = name_string a" "component_strings b = name_string b"
    using assms(5,6)
    by (auto simp: component_strings_def list_all_iff from_utf8_lossy_valid intro: map_idI)
  then show ?thesis
    using assms by (auto simp: lookup_principal_id_def unparse_with_realm_def unparse_name_inj
        principal_compare_def components_eq_def)
qed

theorem lookup_principal_id_inj_witness:
  "lookup_principal_id \<lparr>name_type = NT_PRINCIPAL, name_string = [''a/b'']\<rparr> ''R''
     \<noteq> lookup_principal_id \<lparr>name_type = NT_PRINCIPAL, name_string = [''a'', ''b'']\<rparr> ''R''"
  using lookup_principal_id_inj
    [of "\<lparr>name_type = NT_PRINCIPAL, name_string = [''a/b'']\<rparr>"
        "\<lparr>name_type = NT_PRINCIPAL, name_string = [''a'', ''b'']\<rparr>" "''R''" "''R''"]
  by (simp add: nt_defs is_ascii_valid ord_of_def principal_compare_def components_eq_def)

end
