(* ===== verification/Constants.thy ===== *)
theory Constants
  imports Prelude
begin

text \<open>
  The protocol numbers of \<open>crates/krb5-types/src/constants.rs\<close>: error codes (module \<open>err\<close>),
  pre-authentication types (module \<open>pa\<close>), and the bit positions of ticket flags and KDC options
  (module \<open>flag_bit\<close>), each with its module as a prefix.
\<close>

subsection \<open>Module err\<close>

abbreviation (input) ERR_NAME_EXP :: int where "ERR_NAME_EXP \<equiv> 1"
abbreviation (input) ERR_SERVICE_EXP :: int where "ERR_SERVICE_EXP \<equiv> 2"
abbreviation (input) ERR_BAD_PVNO :: int where "ERR_BAD_PVNO \<equiv> 3"
abbreviation (input) ERR_C_PRINCIPAL_UNKNOWN :: int where "ERR_C_PRINCIPAL_UNKNOWN \<equiv> 6"
abbreviation (input) ERR_S_PRINCIPAL_UNKNOWN :: int where "ERR_S_PRINCIPAL_UNKNOWN \<equiv> 7"
abbreviation (input) ERR_CANNOT_POSTDATE :: int where "ERR_CANNOT_POSTDATE \<equiv> 10"
abbreviation (input) ERR_NEVER_VALID :: int where "ERR_NEVER_VALID \<equiv> 11"
abbreviation (input) ERR_POLICY :: int where "ERR_POLICY \<equiv> 12"
abbreviation (input) ERR_BADOPTION :: int where "ERR_BADOPTION \<equiv> 13"
abbreviation (input) ERR_ETYPE_NOSUPP :: int where "ERR_ETYPE_NOSUPP \<equiv> 14"
abbreviation (input) ERR_SUMTYPE_NOSUPP :: int where "ERR_SUMTYPE_NOSUPP \<equiv> 15"
abbreviation (input) ERR_CLIENT_REVOKED :: int where "ERR_CLIENT_REVOKED \<equiv> 18"
abbreviation (input) ERR_TGT_REVOKED :: int where "ERR_TGT_REVOKED \<equiv> 20"
abbreviation (input) ERR_KEY_EXPIRED :: int where "ERR_KEY_EXPIRED \<equiv> 23"
abbreviation (input) ERR_PREAUTH_FAILED :: int where "ERR_PREAUTH_FAILED \<equiv> 24"
abbreviation (input) ERR_PREAUTH_REQUIRED :: int where "ERR_PREAUTH_REQUIRED \<equiv> 25"
abbreviation (input) ERR_SERVER_NOMATCH :: int where "ERR_SERVER_NOMATCH \<equiv> 26"
abbreviation (input) ERR_MUST_USE_USER2USER :: int where "ERR_MUST_USE_USER2USER \<equiv> 27"
abbreviation (input) ERR_SVC_UNAVAILABLE :: int where "ERR_SVC_UNAVAILABLE \<equiv> 29"
abbreviation (input) ERR_BAD_INTEGRITY :: int where "ERR_BAD_INTEGRITY \<equiv> 31"
abbreviation (input) ERR_TKT_EXPIRED :: int where "ERR_TKT_EXPIRED \<equiv> 32"
abbreviation (input) ERR_TKT_NYV :: int where "ERR_TKT_NYV \<equiv> 33"
abbreviation (input) ERR_REPEAT :: int where "ERR_REPEAT \<equiv> 34"
abbreviation (input) ERR_NOT_US :: int where "ERR_NOT_US \<equiv> 35"
abbreviation (input) ERR_BADMATCH :: int where "ERR_BADMATCH \<equiv> 36"
abbreviation (input) ERR_SKEW :: int where "ERR_SKEW \<equiv> 37"
abbreviation (input) ERR_BADADDR :: int where "ERR_BADADDR \<equiv> 38"
abbreviation (input) ERR_BADVERSION :: int where "ERR_BADVERSION \<equiv> 39"
abbreviation (input) ERR_MSG_TYPE :: int where "ERR_MSG_TYPE \<equiv> 40"
abbreviation (input) ERR_MODIFIED :: int where "ERR_MODIFIED \<equiv> 41"
abbreviation (input) ERR_BADORDER :: int where "ERR_BADORDER \<equiv> 42"
abbreviation (input) ERR_ILL_CR_TKT :: int where "ERR_ILL_CR_TKT \<equiv> 43"
abbreviation (input) ERR_BADDIRECTION :: int where "ERR_BADDIRECTION \<equiv> 47"
abbreviation (input) ERR_METHOD :: int where "ERR_METHOD \<equiv> 48"
abbreviation (input) ERR_BADSEQ :: int where "ERR_BADSEQ \<equiv> 49"
abbreviation (input) ERR_INAPP_CKSUM :: int where "ERR_INAPP_CKSUM \<equiv> 50"
abbreviation (input) ERR_GENERIC :: int where "ERR_GENERIC \<equiv> 60"
abbreviation (input) ERR_NO_TKT_IN_RLM :: int where "ERR_NO_TKT_IN_RLM \<equiv> 185"

subsection \<open>Module pa\<close>

abbreviation (input) PA_PAC_REQUEST :: int where "PA_PAC_REQUEST \<equiv> 128"

subsection \<open>Module \<open>flag_bit\<close>\<close>

abbreviation (input) BIT_FORWARDABLE :: nat where "BIT_FORWARDABLE \<equiv> 1"
abbreviation (input) BIT_FORWARDED :: nat where "BIT_FORWARDED \<equiv> 2"
abbreviation (input) BIT_PROXIABLE :: nat where "BIT_PROXIABLE \<equiv> 3"
abbreviation (input) BIT_PROXY :: nat where "BIT_PROXY \<equiv> 4"
abbreviation (input) BIT_MAY_POSTDATE :: nat where "BIT_MAY_POSTDATE \<equiv> 5"
abbreviation (input) BIT_POSTDATED :: nat where "BIT_POSTDATED \<equiv> 6"
abbreviation (input) BIT_INVALID :: nat where "BIT_INVALID \<equiv> 7"
abbreviation (input) BIT_RENEWABLE :: nat where "BIT_RENEWABLE \<equiv> 8"
abbreviation (input) BIT_INITIAL :: nat where "BIT_INITIAL \<equiv> 9"
abbreviation (input) BIT_PRE_AUTHENT :: nat where "BIT_PRE_AUTHENT \<equiv> 10"
abbreviation (input) BIT_HW_AUTHENT :: nat where "BIT_HW_AUTHENT \<equiv> 11"
abbreviation (input) BIT_TRANSITED_POLICY_CHECKED :: nat where "BIT_TRANSITED_POLICY_CHECKED \<equiv> 12"
abbreviation (input) BIT_OK_AS_DELEGATE :: nat where "BIT_OK_AS_DELEGATE \<equiv> 13"
abbreviation (input) BIT_CNAME_IN_ADDL_TKT :: nat where "BIT_CNAME_IN_ADDL_TKT \<equiv> 14"
abbreviation (input) BIT_CANONICALIZE :: nat where "BIT_CANONICALIZE \<equiv> 15"
abbreviation (input) BIT_ENC_PA_REP :: nat where "BIT_ENC_PA_REP \<equiv> 15"
abbreviation (input) BIT_ANONYMOUS :: nat where "BIT_ANONYMOUS \<equiv> 16"
abbreviation (input) BIT_DISABLE_TRANSITED_CHECK :: nat where "BIT_DISABLE_TRANSITED_CHECK \<equiv> 26"
abbreviation (input) BIT_RENEWABLE_OK :: nat where "BIT_RENEWABLE_OK \<equiv> 27"
abbreviation (input) BIT_ENC_TKT_IN_SKEY :: nat where "BIT_ENC_TKT_IN_SKEY \<equiv> 28"
abbreviation (input) BIT_RENEW :: nat where "BIT_RENEW \<equiv> 30"
abbreviation (input) BIT_VALIDATE :: nat where "BIT_VALIDATE \<equiv> 31"

end
