(* ===== verification/Flags.thy ===== *)
theory Flags
  imports Constants
begin

text \<open>
  Ticket flags and KDC options: the bit strings of \<open>crates/krb5-types/src/lib.rs\<close>
  (\<open>TicketFlags\<close>, \<open>KdcOptions\<close>) as lists of booleans, RFC bit 0 first, and their packing into a
  32-bit integer with RFC bit 0 as the most significant bit.
\<close>

subsection \<open>Bit strings\<close>

type_synonym kerberos_flags = "bool list"

definition flags_none :: kerberos_flags where
  "flags_none = replicate 32 False"

definition flags_initial_preauth :: kerberos_flags where
  "flags_initial_preauth = (replicate 32 False)[BIT_INITIAL := True, BIT_PRE_AUTHENT := True]"

definition flag :: "kerberos_flags \<Rightarrow> nat \<Rightarrow> bool" where
  "flag bits n = (n < length bits \<and> bits ! n)"

definition with_bit :: "kerberos_flags \<Rightarrow> nat \<Rightarrow> bool \<Rightarrow> kerberos_flags" where
  "with_bit bits n on = (if n < length bits then bits[n := on] else bits)"

definition options_forwardable :: kerberos_flags where
  "options_forwardable = with_bit flags_none BIT_FORWARDABLE True"

definition flags_from_u32 :: "u32 \<Rightarrow> kerberos_flags" where
  "flags_from_u32 v =
     fold (\<lambda>i bits. bits[i := (v AND push_bit (31 - i) 1 \<noteq> 0)]) [0..<32] (replicate 32 False)"

definition flags_to_u32 :: "kerberos_flags \<Rightarrow> u32" where
  "flags_to_u32 bits =
     fold (\<lambda>i v. if bits ! i then v OR push_bit (31 - i) 1 else v) [0..<min (length bits) 32] 0"

definition mask_of :: "nat list \<Rightarrow> u32" where
  "mask_of ns = foldr (\<lambda>n m. push_bit (31 - n) 1 OR m) ns 0"

definition unsupported_bits :: "kerberos_flags \<Rightarrow> u32" where
  "unsupported_bits bits =
     flags_to_u32 bits AND
       NOT (mask_of [BIT_FORWARDABLE, BIT_FORWARDED, BIT_PROXIABLE, BIT_PROXY, BIT_RENEWABLE,
                     BIT_CNAME_IN_ADDL_TKT, BIT_CANONICALIZE, BIT_DISABLE_TRANSITED_CHECK,
                     BIT_RENEWABLE_OK, BIT_ENC_TKT_IN_SKEY, BIT_RENEW, BIT_MAY_POSTDATE,
                     BIT_POSTDATED, BIT_VALIDATE])"

definition as_invalid_bits :: "kerberos_flags \<Rightarrow> u32" where
  "as_invalid_bits bits =
     flags_to_u32 bits AND
       mask_of [BIT_FORWARDED, BIT_PROXY, BIT_RENEW, BIT_VALIDATE, BIT_ENC_TKT_IN_SKEY,
                BIT_CNAME_IN_ADDL_TKT]"

definition mit_letters :: "kerberos_flags \<Rightarrow> string" where
  "mit_letters bits =
     concat (map (\<lambda>(n, ch). if flag bits n then [ch] else [])
       [(BIT_FORWARDABLE, CHR ''F''), (BIT_FORWARDED, CHR ''f''), (BIT_PROXIABLE, CHR ''P''),
        (BIT_PROXY, CHR ''p''), (BIT_MAY_POSTDATE, CHR ''D''), (BIT_POSTDATED, CHR ''d''),
        (BIT_INVALID, CHR ''i''), (BIT_RENEWABLE, CHR ''R''), (BIT_INITIAL, CHR ''I''),
        (BIT_HW_AUTHENT, CHR ''H''), (BIT_PRE_AUTHENT, CHR ''A''),
        (BIT_TRANSITED_POLICY_CHECKED, CHR ''T''), (BIT_OK_AS_DELEGATE, CHR ''O''),
        (BIT_ANONYMOUS, CHR ''a'')])"

subsection \<open>Reading and writing single bits\<close>

lemma flag_with_bit:
  "flag (with_bit bits n on) m = (if m = n \<and> n < length bits then on else flag bits m)"
  by (auto simp: flag_def with_bit_def nth_list_update)

lemma length_with_bit [simp]: "length (with_bit bits n on) = length bits"
  by (simp add: with_bit_def)

lemma flag_none [simp]: "\<not> flag flags_none n"
  by (simp add: flag_def flags_none_def)

lemma length_flags_none [simp]: "length flags_none = 32"
  by (simp add: flags_none_def)

subsection \<open>Packing\<close>

lemma fold_update_map:
  "n \<le> length xs \<Longrightarrow>
     fold (\<lambda>i bits. bits[i := f i]) [0..<n] xs = map f [0..<n] @ drop n xs"
proof (induction n)
  case 0
  then show ?case by simp
next
  case (Suc n)
  then have "drop n xs = xs ! n # drop (Suc n) xs"
    by (simp add: Cons_nth_drop_Suc)
  with Suc show ?case
    by (simp add: list_update_append)
qed

lemma flags_from_u32_alt: "flags_from_u32 v = map (\<lambda>i. bit v (31 - i)) [0..<32]"
  unfolding flags_from_u32_def
  by (subst fold_update_map) (simp_all add: and_exp_eq_0_iff_not_bit del: upt_Suc)

lemma length_flags_from_u32 [simp]: "length (flags_from_u32 v) = 32"
  by (simp add: flags_from_u32_alt)

lemma flag_from_u32: "flag (flags_from_u32 v) n \<longleftrightarrow> n < 32 \<and> bit v (31 - n)"
  by (auto simp: flag_def flags_from_u32_alt simp del: upt_Suc)

lemma bit_fold_or:
  "bit (fold (\<lambda>i v. if p i then v OR push_bit (31 - i) 1 else v) [0..<n] w) k
     \<longleftrightarrow> bit (w :: u32) k \<or> (\<exists>i < n. p i \<and> k = 31 - i \<and> k < 32)"
proof (induction n)
  case 0
  then show ?case by simp
next
  case (Suc n)
  then show ?case
    by (auto simp: bit_simps less_Suc_eq)
qed

lemma bit_flags_to_u32: "bit (flags_to_u32 bits) k \<longleftrightarrow> k < 32 \<and> flag bits (31 - k)"
proof -
  have "bit (flags_to_u32 bits) k
      \<longleftrightarrow> (\<exists>i < min (length bits) 32. bits ! i \<and> k = 31 - i \<and> k < 32)"
    by (simp only: flags_to_u32_def bit_fold_or bit_0_eq bot_apply bot_bool_def simp_thms)
  also have "\<dots> \<longleftrightarrow> k < 32 \<and> flag bits (31 - k)"
  proof
    assume "k < 32 \<and> flag bits (31 - k)"
    then have "31 - k < min (length bits) 32 \<and> bits ! (31 - k) \<and> k = 31 - (31 - k) \<and> k < 32"
      by (simp add: flag_def)
    then show "\<exists>i < min (length bits) 32. bits ! i \<and> k = 31 - i \<and> k < 32"
      by blast
  next
    assume "\<exists>i < min (length bits) 32. bits ! i \<and> k = 31 - i \<and> k < 32"
    then obtain i where "i < length bits" "bits ! i" "31 - k = i" "k < 32"
      by auto
    then show "k < 32 \<and> flag bits (31 - k)"
      by (simp add: flag_def)
  qed
  finally show ?thesis .
qed

lemma flags_to_from_u32: "flags_to_u32 (flags_from_u32 v) = v"
  by (rule bit_word_eqI) (auto simp: bit_flags_to_u32 flag_from_u32)

lemma flags_from_to_u32:
  "flags_from_u32 (flags_to_u32 bits) = map (flag bits) [0..<32]"
  by (auto simp: flags_from_u32_alt bit_flags_to_u32 simp del: upt_Suc)

lemma flag_from_to_u32: "flag (flags_from_u32 (flags_to_u32 bits)) n \<longleftrightarrow> n < 32 \<and> flag bits n"
  by (auto simp: flag_from_u32 bit_flags_to_u32)

lemma flag_bit_to_u32: "n < 32 \<Longrightarrow> bit (flags_to_u32 bits) (31 - n) \<longleftrightarrow> flag bits n"
  by (auto simp: bit_flags_to_u32)

lemma bit_mask_of:
  "n < 32 \<Longrightarrow> \<forall>m \<in> set ns. m < 32 \<Longrightarrow> bit (mask_of ns) (31 - n) \<longleftrightarrow> n \<in> set ns"
proof (induction ns)
  case Nil
  then show ?case by (simp add: mask_of_def)
next
  case (Cons m ns)
  then have "bit (push_bit (31 - m) 1 :: u32) (31 - n) \<longleftrightarrow> n = m"
    by (auto simp: bit_simps)
  with Cons show ?case
    by (auto simp: mask_of_def bit_or_iff)
qed

lemma u32_zero_iff: "w = 0 \<longleftrightarrow> (\<forall>n < 32. \<not> bit (w :: u32) (31 - n))"
proof
  assume *: "\<forall>n < 32. \<not> bit w (31 - n)"
  show "w = 0"
  proof (rule bit_word_eqI)
    fix k
    assume "k < LENGTH(32)"
    then have "31 - k < 32" and "31 - (31 - k) = k"
      by auto
    with * have "\<not> bit w k"
      by metis
    then show "bit w k = bit 0 k"
      by simp
  qed
qed simp

lemma flags_and_mask_zero:
  assumes "\<forall>n \<in> set ns. n < 32"
  shows "flags_to_u32 bits AND mask_of ns = 0 \<longleftrightarrow> (\<forall>n \<in> set ns. \<not> flag bits n)"
  using assms unfolding u32_zero_iff
  by (auto simp: bit_and_iff flag_bit_to_u32 bit_mask_of)

lemma flags_and_not_mask_zero:
  assumes "\<forall>n \<in> set ns. n < 32"
  shows "flags_to_u32 bits AND NOT (mask_of ns) = 0 \<longleftrightarrow> (\<forall>n < 32. flag bits n \<longrightarrow> n \<in> set ns)"
  using assms unfolding u32_zero_iff
  by (auto simp: bit_and_iff bit_not_iff flag_bit_to_u32 bit_mask_of)

lemma as_invalid_bits_iff:
  "as_invalid_bits bits \<noteq> 0 \<longleftrightarrow>
     flag bits BIT_FORWARDED \<or> flag bits BIT_PROXY \<or> flag bits BIT_RENEW \<or>
     flag bits BIT_VALIDATE \<or> flag bits BIT_ENC_TKT_IN_SKEY \<or> flag bits BIT_CNAME_IN_ADDL_TKT"
  unfolding as_invalid_bits_def by (subst flags_and_mask_zero) auto

lemma unsupported_bits_iff:
  "unsupported_bits bits = 0 \<longleftrightarrow>
     (\<forall>n < 32. flag bits n \<longrightarrow>
        n \<in> {BIT_FORWARDABLE, BIT_FORWARDED, BIT_PROXIABLE, BIT_PROXY, BIT_RENEWABLE,
             BIT_CNAME_IN_ADDL_TKT, BIT_CANONICALIZE, BIT_DISABLE_TRANSITED_CHECK,
             BIT_RENEWABLE_OK, BIT_ENC_TKT_IN_SKEY, BIT_RENEW, BIT_MAY_POSTDATE,
             BIT_POSTDATED, BIT_VALIDATE})"
  unfolding unsupported_bits_def
  by (subst flags_and_not_mask_zero) (simp_all only: list.set, auto)

subsection \<open>Properties\<close>

text \<open>
  Packing ticket flags and KDC options.  Unpacking a 32-bit integer and packing it again gives
  the integer back; packing any bit string and unpacking it gives the 32 flags of the bit string,
  absent bits read as unset.  The two option masks read the packed form correctly: an AS request
  is refused by \<open>as_invalid_bits\<close> exactly when one of its six forbidden options is set.
\<close>
theorem flags_u32_roundtrip:
  "flags_to_u32 (flags_from_u32 v) = v \<and>
   flags_from_u32 (flags_to_u32 bits) = map (flag bits) [0..<32] \<and>
   (as_invalid_bits bits \<noteq> 0 \<longleftrightarrow>
      flag bits BIT_FORWARDED \<or> flag bits BIT_PROXY \<or> flag bits BIT_RENEW \<or>
      flag bits BIT_VALIDATE \<or> flag bits BIT_ENC_TKT_IN_SKEY \<or> flag bits BIT_CNAME_IN_ADDL_TKT)"
  by (intro conjI flags_to_from_u32 flags_from_to_u32 as_invalid_bits_iff)

end
