(* ===== verification/KTime.thy ===== *)
theory KTime
  imports Rust_Text
begin

text \<open>
  Kerberos times (\<open>crates/krb5-types/src/lib.rs\<close>): the reader of GeneralizedTime octets
  (\<open>mit_generaltime\<close>, \<open>days_from_civil\<close>) and the operations of \<open>KerberosTime\<close>.  A time is its Unix
  timestamp in seconds, as an integer.  The calendar arithmetic of the \<open>chrono\<close> crate is an
  argument: \<open>chrono_add t s\<close> is the checked addition of \<open>s\<close> seconds, \<open>None\<close> where \<open>chrono\<close>
  overflows; what is relied on is that a sum it returns is the sum.
\<close>

type_synonym ktime = int

datatype time_error = MicrosecondsOutOfRange u32 | Overflow | TimeParse string

definition microseconds_max :: u32 where
  "microseconds_max = 999999"

definition microseconds_new :: "u32 \<Rightarrow> time_error + u32" where
  "microseconds_new n = (if n > microseconds_max then Inl (MicrosecondsOutOfRange n) else Inr n)"

definition from_subsec_micros :: "u32 \<Rightarrow> u32" where
  "from_subsec_micros n = n mod 1000000"

definition microseconds_validate :: "u32 \<Rightarrow> time_error + u32" where
  "microseconds_validate n = microseconds_new n"

subsection \<open>GeneralizedTime\<close>

text \<open>
  The arguments of \<open>/\<close> and \<open>%\<close> below are never negative, so Rust's truncating operators and HOL's
  \<open>div\<close> and \<open>mod\<close> agree; the years have four digits, so nothing leaves the range of an \<open>i64\<close>.
\<close>

definition days_from_civil :: "int \<Rightarrow> int \<Rightarrow> int" where
  "days_from_civil y m =
     (let y = (if m \<le> 2 then y - 1 else y);
          era = y div 400;
          yoe = y - era * 400;
          mp = (m + 9) mod 12;
          doy = (153 * mp + 2) div 5;
          doe = yoe * 365 + yoe div 4 - yoe div 100 + doy
      in era * 146097 + doe - 719468)"

fun digits :: "string \<Rightarrow> int \<Rightarrow> int option" where
  "digits [] acc = Some acc"
| "digits (c # cs) acc =
     (if 48 \<le> ord_of c \<and> ord_of c \<le> 57 then digits cs (acc * 10 + (int (ord_of c) - 48)) else None)"

definition slice :: "nat \<Rightarrow> nat \<Rightarrow> 'a list \<Rightarrow> 'a list" where
  "slice from to xs = take (to - from) (drop from xs)"

definition mit_generaltime :: "string \<Rightarrow> u32 option" where
  "mit_generaltime s =
     (if length s \<noteq> 15 \<or> s ! 14 \<noteq> CHR ''Z'' then None
      else if s = ''19700101000000Z'' then Some 0
      else
        (case digits (slice 0 4 s) 0 of None \<Rightarrow> None | Some year \<Rightarrow>
        (case digits (slice 4 6 s) 0 of None \<Rightarrow> None | Some month1 \<Rightarrow>
        (case digits (slice 6 8 s) 0 of None \<Rightarrow> None | Some mday \<Rightarrow>
        (case digits (slice 8 10 s) 0 of None \<Rightarrow> None | Some hour \<Rightarrow>
        (case digits (slice 10 12 s) 0 of None \<Rightarrow> None | Some mins \<Rightarrow>
        (case digits (slice 12 14 s) 0 of None \<Rightarrow> None | Some sec \<Rightarrow>
          (let month = month1 - 1;
               y = year + month div 12;
               m = month mod 12 + 1;
               days = days_from_civil y m + mday - 1;
               t = days * 86400 + hour * 3600 + mins * 60 + sec
           in if t = -1 then None else Some (word_of_int (t mod 2 ^ 32))))))))))"

subsection \<open>Operations on times\<close>

definition unix_seconds :: "ktime \<Rightarrow> u32" where
  "unix_seconds t = (if max t 0 \<le> 2 ^ 32 - 1 then word_of_int (max t 0) else - 1)"

definition from_unix_seconds :: "u32 \<Rightarrow> ktime" where
  "from_unix_seconds s = uint s"

definition add_seconds :: "(ktime \<Rightarrow> int \<Rightarrow> ktime option) \<Rightarrow> ktime \<Rightarrow> int \<Rightarrow> time_error + ktime" where
  "add_seconds chrono_add t s = ok_or Overflow (chrono_add t s)"

definition add_hours :: "(ktime \<Rightarrow> int \<Rightarrow> ktime option) \<Rightarrow> ktime \<Rightarrow> int \<Rightarrow> time_error + ktime" where
  "add_hours chrono_add t h = ok_or Overflow (chrono_add t (h * 3600))"

definition i64_min :: int where "i64_min = - (2 ^ 63)"
definition i64_max :: int where "i64_max = 2 ^ 63 - 1"

definition saturate_i64 :: "int \<Rightarrow> int" where
  "saturate_i64 x = max i64_min (min i64_max x)"

definition delta_seconds :: "ktime \<Rightarrow> ktime \<Rightarrow> int" where
  "delta_seconds a b = saturate_i64 (a - b)"

text \<open>What the code relies on of \<open>chrono\<close>.\<close>

definition chrono_exact :: "(ktime \<Rightarrow> int \<Rightarrow> ktime option) \<Rightarrow> bool" where
  "chrono_exact chrono_add \<longleftrightarrow> (\<forall>t s r. chrono_add t s = Some r \<longrightarrow> r = t + s)"

lemma add_seconds_eq:
  "chrono_exact ca \<Longrightarrow> add_seconds ca t s = Inr r \<Longrightarrow> r = t + s"
  by (auto simp: chrono_exact_def add_seconds_def ok_or_eq_Inr)

lemma saturate_i64_id: "i64_min \<le> x \<Longrightarrow> x \<le> i64_max \<Longrightarrow> saturate_i64 x = x"
  by (simp add: saturate_i64_def)

lemma from_unix_seconds_nonneg [simp]: "0 \<le> from_unix_seconds s"
  by (simp add: from_unix_seconds_def)

lemma from_unix_seconds_less: "from_unix_seconds s < 2 ^ 32"
  using uint_lt2p [of s] by (simp add: from_unix_seconds_def)

lemma unix_seconds_from [simp]: "unix_seconds (from_unix_seconds s) = s"
proof -
  have "uint s \<le> 2 ^ 32 - 1"
    using from_unix_seconds_less [of s] by (simp add: from_unix_seconds_def)
  then show ?thesis
    by (simp add: unix_seconds_def from_unix_seconds_def)
qed

lemma uint_unix_seconds: "uint (unix_seconds t) = max 0 (min t (2 ^ 32 - 1))"
  by (auto simp: unix_seconds_def uint_word_of_int max_def min_def unsigned_minus_1_eq_mask
      mask_eq_exp_minus_1)

subsection \<open>The calendar\<close>

definition leap :: "int \<Rightarrow> bool" where
  "leap y \<longleftrightarrow> 4 dvd y \<and> (\<not> 100 dvd y \<or> 400 dvd y)"

definition month_length :: "int \<Rightarrow> int \<Rightarrow> int" where
  "month_length y m =
     (if m = 2 then (if leap y then 29 else 28)
      else if m \<in> {4, 6, 9, 11} then 30 else 31)"

definition year_days :: "int \<Rightarrow> int" where
  "year_days y = 365 * y + y div 4 - y div 100 + y div 400"

lemma era_year_days:
  "(y div 400) * 146097 + ((y - y div 400 * 400) * 365 + (y - y div 400 * 400) div 4
      - (y - y div 400 * 400) div 100) = year_days y"
proof -
  define e r where er: "e = y div 400" "r = y mod 400"
  have y: "y = r + 400 * e"
    by (simp add: er)
  have d4: "y div 4 = 100 * e + r div 4"
    unfolding y by simp
  have d100: "y div 100 = 4 * e + r div 100"
    unfolding y by simp
  have r: "y - e * 400 = r"
    by (simp add: er minus_div_mult_eq_mod)
  have "year_days y = 365 * (r + 400 * e) + (100 * e + r div 4) - (4 * e + r div 100) + e"
    unfolding year_days_def d4 d100 by (simp only: er(1) [symmetric] y [symmetric])
  then show ?thesis
    unfolding er(1) [symmetric] r by simp
qed

lemma days_from_civil_alt:
  "days_from_civil y m =
     year_days (if m \<le> 2 then y - 1 else y) + (153 * ((m + 9) mod 12) + 2) div 5 - 719468"
  by (simp add: days_from_civil_def Let_def era_year_days [symmetric])

lemma div_step:
  assumes "0 < k"
  shows "(y :: int) div k = (y - 1) div k + (if k dvd y then 1 else 0)"
proof -
  define q r where qr: "q = y div k" "r = y mod k"
  have y: "y = k * q + r" and r: "0 \<le> r" "r < k"
    using assms by (simp_all add: qr)
  have dvd: "k dvd y \<longleftrightarrow> r = 0"
    by (simp add: qr dvd_eq_mod_eq_0)
  have "(y - 1) div k = (if r = 0 then q - 1 else q)"
  proof (cases "r = 0")
    case True
    then have "y - 1 = k * (q - 1) + (k - 1)"
      using y by (simp add: algebra_simps)
    then show ?thesis
      using int_div_pos_eq [of "y - 1" k "q - 1" "k - 1"] assms True by simp
  next
    case False
    then show ?thesis
      using int_div_pos_eq [of "y - 1" k q "r - 1"] y r by simp
  qed
  then show ?thesis
    using dvd qr(1) by simp
qed

lemma leap_sum:
  assumes "q \<longrightarrow> p" and "r \<longrightarrow> q"
  shows "365 + (if p then 1 else 0) - (if q then 1 else 0) + (if r then 1 else 0)
    = (if p \<and> (\<not> q \<or> r) then 366 else 365 :: int)"
  using assms by (cases p; cases q; cases r; simp)

lemma year_step_sum:
  assumes "a = a' + x" and "b = b' + z" and "c = c' + w" and "365 + x - z + w = l"
  shows "365 * y + a - b + c = 365 * (y - 1) + a' - b' + c' + (l :: int)"
  using assms by simp

lemma year_days_step: "year_days y = year_days (y - 1) + (if leap y then 366 else 365)"
  unfolding year_days_def leap_def
proof (rule year_step_sum [OF div_step div_step div_step leap_sum])
  show "100 dvd y \<longrightarrow> 4 dvd y"
    by (rule impI, erule dvd_trans [rotated], simp)
  show "400 dvd y \<longrightarrow> 100 dvd y"
    by (rule impI, erule dvd_trans [rotated], simp)
qed simp_all

lemma days_from_civil_month:
  assumes "1 \<le> m" and "m \<le> 11"
  shows "days_from_civil y (m + 1) = days_from_civil y m + month_length y m"
proof -
  have "m \<in> {1, 2, 3, 4, 5, 6, 7, 8, 9, 10, 11}"
    using assms unfolding insert_iff empty_iff by presburger
  then show ?thesis
    by (elim insertE emptyE)
      (simp_all add: days_from_civil_alt month_length_def year_days_step [of y])
qed

lemma days_from_civil_year: "days_from_civil (y + 1) 1 = days_from_civil y 12 + month_length y 12"
  by (simp add: days_from_civil_alt month_length_def)

lemma days_from_civil_epoch: "days_from_civil 1970 1 = 0"
  by (simp add: days_from_civil_def)

subsection \<open>Reading a UTC text\<close>

text \<open>
  The reference: days since the epoch counted month by month, and the text
  \<open>YYYYMMDDhhmmssZ\<close> of a civil time.
\<close>

fun year_start :: "nat \<Rightarrow> int" where
  "year_start 0 = 0"
| "year_start (Suc k) = year_start k + (if leap (1970 + int k) then 366 else 365)"

fun month_start :: "int \<Rightarrow> nat \<Rightarrow> int" where
  "month_start y 0 = 0"
| "month_start y (Suc k) = month_start y k + month_length y (int k + 1)"

definition epoch_day :: "nat \<Rightarrow> nat \<Rightarrow> nat \<Rightarrow> int" where
  "epoch_day y m d = year_start (y - 1970) + month_start (int y) (m - 1) + int d - 1"

fun dec_digits :: "nat \<Rightarrow> nat \<Rightarrow> string" where
  "dec_digits 0 v = []"
| "dec_digits (Suc n) v = dec_digits n (v div 10) @ [char_of (48 + v mod 10)]"

definition utc_text :: "nat \<Rightarrow> nat \<Rightarrow> nat \<Rightarrow> nat \<Rightarrow> nat \<Rightarrow> nat \<Rightarrow> string" where
  "utc_text y mo d h mi s =
     dec_digits 4 y @ dec_digits 2 mo @ dec_digits 2 d @ dec_digits 2 h @ dec_digits 2 mi
       @ dec_digits 2 s @ ''Z''"

lemma month_start_days:
  "k \<le> 11 \<Longrightarrow> days_from_civil y (int k + 1) = days_from_civil y 1 + month_start y k"
proof (induction k)
  case 0
  then show ?case by simp
next
  case (Suc k)
  then show ?case
    using days_from_civil_month [of "int k + 1" y] by (simp add: add.commute add.left_commute)
qed

lemma month_start_12: "month_start y 12 = (if leap y then 366 else 365)"
  by (simp add: numeral_eq_Suc month_length_def)

lemma year_start_days: "days_from_civil (1970 + int k) 1 = year_start k"
proof (induction k)
  case 0
  then show ?case by (simp add: days_from_civil_epoch)
next
  case (Suc k)
  have "days_from_civil (1970 + int k + 1) 1
      = days_from_civil (1970 + int k) 1 + month_start (1970 + int k) 11
        + month_length (1970 + int k) 12"
    using month_start_days [of 11 "1970 + int k"] days_from_civil_year [of "1970 + int k"] by simp
  moreover have "month_start y 12 = month_start y 11 + month_length y 12" for y
    by (simp add: numeral_eq_Suc)
  ultimately show ?case
    using Suc month_start_12 [of "1970 + int k"] by (simp add: algebra_simps)
qed

lemma epoch_day_civil:
  assumes "1970 \<le> y" and "1 \<le> m" and "m \<le> 12"
  shows "days_from_civil (int y) (int m) + int d - 1 = epoch_day y m d"
  using month_start_days [of "m - 1" "int y"] year_start_days [of "y - 1970"] assms
  by (simp add: epoch_day_def of_nat_diff)

lemma year_start_nonneg [simp]: "0 \<le> year_start k"
  by (induction k) auto

lemma month_start_nonneg [simp]: "0 \<le> month_start y k"
  by (induction k) (auto simp: month_length_def)

lemma length_dec_digits [simp]: "length (dec_digits n v) = n"
  by (induction n arbitrary: v) auto

lemma digits_append: "digits (xs @ ys) acc = Option.bind (digits xs acc) (digits ys)"
  by (induction xs arbitrary: acc) auto

lemma digits_dec:
  "v < 10 ^ n \<Longrightarrow> digits (dec_digits n v) acc = Some (acc * 10 ^ n + int v)"
proof (induction n arbitrary: v)
  case 0
  then show ?case by simp
next
  case (Suc n)
  have "v div 10 < 10 ^ n"
    using Suc.prems by (simp add: less_mult_imp_div_less)
  moreover have "ord_of (char_of (48 + v mod 10)) = 48 + v mod 10"
  proof -
    have "v mod 10 < 10"
      by simp
    then have "48 + v mod 10 < 256"
      by linarith
    then show ?thesis
      by (simp add: ord_of_def)
  qed
  moreover have "v mod 10 \<le> 9"
    using mod_less_divisor [of 10 v] by linarith
  moreover have "int v = int (v div 10) * 10 + int (v mod 10)"
    by (metis div_mult_mod_eq of_nat_add of_nat_mult of_nat_numeral)
  ultimately show ?case
    by (simp add: digits_append Suc.IH algebra_simps)
qed

lemma slice_append_right:
  "length xs \<le> a \<Longrightarrow> slice a b (xs @ ys) = slice (a - length xs) (b - length xs) ys"
  by (simp add: slice_def)

lemma slice_append_left: "a = 0 \<Longrightarrow> b = length xs \<Longrightarrow> slice a b (xs @ ys) = xs"
  by (simp add: slice_def)

lemmas utc_slices = slice_append_left slice_append_right

lemma utc_text_fields:
  "length (utc_text y mo d h mi s) = 15" "utc_text y mo d h mi s ! 14 = CHR ''Z''"
  "slice 0 4 (utc_text y mo d h mi s) = dec_digits 4 y"
  "slice 4 6 (utc_text y mo d h mi s) = dec_digits 2 mo"
  "slice 6 8 (utc_text y mo d h mi s) = dec_digits 2 d"
  "slice 8 10 (utc_text y mo d h mi s) = dec_digits 2 h"
  "slice 10 12 (utc_text y mo d h mi s) = dec_digits 2 mi"
  "slice 12 14 (utc_text y mo d h mi s) = dec_digits 2 s"
  by (simp_all add: utc_text_def utc_slices nth_append del: dec_digits.simps)

lemma word_of_int_mod32: "(word_of_int (x mod 2 ^ 32) :: u32) = word_of_int x"
  by (simp add: word_of_int_eq_iff take_bit_eq_mod)

lemma mit_generaltime_utc:
  assumes "1970 \<le> y" "y \<le> 9999" "1 \<le> mo" "mo \<le> 12" "d \<le> 99" "h \<le> 99" "mi \<le> 99" "s \<le> 99" "1 \<le> d"
  shows "mit_generaltime (utc_text y mo d h mi s) =
    Some (word_of_int (epoch_day y mo d * 86400 + int h * 3600 + int mi * 60 + int s))"
proof -
  let ?u = "utc_text y mo d h mi s"
  let ?t = "epoch_day y mo d * 86400 + int h * 3600 + int mi * 60 + int s"
  have dig: "digits (dec_digits 4 y) 0 = Some (int y)" "digits (dec_digits 2 mo) 0 = Some (int mo)"
    "digits (dec_digits 2 d) 0 = Some (int d)" "digits (dec_digits 2 h) 0 = Some (int h)"
    "digits (dec_digits 2 mi) 0 = Some (int mi)" "digits (dec_digits 2 s) 0 = Some (int s)"
    using assms by (simp_all add: digits_dec del: dec_digits.simps)
  have pos: "0 \<le> epoch_day y mo d"
    using assms(9) year_start_nonneg [of "y - 1970"] month_start_nonneg [of "int y" "mo - 1"]
    unfolding epoch_day_def by linarith
  have "(int mo - 1) div 12 = 0" "(int mo - 1) mod 12 = int mo - 1"
    using assms(3,4) by simp_all
  moreover have "days_from_civil (int y) (int mo) + int d - 1 = epoch_day y mo d"
    using assms by (intro epoch_day_civil)
  moreover have "?t \<noteq> - 1"
    using pos by linarith
  moreover have "(word_of_int (?t mod 2 ^ 32) :: u32) = word_of_int ?t"
    by (rule word_of_int_mod32)
  moreover have "?u = ''19700101000000Z'' \<Longrightarrow> ?t = 0"
  proof -
    assume u: "?u = ''19700101000000Z''"
    have "digits (slice 0 4 ?u) 0 = Some 1970" "digits (slice 4 6 ?u) 0 = Some 1"
      "digits (slice 6 8 ?u) 0 = Some 1" "digits (slice 8 10 ?u) 0 = Some 0"
      "digits (slice 10 12 ?u) 0 = Some 0" "digits (slice 12 14 ?u) 0 = Some 0"
      unfolding u by (simp_all add: slice_def ord_of_def)
    then have "int y = 1970" "int mo = 1" "int d = 1" "int h = 0" "int mi = 0" "int s = 0"
      unfolding utc_text_fields dig by simp_all
    then show "?t = 0"
      by (simp add: epoch_day_def)
  qed
  ultimately show ?thesis
    unfolding mit_generaltime_def utc_text_fields dig Let_def by auto
qed

subsection \<open>Properties\<close>

text \<open>
  C27: \<open>mit_generaltime\<close> reads UTC.  For every civil date and time from 1970 to 9999, the octets
  \<open>YYYYMMDDhhmmssZ\<close> are accepted and give the seconds since the epoch, counted month by month in
  the Gregorian calendar, modulo 2^32, the width of a Kerberos timestamp.
\<close>
theorem mit_generaltime_reads_utc:
  assumes "1970 \<le> y" and "y \<le> 9999" and "1 \<le> mo" and "mo \<le> 12" and "1 \<le> d"
    and "int d \<le> month_length (int y) (int mo)" and "h \<le> 23" and "mi \<le> 59" and "s \<le> 60"
  shows "mit_generaltime (utc_text y mo d h mi s) =
    Some (word_of_int (epoch_day y mo d * 86400 + int h * 3600 + int mi * 60 + int s))"
proof -
  have "d \<le> 99"
    using assms(6) by (simp add: month_length_def split: if_splits)
  then show ?thesis
    using assms by (intro mit_generaltime_utc) auto
qed

theorem mit_generaltime_reads_utc_witness:
  "mit_generaltime ''20240229120000Z'' = Some (word_of_int 1709208000)"
proof -
  have "mit_generaltime (utc_text 2024 2 29 12 0 0)
      = Some (word_of_int (epoch_day 2024 2 29 * 86400 + int 12 * 3600 + int 0 * 60 + int 0))"
    by (rule mit_generaltime_reads_utc) (simp_all add: month_length_def leap_def)
  moreover have "utc_text 2024 2 29 12 0 0 = ''20240229120000Z''"
    by code_simp
  moreover have "epoch_day 2024 2 29 = 19782"
    by code_simp
  ultimately show ?thesis
    by simp
qed

end
