(* ===== verification/Messages.thy ===== *)
theory Messages
  imports Names Flags KTime
begin

text \<open>
  The protocol messages the KDC model works on, as records with the fields of the structs in
  \<open>crates/krb5-types/src/lib.rs\<close> (prefixed by a short form of the struct's name).  The DER encoding
  of these structs is produced by the \<open>rasn\<close> derive macros and is not part of the model.
\<close>

record host_address =
  addr_type :: int
  address :: bytes

abbreviation (input) ADDRTYPE_NETBIOS :: int where "ADDRTYPE_NETBIOS \<equiv> 0x14"

record authorization_data_value =
  ad_type :: int
  ad_data :: bytes

record pa_data =
  padata_type :: int
  padata_value :: bytes

record encrypted_data =
  ed_etype :: int
  ed_kvno :: "u32 option"
  ed_cipher :: bytes

record encryption_key =
  keytype :: int
  keyvalue :: bytes

record cksum =
  cksumtype :: int
  cksum_octets :: bytes

record ticket =
  tkt_vno :: int
  tkt_realm :: string
  tkt_sname :: principal_name
  tkt_enc_part :: encrypted_data

record kdc_req_body =
  rb_kdc_options :: kerberos_flags
  rb_cname :: "principal_name option"
  rb_realm :: string
  rb_sname :: "principal_name option"
  rb_from :: "ktime option"
  rb_till :: ktime
  rb_rtime :: "ktime option"
  rb_nonce :: u32
  rb_etype :: "int list"
  rb_addresses :: "host_address list option"
  rb_enc_authorization_data :: "encrypted_data option"
  rb_additional_tickets :: "ticket list option"

record kdc_req =
  kr_pvno :: int
  kr_msg_type :: int
  kr_padata :: "pa_data list option"
  kr_req_body :: kdc_req_body

record transited_encoding =
  tr_type :: int
  tr_contents :: string

record enc_ticket_part =
  tk_flags :: kerberos_flags
  tk_key :: encryption_key
  tk_crealm :: string
  tk_cname :: principal_name
  tk_transited :: transited_encoding
  tk_authtime :: ktime
  tk_starttime :: "ktime option"
  tk_endtime :: ktime
  tk_renew_till :: "ktime option"
  tk_caddr :: "host_address list option"
  tk_authorization_data :: "authorization_data_value list option"

record authenticator =
  au_vno :: int
  au_crealm :: string
  au_cname :: principal_name
  au_cksum :: "cksum option"
  au_cusec :: u32
  au_ctime :: ktime
  au_subkey :: "encryption_key option"
  au_seq_number :: "u32 option"
  au_authorization_data :: "authorization_data_value list option"

end
