(* ===== verification/Etypes.thy ===== *)
theory Etypes
  imports Rust_Text
begin

text \<open>
  Encryption types (\<open>crates/krb5-crypto/src/etype.rs\<close>): their numbers, names and sizes, checksum
  type predicates, and the parsers of enctype lists and key/salt lists.  The crypto errors are
  those of \<open>crates/krb5-crypto/src/error.rs\<close>.
\<close>

datatype crypto_error =
    UnsupportedEtype int | WeakEtypeRefused int | InvalidKeyLength | InvalidKeyUsage | InvalidParams
  | InvalidConfounder | CiphertextTooShort | Integrity | UnsupportedChecksum int | BadChecksumSize
  | InappChecksum | Rng | BadS2kParams | BadEnctype int | DesBadParity | DesWeakKey

definition key_usage_new :: "u32 \<Rightarrow> crypto_error + u32" where
  "key_usage_new n = (if n = 0 then Inl InvalidKeyUsage else Inr n)"

definition derivation_constant :: "u32 \<Rightarrow> u8 \<Rightarrow> bytes" where
  "derivation_constant usage sfx = be32 usage @ [sfx]"

datatype enctype =
    Des3CbcSha1 | Aes128CtsHmacSha196 | Aes256CtsHmacSha196 | Aes128CtsHmacSha256128
  | Aes256CtsHmacSha384192 | Rc4Hmac | Camellia128CtsCmac | Camellia256CtsCmac

definition known :: "int \<Rightarrow> crypto_error + enctype" where
  "known n =
     (if n = 16 then Inr Des3CbcSha1
      else if n = 17 then Inr Aes128CtsHmacSha196
      else if n = 18 then Inr Aes256CtsHmacSha196
      else if n = 19 then Inr Aes128CtsHmacSha256128
      else if n = 20 then Inr Aes256CtsHmacSha384192
      else if n = 23 then Inr Rc4Hmac
      else if n = 25 then Inr Camellia128CtsCmac
      else if n = 26 then Inr Camellia256CtsCmac
      else Inl (UnsupportedEtype n))"

definition is_deprecated :: "enctype \<Rightarrow> bool" where
  "is_deprecated e = (e = Des3CbcSha1 \<or> e = Rc4Hmac)"

definition is_weak :: "enctype \<Rightarrow> bool" where
  "is_weak e = (e = Des3CbcSha1 \<or> e = Rc4Hmac \<or> e = Camellia128CtsCmac \<or> e = Camellia256CtsCmac)"

definition from_iana_policy :: "int \<Rightarrow> bool \<Rightarrow> crypto_error + enctype" where
  "from_iana_policy n allow_weak =
     andthen (known n) (\<lambda>e. if is_weak e \<and> \<not> allow_weak then Inl (WeakEtypeRefused n) else Inr e)"

definition from_iana :: "int \<Rightarrow> crypto_error + enctype" where
  "from_iana n = from_iana_policy n False"

fun to_iana :: "enctype \<Rightarrow> int" where
  "to_iana Des3CbcSha1 = 16"
| "to_iana Aes128CtsHmacSha196 = 17"
| "to_iana Aes256CtsHmacSha196 = 18"
| "to_iana Aes128CtsHmacSha256128 = 19"
| "to_iana Aes256CtsHmacSha384192 = 20"
| "to_iana Rc4Hmac = 23"
| "to_iana Camellia128CtsCmac = 25"
| "to_iana Camellia256CtsCmac = 26"

definition is_rfc8009 :: "enctype \<Rightarrow> bool" where
  "is_rfc8009 e = (e = Aes128CtsHmacSha256128 \<or> e = Aes256CtsHmacSha384192)"

definition is_aes :: "enctype \<Rightarrow> bool" where
  "is_aes e = (e = Aes128CtsHmacSha196 \<or> e = Aes256CtsHmacSha196 \<or> e = Aes128CtsHmacSha256128
     \<or> e = Aes256CtsHmacSha384192)"

definition is_camellia :: "enctype \<Rightarrow> bool" where
  "is_camellia e = (e = Camellia128CtsCmac \<or> e = Camellia256CtsCmac)"

fun key_len :: "enctype \<Rightarrow> nat" where
  "key_len Aes128CtsHmacSha196 = 16"
| "key_len Aes128CtsHmacSha256128 = 16"
| "key_len Camellia128CtsCmac = 16"
| "key_len Rc4Hmac = 16"
| "key_len Aes256CtsHmacSha196 = 32"
| "key_len Aes256CtsHmacSha384192 = 32"
| "key_len Camellia256CtsCmac = 32"
| "key_len Des3CbcSha1 = 24"

definition keybytes :: "enctype \<Rightarrow> nat" where
  "keybytes e = (if e = Des3CbcSha1 then 21 else key_len e)"

fun hmac_output_len :: "enctype \<Rightarrow> nat" where
  "hmac_output_len Aes128CtsHmacSha196 = 12"
| "hmac_output_len Aes256CtsHmacSha196 = 12"
| "hmac_output_len Aes128CtsHmacSha256128 = 16"
| "hmac_output_len Rc4Hmac = 16"
| "hmac_output_len Camellia128CtsCmac = 16"
| "hmac_output_len Camellia256CtsCmac = 16"
| "hmac_output_len Aes256CtsHmacSha384192 = 24"
| "hmac_output_len Des3CbcSha1 = 20"

fun mac_key_len :: "enctype \<Rightarrow> nat" where
  "mac_key_len Aes128CtsHmacSha196 = key_len Aes128CtsHmacSha196"
| "mac_key_len Aes256CtsHmacSha196 = key_len Aes256CtsHmacSha196"
| "mac_key_len Aes128CtsHmacSha256128 = 16"
| "mac_key_len Rc4Hmac = 16"
| "mac_key_len Camellia128CtsCmac = 16"
| "mac_key_len Aes256CtsHmacSha384192 = 24"
| "mac_key_len Des3CbcSha1 = 24"
| "mac_key_len Camellia256CtsCmac = 32"

fun checksum_type :: "enctype \<Rightarrow> int" where
  "checksum_type Aes128CtsHmacSha196 = 15"
| "checksum_type Aes256CtsHmacSha196 = 16"
| "checksum_type Aes128CtsHmacSha256128 = 19"
| "checksum_type Aes256CtsHmacSha384192 = 20"
| "checksum_type Des3CbcSha1 = 12"
| "checksum_type Rc4Hmac = - 138"
| "checksum_type Camellia128CtsCmac = 17"
| "checksum_type Camellia256CtsCmac = 18"

definition min_ciphertext_len :: "enctype \<Rightarrow> nat" where
  "min_ciphertext_len e =
     (if e = Rc4Hmac then 24 else if e = Des3CbcSha1 then 28 else 16 + hmac_output_len e)"

definition preferred :: "enctype list" where
  "preferred = [Aes256CtsHmacSha196, Aes128CtsHmacSha196, Aes256CtsHmacSha384192,
     Aes128CtsHmacSha256128]"

definition default_iterations :: "enctype \<Rightarrow> u32" where
  "default_iterations e = (if is_rfc8009 e \<or> is_camellia e then 32768 else 4096)"

fun to_mit_name :: "enctype \<Rightarrow> string" where
  "to_mit_name Aes128CtsHmacSha196 = ''aes128-cts-hmac-sha1-96''"
| "to_mit_name Aes256CtsHmacSha196 = ''aes256-cts-hmac-sha1-96''"
| "to_mit_name Aes128CtsHmacSha256128 = ''aes128-cts-hmac-sha256-128''"
| "to_mit_name Aes256CtsHmacSha384192 = ''aes256-cts-hmac-sha384-192''"
| "to_mit_name Des3CbcSha1 = ''des3-cbc-sha1''"
| "to_mit_name Rc4Hmac = ''arcfour-hmac''"
| "to_mit_name Camellia128CtsCmac = ''camellia128-cts-cmac''"
| "to_mit_name Camellia256CtsCmac = ''camellia256-cts-cmac''"

definition from_mit_name :: "string \<Rightarrow> crypto_error + enctype" where
  "from_mit_name name =
     (let n = trim name in
      case parse_i32 n of
        Some num \<Rightarrow> known num
      | None \<Rightarrow>
          (let l = to_ascii_lowercase n in
           if l \<in> {''aes128-cts-hmac-sha1-96'', ''aes128-cts'', ''aes128-sha1''}
           then Inr Aes128CtsHmacSha196
           else if l \<in> {''aes256-cts-hmac-sha1-96'', ''aes256-cts'', ''aes256-sha1''}
           then Inr Aes256CtsHmacSha196
           else if l \<in> {''aes128-cts-hmac-sha256-128'', ''aes128-sha2''}
           then Inr Aes128CtsHmacSha256128
           else if l \<in> {''aes256-cts-hmac-sha384-192'', ''aes256-sha2''}
           then Inr Aes256CtsHmacSha384192
           else if l \<in> {''des3-cbc-sha1'', ''des3-cbc-sha1-kd'', ''des3-hmac-sha1''}
           then Inr Des3CbcSha1
           else if l \<in> {''arcfour-hmac'', ''rc4-hmac'', ''arcfour-hmac-md5''} then Inr Rc4Hmac
           else if l \<in> {''camellia128-cts-cmac'', ''camellia128-cts''} then Inr Camellia128CtsCmac
           else if l \<in> {''camellia256-cts-cmac'', ''camellia256-cts''} then Inr Camellia256CtsCmac
           else Inl (UnsupportedEtype 0)))"

definition is_mit_weak :: "enctype \<Rightarrow> bool" where
  "is_mit_weak e = False"

fun enctype_name :: "enctype \<Rightarrow> string option" where
  "enctype_name Aes128CtsHmacSha256128 = Some ''aes128-cts-hmac-sha256-128''"
| "enctype_name Aes256CtsHmacSha384192 = Some ''aes256-cts-hmac-sha384-192''"
| "enctype_name Camellia128CtsCmac = Some ''camellia128-cts-cmac''"
| "enctype_name Camellia256CtsCmac = Some ''camellia256-cts-cmac''"
| "enctype_name _ = None"

subsection \<open>Checksum types\<close>

definition cksumtype_is_keyed :: "int \<Rightarrow> bool" where
  "cksumtype_is_keyed t = (t \<in> {12, 15, 16, 17, 18, 19, 20, - 137, - 138})"

definition cksumtype_is_unkeyed :: "int \<Rightarrow> bool" where
  "cksumtype_is_unkeyed t = (t \<in> {2, 7, 9, 14})"

definition cksumtype_is_known :: "int \<Rightarrow> bool" where
  "cksumtype_is_known t = (cksumtype_is_keyed t \<or> cksumtype_is_unkeyed t)"

definition cksumtype_is_coll_proof :: "int \<Rightarrow> bool" where
  "cksumtype_is_coll_proof t = cksumtype_is_known t"

subsection \<open>Lists of enctypes\<close>

definition default_enctype_list :: "enctype list" where
  "default_enctype_list = [Aes256CtsHmacSha196, Aes128CtsHmacSha196, Aes256CtsHmacSha384192,
     Aes128CtsHmacSha256128, Des3CbcSha1, Rc4Hmac, Camellia128CtsCmac, Camellia256CtsCmac]"

definition etype_family :: "string \<Rightarrow> enctype list option" where
  "etype_family key =
     (if key = ''default'' then Some default_enctype_list
      else if key = ''des3'' then Some [Des3CbcSha1]
      else if key = ''aes'' then Some [Aes256CtsHmacSha196, Aes128CtsHmacSha196,
        Aes256CtsHmacSha384192, Aes128CtsHmacSha256128]
      else if key = ''rc4'' then Some [Rc4Hmac]
      else if key = ''camellia'' then Some [Camellia256CtsCmac, Camellia128CtsCmac]
      else case from_mit_name key of Inr e \<Rightarrow> Some [e] | Inl _ \<Rightarrow> None)"

definition etype_list_edit :: "bool \<Rightarrow> bool \<Rightarrow> enctype \<Rightarrow> enctype list \<Rightarrow> enctype list" where
  "etype_list_edit allow_weak add e list =
     (if \<not> allow_weak \<and> is_mit_weak e then list
      else if add then (if e \<in> set list then list else list @ [e])
      else filter (\<lambda>x. x \<noteq> e) list)"

definition etype_token :: "bool \<Rightarrow> string \<Rightarrow> enctype list \<Rightarrow> enctype list" where
  "etype_token allow_weak token0 list =
     (let token = trim token0 in
      if token = [] then list
      else
        let (add, rest) =
          (case strip_prefix ''+'' token of
             Some r \<Rightarrow> (True, r)
           | None \<Rightarrow> (case strip_prefix ''-'' token of Some r \<Rightarrow> (False, r) | None \<Rightarrow> (True, token)))
        in case etype_family (to_ascii_lowercase rest) of
             None \<Rightarrow> list
           | Some family \<Rightarrow> fold (etype_list_edit allow_weak add) family list)"

definition parse_enctype_list :: "string \<Rightarrow> bool \<Rightarrow> enctype list option" where
  "parse_enctype_list profstr allow_weak =
     (let list = fold (etype_token allow_weak)
        (split_by (\<lambda>c. is_ascii_whitespace c \<or> c = CHR '','') profstr) []
      in if list = [] then None else Some list)"

record key_salt =
  ks_etype :: enctype
  ks_salt :: int

definition key_salt_from :: "enctype \<Rightarrow> key_salt" where
  "key_salt_from e = \<lparr>ks_etype = e, ks_salt = 0\<rparr>"

definition salttype_from_name :: "string \<Rightarrow> int option" where
  "salttype_from_name name =
     (let l = to_ascii_lowercase name in
      if l = ''normal'' then Some 0
      else if l = ''norealm'' then Some 2
      else if l = ''onlyrealm'' then Some 3
      else if l = ''special'' then Some 4
      else None)"

definition keysalt_token :: "string \<Rightarrow> key_salt list \<Rightarrow> key_salt list" where
  "keysalt_token tok0 out =
     (let tok = trim tok0 in
      if tok = [] then out
      else
        let (et, salt) = (case split_once (CHR '':'') tok of
            Some (e, st) \<Rightarrow> (e, salttype_from_name st) | None \<Rightarrow> (tok, Some 0))
        in case (from_mit_name et, salt) of
             (Inr e, Some sl) \<Rightarrow>
               (let ks = \<lparr>ks_etype = e, ks_salt = sl\<rparr> in if ks \<in> set out then out else out @ [ks])
           | _ \<Rightarrow> out)"

definition parse_keysalts :: "string \<Rightarrow> key_salt list" where
  "parse_keysalts s =
     fold keysalt_token (split_by (\<lambda>c. is_ascii_whitespace c \<or> c = CHR '','') s) []"

subsection \<open>Lemmas\<close>

lemma known_to_iana [simp]: "known (to_iana e) = Inr e"
  by (cases e) (simp_all add: known_def)

lemma known_eq_Inr: "known n = Inr e \<longleftrightarrow> n = to_iana e"
  using known_to_iana [of e] by (auto simp: known_def split: if_splits)

lemma to_iana_inj [simp]: "to_iana e = to_iana f \<longleftrightarrow> e = f"
  by (cases e; cases f; simp)

lemma key_len_pos [simp]: "0 < key_len e"
  by (cases e) simp_all

lemma to_mit_name_trim: "trim (to_mit_name e) = to_mit_name e"
  by (cases e) (simp_all add: trim_id graphic_def ord_of_def)

lemma from_mit_name_to_mit_name: "from_mit_name (to_mit_name e) = Inr e"
  unfolding from_mit_name_def to_mit_name_trim Let_def by (induct e; code_simp)

lemma fold_keeps: "(\<And>x y. P y \<Longrightarrow> P (f x y)) \<Longrightarrow> P y \<Longrightarrow> P (fold f xs y)"
  by (induction xs arbitrary: y) auto

lemma etype_list_edit_distinct: "distinct l \<Longrightarrow> distinct (etype_list_edit w add e l)"
  by (simp add: etype_list_edit_def)

lemma etype_token_distinct:
  assumes "distinct l"
  shows "distinct (etype_token w t l)"
proof -
  have "distinct (fold (etype_list_edit w add) family l)" for add family
    by (rule fold_keeps [where P = distinct]) (simp_all add: etype_list_edit_distinct assms)
  then show ?thesis
    using assms unfolding etype_token_def Let_def split_beta by (simp split: option.split)
qed

lemma parse_enctype_list_distinct: "parse_enctype_list s w = Some l \<Longrightarrow> distinct l \<and> l \<noteq> []"
  using fold_keeps [where P = distinct and f = "etype_token w", OF etype_token_distinct distinct.simps(1) [THEN iffD2]]
  by (auto simp: parse_enctype_list_def Let_def split: if_splits)

lemma keysalt_token_distinct: "distinct l \<Longrightarrow> distinct (keysalt_token t l)"
  unfolding keysalt_token_def Let_def split_beta by (simp split: option.split sum.split)

lemma parse_keysalts_distinct: "distinct (parse_keysalts s)"
  unfolding parse_keysalts_def
  by (rule fold_keeps [where P = distinct]) (simp_all add: keysalt_token_distinct)

end
