(* ===== verification/KDB.thy ===== *)
theory KDB
  imports Messages Etypes
begin

text \<open>
  The principal database as the KDC sees it: principals, keys and the realm policy
  (\<open>crates/krb5-kdc/src/store/principal.rs\<close>, \<open>store/keys.rs\<close>, \<open>store/policy.rs\<close>, \<open>store/flags.rs\<close>), the
  errors of \<open>error.rs\<close>, key lookup by enctype and key version, key version numbering, and alias
  resolution (\<open>kdb.rs\<close>, \<open>store/alias.rs\<close>).  Records keep the fields the modelled operations read or
  write; the plugin, PKINIT, OTP and file handles of the policy and the store are left out.
\<close>

subsection \<open>Errors\<close>

datatype kdc_error =
    CryptoErr string
  | KBadEnctype
  | KDesBadParity
  | KDesWeakKey
  | Asn1Err string
  | Protocol (proto_code: int) (proto_text: "string option") (proto_e_data: "bytes option")
      (proto_detail: "string option")
  | AclDenied
  | AclParse string
  | AlreadyExists
  | NotFound
  | AliasRealm
  | AliasUnsupported
  | RngErr
  | PasswordPolicy string
  | BadKeysalts
  | PassTooSoon u32
  | DbErr string
  | InvalidArgument string
  | UnexpectedPdu
  | PreauthRequired bytes
  | PreauthModule int string

definition proto :: "int \<Rightarrow> string \<Rightarrow> kdc_error" where
  "proto code status = Protocol code (Some status) None None"

definition proto_d :: "int \<Rightarrow> string \<Rightarrow> string \<Rightarrow> kdc_error" where
  "proto_d code status detail = Protocol code (Some status) None (Some detail)"

definition errcode_to_protocol :: "int \<Rightarrow> int" where
  "errcode_to_protocol code = (if 0 \<le> code \<and> code \<le> 128 then code else ERR_GENERIC)"

lemma proto_inj [simp]: "proto c s = proto c' s' \<longleftrightarrow> c = c' \<and> s = s'"
  by (simp add: proto_def)

subsection \<open>Attributes\<close>

abbreviation (input) KDB_DISALLOW_POSTDATED :: u32 where "KDB_DISALLOW_POSTDATED \<equiv> 0x00000001"
abbreviation (input) KDB_DISALLOW_FORWARDABLE :: u32 where "KDB_DISALLOW_FORWARDABLE \<equiv> 0x00000002"
abbreviation (input) KDB_DISALLOW_TGT_BASED :: u32 where "KDB_DISALLOW_TGT_BASED \<equiv> 0x00000004"
abbreviation (input) KDB_DISALLOW_RENEWABLE :: u32 where "KDB_DISALLOW_RENEWABLE \<equiv> 0x00000008"
abbreviation (input) KDB_DISALLOW_PROXIABLE :: u32 where "KDB_DISALLOW_PROXIABLE \<equiv> 0x00000010"
abbreviation (input) KDB_DISALLOW_DUP_SKEY :: u32 where "KDB_DISALLOW_DUP_SKEY \<equiv> 0x00000020"
abbreviation (input) KDB_DISALLOW_ALL_TIX :: u32 where "KDB_DISALLOW_ALL_TIX \<equiv> 0x00000040"
abbreviation (input) KDB_REQUIRES_PRE_AUTH :: u32 where "KDB_REQUIRES_PRE_AUTH \<equiv> 0x00000080"
abbreviation (input) KDB_REQUIRES_HW_AUTH :: u32 where "KDB_REQUIRES_HW_AUTH \<equiv> 0x00000100"
abbreviation (input) KDB_REQUIRES_PWCHANGE :: u32 where "KDB_REQUIRES_PWCHANGE \<equiv> 0x00000200"
abbreviation (input) KDB_DISALLOW_SVR :: u32 where "KDB_DISALLOW_SVR \<equiv> 0x00001000"
abbreviation (input) KDB_PWCHANGE_SERVICE :: u32 where "KDB_PWCHANGE_SERVICE \<equiv> 0x00002000"
abbreviation (input) KDB_OK_AS_DELEGATE :: u32 where "KDB_OK_AS_DELEGATE \<equiv> 0x00100000"
abbreviation (input) KDB_OK_TO_AUTH_AS_DELEGATE :: u32 where "KDB_OK_TO_AUTH_AS_DELEGATE \<equiv> 0x00200000"
abbreviation (input) KDB_NO_AUTH_DATA_REQUIRED :: u32 where "KDB_NO_AUTH_DATA_REQUIRED \<equiv> 0x00400000"

abbreviation (input) TL_LAST_ADMIN_UNLOCK :: int where "TL_LAST_ADMIN_UNLOCK \<equiv> 0x0700"
abbreviation (input) TL_ALIAS_TARGET :: int where "TL_ALIAS_TARGET \<equiv> 0x000c"

subsection \<open>Records\<close>

record tl_data =
  tl_ty :: int
  tl_contents :: string

record protocol_key =
  pk_etype :: enctype
  pk_bytes :: bytes

record key_entry =
  ke_etype :: enctype
  ke_key :: protocol_key
  ke_kvno :: u32
  ke_salt_type :: "int option"
  ke_kdb_salt :: "bytes option"

record principal =
  p_name :: principal_name
  p_realm :: string
  p_keys :: "key_entry list"
  p_max_life :: u64
  p_pw_expire :: u32
  p_attributes :: u32
  p_max_renewable_life :: u64
  p_expiration :: u32
  p_last_success :: u32
  p_last_failed :: u32
  p_fail_auth_count :: u32
  p_tl_data :: "tl_data list"
  p_s4u_allowed_from :: "string list"
  p_s4u_allowed_to :: "string list"
  p_pw_policy :: "string option"
  p_string_attrs :: "(string \<times> string) list"

record named_policy =
  np_name :: string
  np_min_length :: u32
  np_min_classes :: u32
  np_history :: u32
  np_max_fail :: u32
  np_pw_failcnt_interval :: u32
  np_pw_lockout_duration :: u32
  np_pw_min_life :: u32
  np_pw_max_life :: u32
  np_allowed_keysalts :: "string option"

record policy =
  po_max_life :: u64
  po_max_renewable_life :: u64
  po_realm_max_renewable_life :: u64
  po_skew :: int
  po_allow_weak_crypto :: bool
  po_allow_rc4 :: bool
  po_allow_des3 :: bool
  po_permitted_enctypes :: "enctype list option"
  po_supported_enctypes :: "key_salt list"
  po_requires_preauth :: bool
  po_reject_bad_transit :: bool
  po_disable_pac :: bool
  po_restrict_anon :: bool
  po_disable_last_success :: bool
  po_disable_lockout :: bool

definition policy_default :: policy where
  "policy_default =
     \<lparr>po_max_life = 24 * 3600, po_max_renewable_life = 0,
      po_realm_max_renewable_life = 7 * 24 * 3600, po_skew = 300, po_allow_weak_crypto = False,
      po_allow_rc4 = False, po_allow_des3 = False, po_permitted_enctypes = None,
      po_supported_enctypes = [], po_requires_preauth = True, po_reject_bad_transit = True,
      po_disable_pac = False, po_restrict_anon = False, po_disable_last_success = False,
      po_disable_lockout = False\<rparr>"

text \<open>What the issuing code reads of a store.\<close>

record store =
  s_realm :: string
  s_map :: "string \<Rightarrow> principal option"
  s_policy :: policy
  s_policies :: "string \<Rightarrow> named_policy option"

subsection \<open>Principals\<close>

definition attr :: "principal \<Rightarrow> u32 \<Rightarrow> bool" where
  "attr p b = (p_attributes p AND b \<noteq> 0)"

definition p_requires_preauth :: "principal \<Rightarrow> bool" where
  "p_requires_preauth p = (p_attributes p AND KDB_REQUIRES_PRE_AUTH \<noteq> 0)"

definition p_locked :: "principal \<Rightarrow> bool" where
  "p_locked p = (p_attributes p AND KDB_DISALLOW_ALL_TIX \<noteq> 0)"

definition set_locked :: "bool \<Rightarrow> principal \<Rightarrow> principal" where
  "set_locked on p =
     (if on then p\<lparr>p_attributes := p_attributes p OR KDB_DISALLOW_ALL_TIX\<rparr>
      else p\<lparr>p_attributes := p_attributes p AND NOT KDB_DISALLOW_ALL_TIX\<rparr>)"

definition p_id :: "principal \<Rightarrow> string" where
  "p_id p = lookup_principal_id (p_name p) (p_realm p)"

definition named_policy_for :: "store \<Rightarrow> principal \<Rightarrow> named_policy option" where
  "named_policy_for s p = Option.bind (p_pw_policy p) (s_policies s)"

definition max_fail_for :: "store \<Rightarrow> principal \<Rightarrow> u32" where
  "max_fail_for s p =
     (case Option.bind (p_pw_policy p) (s_policies s) of None \<Rightarrow> 0 | Some pol \<Rightarrow> np_max_fail pol)"

definition alias_target :: "principal \<Rightarrow> string option" where
  "alias_target p =
     (case find (\<lambda>t. tl_ty t = TL_ALIAS_TARGET) (p_tl_data p) of
        None \<Rightarrow> None
      | Some t \<Rightarrow>
          if tl_contents t = [] \<or> last (tl_contents t) \<noteq> CHR 0x00 then None
          else from_utf8 (butlast (tl_contents t)))"

subsection \<open>Alias resolution\<close>

abbreviation (input) MAX_ALIAS_DEPTH :: nat where "MAX_ALIAS_DEPTH \<equiv> 10"

text \<open>One round of the loop per hop still allowed.\<close>

fun resolve_alias_loop ::
  "string \<Rightarrow> (string \<Rightarrow> principal option) \<Rightarrow> nat \<Rightarrow> string \<Rightarrow> principal \<Rightarrow> string option" where
  "resolve_alias_loop realm lookup left pid p =
     (case alias_target p of
        None \<Rightarrow> Some pid
      | Some target \<Rightarrow>
          (case left of
             0 \<Rightarrow> None
           | Suc left' \<Rightarrow>
               (case principal_from_unparsed target realm of
                  Inl _ \<Rightarrow> None
                | Inr (name, target_realm) \<Rightarrow>
                    (let pid' = lookup_principal_id name target_realm in
                     case lookup pid' of
                       None \<Rightarrow> None
                     | Some p' \<Rightarrow> resolve_alias_loop realm lookup left' pid' p'))))"

declare resolve_alias_loop.simps [simp del]

definition resolve_alias_id ::
  "string \<Rightarrow> (string \<Rightarrow> principal option) \<Rightarrow> string \<Rightarrow> string option" where
  "resolve_alias_id realm lookup pid =
     (case lookup pid of None \<Rightarrow> None
      | Some p \<Rightarrow> resolve_alias_loop realm lookup MAX_ALIAS_DEPTH pid p)"

definition resolve_id :: "store \<Rightarrow> string \<Rightarrow> string option" where
  "resolve_id s pid = resolve_alias_id (s_realm s) (s_map s) pid"

definition canonical_id :: "store \<Rightarrow> principal_name \<Rightarrow> string \<Rightarrow> kdc_error + string" where
  "canonical_id s name princ_realm =
     ok_or NotFound (resolve_id s (lookup_principal_id name princ_realm))"

definition store_get :: "store \<Rightarrow> string \<Rightarrow> principal option" where
  "store_get s pid = Option.bind (resolve_id s pid) (s_map s)"

definition get_in_realm :: "store \<Rightarrow> principal_name \<Rightarrow> string \<Rightarrow> principal option" where
  "get_in_realm s name princ_realm = store_get s (lookup_principal_id name princ_realm)"

definition get_name :: "store \<Rightarrow> principal_name \<Rightarrow> principal option" where
  "get_name s name = get_in_realm s name (s_realm s)"

subsection \<open>Keys\<close>

datatype key_lookup = NoMatchingKey | NoPermittedKey

fun scan_keys ::
  "enctype option \<Rightarrow> u32 \<Rightarrow> (enctype \<Rightarrow> bool) \<Rightarrow> bool \<Rightarrow> key_entry list \<Rightarrow> key_lookup + key_entry" where
  "scan_keys et kvno permitted saw [] = Inl (if saw then NoPermittedKey else NoMatchingKey)"
| "scan_keys et kvno permitted saw (k # ks) =
     (if ke_kvno k \<noteq> kvno \<or> (case et of None \<Rightarrow> False | Some e \<Rightarrow> ke_etype k \<noteq> e)
      then scan_keys et kvno permitted saw ks
      else if \<not> permitted (ke_etype k) then scan_keys et kvno permitted True ks
      else Inr k)"

definition top_kvno :: "key_entry list \<Rightarrow> u32 option" where
  "top_kvno ks = (if ks = [] then None else Some (Max (set (map ke_kvno ks))))"

definition find_enctype ::
  "principal \<Rightarrow> enctype option \<Rightarrow> u32 \<Rightarrow> (enctype \<Rightarrow> bool) \<Rightarrow> key_lookup + key_entry" where
  "find_enctype p et kvno permitted =
     (if (case et of None \<Rightarrow> False | Some e \<Rightarrow> \<not> permitted e) then Inl NoPermittedKey
      else case top_kvno (p_keys p) of
        None \<Rightarrow> Inl NoMatchingKey
      | Some tk \<Rightarrow>
          scan_keys et (if kvno = 0 then tk else kvno) permitted False (p_keys p))"

definition etype_permitted :: "policy \<Rightarrow> enctype \<Rightarrow> bool" where
  "etype_permitted pol e =
     (case po_permitted_enctypes pol of None \<Rightarrow> True | Some v \<Rightarrow> e \<in> set v)"

definition permitted_list :: "policy \<Rightarrow> enctype list" where
  "permitted_list pol =
     (case po_permitted_enctypes pol of Some v \<Rightarrow> v
      | None \<Rightarrow> (case parse_enctype_list ''DEFAULT'' (po_allow_weak_crypto pol) of
                  Some l \<Rightarrow> l | None \<Rightarrow> []))"

definition policy_find_enctype ::
  "policy \<Rightarrow> principal \<Rightarrow> enctype option \<Rightarrow> u32 \<Rightarrow> key_lookup + key_entry" where
  "policy_find_enctype pol p et kvno = find_enctype p et kvno (etype_permitted pol)"

definition policy_first_current_key :: "policy \<Rightarrow> principal \<Rightarrow> key_lookup + key_entry" where
  "policy_first_current_key pol p = policy_find_enctype pol p None 0"

definition first_key_at_kvno :: "principal \<Rightarrow> u32 \<Rightarrow> key_entry option" where
  "first_key_at_kvno p kvno = find (\<lambda>k. ke_kvno k = kvno) (p_keys p)"

definition first_current_key :: "principal \<Rightarrow> key_entry option" where
  "first_current_key p = Option.bind (top_kvno (p_keys p)) (first_key_at_kvno p)"

definition password_keysalts :: "policy \<Rightarrow> key_salt list" where
  "password_keysalts pol =
     (if po_supported_enctypes pol = []
      then map key_salt_from [Aes256CtsHmacSha196, Aes128CtsHmacSha196]
      else po_supported_enctypes pol)"

text \<open>\<open>max_by_key\<close> returns the last of the maximal entries.\<close>

definition key_for :: "principal \<Rightarrow> enctype \<Rightarrow> key_entry option" where
  "key_for p e =
     (let ks = filter (\<lambda>k. ke_etype k = e) (p_keys p) in
      case top_kvno ks of None \<Rightarrow> None
      | Some tk \<Rightarrow> find (\<lambda>k. ke_kvno k = tk) (rev ks))"

definition best_key :: "principal \<Rightarrow> key_entry option" where
  "best_key p =
     (case List.map_filter (key_for p) preferred of
        k # _ \<Rightarrow> Some k
      | [] \<Rightarrow> (case p_keys p of [] \<Rightarrow> None | k # _ \<Rightarrow> Some k))"

definition next_kvno :: "key_entry list \<Rightarrow> u32" where
  "next_kvno keys =
     (case top_kvno keys of
        Some n \<Rightarrow> if n \<ge> 65535 then 1 else n + 1
      | None \<Rightarrow> 1)"

definition kvnos_desc :: "key_entry list \<Rightarrow> u32 list" where
  "kvnos_desc keys = rev (sorted_list_of_set (set (map ke_kvno keys)))"

definition cap_key_versions :: "key_entry list \<Rightarrow> u32 \<Rightarrow> key_entry list" where
  "cap_key_versions keys n =
     (let keep = set (take (unat n) (kvnos_desc keys)) in
      filter (\<lambda>k. ke_kvno k \<in> keep) keys)"

text \<open>What a key change leaves: the new keys, and of the old ones what \<open>keepold\<close> asks for.\<close>

definition rotate_keys :: "key_entry list \<Rightarrow> key_entry list \<Rightarrow> u32 \<Rightarrow> key_entry list" where
  "rotate_keys new_keys old keepold =
     (if keepold > 0 then
        (let ks = new_keys @ old in if keepold > 1 then cap_key_versions ks keepold else ks)
      else new_keys)"

definition purge_keys :: "key_entry list \<Rightarrow> int \<Rightarrow> key_entry list" where
  "purge_keys keys keepkvno =
     (let keep = (if keepkvno \<le> 0 then (case top_kvno keys of None \<Rightarrow> 0 | Some t \<Rightarrow> t)
                  else word_of_int keepkvno) in
      filter (\<lambda>k. ke_kvno k \<ge> keep) keys)"

subsection \<open>The key table over the database\<close>

datatype ktkdb_error = KtNotFound | KvnoNotFound | KtNoPermittedKey | KtBadEnctype

definition is_xrealm_tgt :: "principal_name \<Rightarrow> string \<Rightarrow> bool" where
  "is_xrealm_tgt name realm =
     (case name_string name of
        [c0, c1] \<Rightarrow> starts_with ''krbtgt'' c0 \<and> c1 \<noteq> realm
      | _ \<Rightarrow> False)"

definition enctype_class :: "int \<Rightarrow> nat option" where
  "enctype_class et =
     (if et = 6 \<or> et = 16 then Some 1
      else if et = 23 \<or> et = 24 then Some 2
      else if et = 17 then Some 3
      else if et = 18 then Some 4
      else if et = 19 then Some 5
      else if et = 20 then Some 6
      else if et = 25 then Some 7
      else if et = 26 then Some 8
      else None)"

definition ktkdb_want :: "principal_name \<Rightarrow> string \<Rightarrow> int \<Rightarrow> ktkdb_error + enctype option" where
  "ktkdb_want name realm etype =
     (if is_xrealm_tgt name realm
      then (case known etype of Inr e \<Rightarrow> Inr (Some e) | Inl _ \<Rightarrow> Inl KtNoPermittedKey)
      else Inr None)"

definition ktkdb_check_class :: "int \<Rightarrow> key_entry \<Rightarrow> ktkdb_error + key_entry" where
  "ktkdb_check_class etype key =
     (if etype > 0 then
        (case (enctype_class etype, enctype_class (to_iana (ke_etype key))) of
           (Some a, Some b) \<Rightarrow> if a = b then Inr key else Inl KtNoPermittedKey
         | _ \<Rightarrow> Inl KtBadEnctype)
      else Inr key)"

fun ktkdb_lookup_error :: "key_lookup \<Rightarrow> ktkdb_error" where
  "ktkdb_lookup_error NoMatchingKey = KvnoNotFound"
| "ktkdb_lookup_error NoPermittedKey = KtNoPermittedKey"

definition ktkdb_get_entry ::
  "principal option \<Rightarrow> principal_name \<Rightarrow> string \<Rightarrow> u32 \<Rightarrow> int \<Rightarrow> (enctype \<Rightarrow> bool)
    \<Rightarrow> ktkdb_error + key_entry" where
  "ktkdb_get_entry princ name realm kvno etype permitted =
     (case princ of None \<Rightarrow> Inl KtNotFound
      | Some p \<Rightarrow>
          if p_attributes p AND (KDB_DISALLOW_SVR OR KDB_DISALLOW_ALL_TIX) \<noteq> 0
          then Inl KtNotFound
          else
            andthen (ktkdb_want name realm etype) (\<lambda>want.
            andthen (map_err ktkdb_lookup_error (find_enctype p want kvno permitted))
              (ktkdb_check_class etype)))"

subsection \<open>Alias chains\<close>

definition alias_next :: "string \<Rightarrow> (string \<Rightarrow> principal option) \<Rightarrow> string \<Rightarrow> string option" where
  "alias_next realm lookup pid =
     Option.bind (Option.bind (lookup pid) alias_target) (\<lambda>target.
       case principal_from_unparsed target realm of
         Inl _ \<Rightarrow> None | Inr (name, r) \<Rightarrow> Some (lookup_principal_id name r))"

inductive alias_hops :: "string \<Rightarrow> (string \<Rightarrow> principal option) \<Rightarrow> nat \<Rightarrow> string \<Rightarrow> string \<Rightarrow> bool"
  for realm lookup where
  hops_0: "alias_hops realm lookup 0 a a"
| hops_Suc: "alias_next realm lookup a = Some b \<Longrightarrow> alias_hops realm lookup n b c \<Longrightarrow>
    alias_hops realm lookup (Suc n) a c"

inductive_simps alias_hops_0 [simp]: "alias_hops realm lookup 0 a c"
inductive_simps alias_hops_Suc: "alias_hops realm lookup (Suc n) a c"

definition plain_entry :: "(string \<Rightarrow> principal option) \<Rightarrow> string \<Rightarrow> bool" where
  "plain_entry lookup pid = (\<exists>p. lookup pid = Some p \<and> alias_target p = None)"

lemma alias_hops_source:
  "alias_hops realm lookup n a c \<Longrightarrow> plain_entry lookup a \<Longrightarrow> n = 0 \<and> c = a"
  by (induction rule: alias_hops.induct) (auto simp: plain_entry_def alias_next_def)

lemma resolve_alias_loop_hops:
  assumes "lookup a = Some p"
  shows "resolve_alias_loop realm lookup left a p = Some c \<longleftrightarrow>
    (\<exists>n \<le> left. alias_hops realm lookup n a c) \<and> plain_entry lookup c"
  using assms
proof (induction left arbitrary: a p)
  case 0
  then show ?case
    by (auto simp: plain_entry_def resolve_alias_loop.simps split: option.split)
next
  case (Suc left)
  show ?case
  proof (cases "alias_target p")
    case None
    with Suc.prems have "plain_entry lookup a"
      by (simp add: plain_entry_def)
    with None alias_hops_source [of realm lookup _ a c] show ?thesis
      by (auto simp: resolve_alias_loop.simps intro: exI [of _ 0])
  next
    case (Some target)
    then have not_plain: "\<not> plain_entry lookup a"
      using Suc.prems by (simp add: plain_entry_def)
    have rec: "resolve_alias_loop realm lookup (Suc left) a p =
        (case alias_next realm lookup a of None \<Rightarrow> None
         | Some b \<Rightarrow> (case lookup b of None \<Rightarrow> None
             | Some p' \<Rightarrow> resolve_alias_loop realm lookup left b p'))"
      using Some Suc.prems
      by (simp add: alias_next_def Let_def resolve_alias_loop.simps [of _ _ "Suc left"]
          split: sum.split prod.split)
    have chain: "(\<exists>n \<le> Suc left. alias_hops realm lookup n a c) \<and> plain_entry lookup c \<longleftrightarrow>
        (\<exists>b. alias_next realm lookup a = Some b \<and> (\<exists>n \<le> left. alias_hops realm lookup n b c) \<and>
          plain_entry lookup c)"
    proof
      assume "(\<exists>n \<le> Suc left. alias_hops realm lookup n a c) \<and> plain_entry lookup c"
      then obtain n where "n \<le> Suc left" "alias_hops realm lookup n a c" "plain_entry lookup c"
        by blast
      with not_plain show "\<exists>b. alias_next realm lookup a = Some b \<and>
          (\<exists>n \<le> left. alias_hops realm lookup n b c) \<and> plain_entry lookup c"
        by (cases n) (auto simp: alias_hops_Suc)
    next
      assume "\<exists>b. alias_next realm lookup a = Some b \<and> (\<exists>n \<le> left. alias_hops realm lookup n b c) \<and>
          plain_entry lookup c"
      then show "(\<exists>n \<le> Suc left. alias_hops realm lookup n a c) \<and> plain_entry lookup c"
        by (auto intro: hops_Suc)
    qed
    have target: "lookup b \<noteq> None" if "alias_hops realm lookup n b c" "plain_entry lookup c" for b n
      using that by (cases n) (auto simp: alias_hops_Suc alias_next_def plain_entry_def
          split: Option.bind_splits)
    show ?thesis
      unfolding rec chain
    proof (cases "alias_next realm lookup a")
      case (Some b)
      then show "(case alias_next realm lookup a of None \<Rightarrow> None
         | Some b \<Rightarrow> (case lookup b of None \<Rightarrow> None
             | Some p' \<Rightarrow> resolve_alias_loop realm lookup left b p')) = Some c \<longleftrightarrow>
        (\<exists>b. alias_next realm lookup a = Some b \<and> (\<exists>n \<le> left. alias_hops realm lookup n b c) \<and>
          plain_entry lookup c)"
        using Suc.IH target by (cases "lookup b") force+
    qed simp
  qed
qed

lemma resolve_alias_id_hops:
  "resolve_alias_id realm lookup a = Some c \<longleftrightarrow>
     (\<exists>n \<le> MAX_ALIAS_DEPTH. alias_hops realm lookup n a c) \<and> plain_entry lookup c"
proof (cases "lookup a")
  case None
  then have "\<not> (alias_hops realm lookup n a c \<and> plain_entry lookup c)" for n
    by (cases n) (auto simp: plain_entry_def alias_hops_Suc alias_next_def)
  with None show ?thesis
    by (auto simp: resolve_alias_id_def)
next
  case (Some p)
  then show ?thesis
    using resolve_alias_loop_hops [of lookup a p realm MAX_ALIAS_DEPTH c]
    by (simp add: resolve_alias_id_def)
qed

subsection \<open>Finding keys\<close>

definition key_matches :: "enctype option \<Rightarrow> u32 \<Rightarrow> key_entry \<Rightarrow> bool" where
  "key_matches et kvno k \<longleftrightarrow> ke_kvno k = kvno \<and> (case et of None \<Rightarrow> True | Some e \<Rightarrow> ke_etype k = e)"

lemma scan_keys_filter:
  "scan_keys et kvno permitted saw ks =
     (let matching = filter (key_matches et kvno) ks in
      case filter (\<lambda>k. permitted (ke_etype k)) matching of
        k # _ \<Rightarrow> Inr k
      | [] \<Rightarrow> Inl (if saw \<or> matching \<noteq> [] then NoPermittedKey else NoMatchingKey))"
proof (induction ks arbitrary: saw)
  case (Cons k ks)
  have skip: "ke_kvno k \<noteq> kvno \<or> (case et of None \<Rightarrow> False | Some e \<Rightarrow> ke_etype k \<noteq> e)
      \<longleftrightarrow> \<not> key_matches et kvno k"
    by (simp add: key_matches_def split: option.split)
  show ?case
    unfolding scan_keys.simps skip by (simp add: Cons Let_def)
qed simp

lemma top_kvno_max:
  "top_kvno ks = Some t \<longleftrightarrow> (\<exists>k \<in> set ks. ke_kvno k = t) \<and> (\<forall>k \<in> set ks. ke_kvno k \<le> t)"
  unfolding top_kvno_def by (auto simp: Max_eq_iff)

lemma top_kvno_None [simp]: "top_kvno ks = None \<longleftrightarrow> ks = []"
  by (simp add: top_kvno_def)

lemma find_enctype_filter:
  "find_enctype p et kvno permitted =
     (if et \<noteq> None \<and> \<not> permitted (the et) then Inl NoPermittedKey
      else case top_kvno (p_keys p) of None \<Rightarrow> Inl NoMatchingKey
      | Some t \<Rightarrow>
          (let v = (if kvno = 0 then t else kvno);
               matching = filter (key_matches et v) (p_keys p) in
           case filter (\<lambda>k. permitted (ke_etype k)) matching of
             k # _ \<Rightarrow> Inr k
           | [] \<Rightarrow> Inl (if matching \<noteq> [] then NoPermittedKey else NoMatchingKey)))"
proof -
  have "(case et of None \<Rightarrow> False | Some e \<Rightarrow> \<not> permitted e) \<longleftrightarrow> et \<noteq> None \<and> \<not> permitted (the et)"
    by (cases et) simp_all
  then show ?thesis
    by (simp only: find_enctype_def scan_keys_filter Let_def simp_thms)
qed

lemma find_enctype_Inr:
  assumes "find_enctype p et kvno permitted = Inr k"
  shows "k \<in> set (p_keys p) \<and> permitted (ke_etype k) \<and> (kvno \<noteq> 0 \<longrightarrow> ke_kvno k = kvno) \<and>
    (case et of None \<Rightarrow> True | Some e \<Rightarrow> ke_etype k = e)"
proof -
  obtain t ks where "filter (\<lambda>k. permitted (ke_etype k))
      (filter (key_matches et (if kvno = 0 then t else kvno)) (p_keys p)) = k # ks"
    using assms unfolding find_enctype_filter Let_def by (auto split: if_splits option.splits list.splits)
  then have "k \<in> set (filter (\<lambda>k. permitted (ke_etype k))
      (filter (key_matches et (if kvno = 0 then t else kvno)) (p_keys p)))"
    by simp
  then show ?thesis
    by (simp add: key_matches_def)
qed

subsection \<open>Key versions\<close>

lemma next_kvno_above:
  assumes "k \<in> set old" and "top_kvno old = Some t" and "t < 65535"
  shows "ke_kvno k < next_kvno old"
proof -
  have "ke_kvno k \<le> t"
    using assms(1,2) by (simp add: top_kvno_max)
  moreover have "t < t + 1"
  proof -
    have "unat t < 65535"
      using assms(3) by (simp add: word_less_nat_alt)
    then have "unat (t + 1) = Suc (unat t)"
      by (simp add: unat_word_ariths)
    then show ?thesis
      by (simp add: word_less_nat_alt)
  qed
  ultimately show ?thesis
    using assms(2,3) by (simp add: next_kvno_def not_le [symmetric])
qed

lemma kvnos_desc_hd:
  assumes "k \<in> set ks" and "\<forall>k' \<in> set ks. ke_kvno k' \<le> ke_kvno k"
  shows "\<exists>rest. kvnos_desc ks = ke_kvno k # rest"
proof -
  let ?xs = "sorted_list_of_set (set (map ke_kvno ks))"
  have set: "set ?xs = ke_kvno ` set ks" and sorted: "sorted ?xs"
    by simp_all
  from assms(1) set have "ke_kvno k \<in> set ?xs"
    by auto
  then obtain ys l where xs: "?xs = ys @ [l]"
    by (cases ?xs rule: rev_cases) auto
  from sorted have "\<forall>y \<in> set ys. y \<le> l"
    unfolding xs by (simp add: sorted_append)
  with \<open>ke_kvno k \<in> set ?xs\<close> have "ke_kvno k \<le> l"
    unfolding xs by auto
  moreover have "l \<in> ke_kvno ` set ks"
    using set unfolding xs by auto
  then have "l \<le> ke_kvno k"
    using assms(2) by auto
  ultimately have "l = ke_kvno k"
    by simp
  then show ?thesis
    by (simp add: kvnos_desc_def xs del: set_map)
qed

lemma cap_keeps_top:
  assumes "k \<in> set ks" and "\<forall>k' \<in> set ks. ke_kvno k' \<le> ke_kvno k" and "0 < unat n"
  shows "k \<in> set (cap_key_versions ks n)"
proof -
  obtain rest where "kvnos_desc ks = ke_kvno k # rest"
    using kvnos_desc_hd [OF assms(1,2)] by blast
  moreover obtain m where "unat n = Suc m"
    using assms(3) by (cases "unat n") auto
  ultimately show ?thesis
    using assms(1) by (simp add: cap_key_versions_def Let_def)
qed

lemma rotate_keeps_new:
  assumes "\<forall>k \<in> set new_keys. ke_kvno k = next_kvno old" and "top_kvno old = Some t" and "t < 65535"
  shows "set new_keys \<subseteq> set (rotate_keys new_keys old keepold)"
proof
  fix k
  assume k: "k \<in> set new_keys"
  have "\<forall>k' \<in> set (new_keys @ old). ke_kvno k' \<le> ke_kvno k"
    using k assms next_kvno_above [OF _ assms(2,3)] by (auto intro: less_imp_le)
  moreover have "0 < unat keepold" if "keepold > 1"
    using that by (simp add: word_less_nat_alt)
  ultimately show "k \<in> set (rotate_keys new_keys old keepold)"
    using k cap_keeps_top [of k "new_keys @ old" keepold]
    by (auto simp: rotate_keys_def Let_def)
qed

text \<open>Which versions a cap keeps: those with fewer than the given number of versions above them.\<close>

lemma take_sorted_desc:
  assumes "finite S" and "x \<in> S"
  shows "x \<in> set (take m (rev (sorted_list_of_set S))) \<longleftrightarrow> card {y \<in> S. x < y} < m"
proof -
  define xs where "xs = rev (sorted_list_of_set S)"
  have xs: "sorted_wrt (>) xs" "distinct xs" "set xs = S"
    using assms(1) by (simp_all add: xs_def sorted_wrt_rev)
  then obtain i where i: "i < length xs" "xs ! i = x"
    using assms(2) by (auto simp: in_set_conv_nth)
  have "{y \<in> S. x < y} = set (take i xs)"
  proof -
    have "xs ! j \<in> set (take i xs) \<longleftrightarrow> x < xs ! j" if "j < length xs" for j
    proof (cases "j < i")
      case True
      then show ?thesis
        using i sorted_wrt_nth_less [OF xs(1) True i(1)] by (auto simp: in_set_conv_nth)
    next
      case False
      then have "xs ! j \<le> x"
        using that i(2) sorted_wrt_nth_less [OF xs(1), of i j] by (cases "i = j") auto
      moreover have "xs ! j \<notin> set (take i xs)"
        using False that xs(2) by (auto simp: in_set_conv_nth nth_eq_iff_index_eq)
      ultimately show ?thesis
        by simp
    qed
    then show ?thesis
      using xs(3) by (fastforce simp: in_set_conv_nth dest: in_set_takeD)
  qed
  then have "card {y \<in> S. x < y} = i"
    using i(1) xs(2) by (simp add: distinct_card)
  moreover have "x \<in> set (take m xs) \<longleftrightarrow> i < m"
    using i xs(2) by (auto simp: in_set_conv_nth nth_eq_iff_index_eq)
  ultimately show ?thesis
    by (simp add: xs_def)
qed

lemma cap_keeps_iff:
  assumes "k \<in> set ks"
  shows "k \<in> set (cap_key_versions ks n) \<longleftrightarrow> card {v \<in> ke_kvno ` set ks. ke_kvno k < v} < unat n"
  using assms take_sorted_desc [of "ke_kvno ` set ks" "ke_kvno k" "unat n"]
  by (simp add: cap_key_versions_def kvnos_desc_def Let_def)

subsection \<open>Properties\<close>

text \<open>
  C22: Alias resolution.  \<open>resolve_alias_id\<close> returns an identifier exactly when it is reached from
  the one asked for by at most \<open>MAX_ALIAS_DEPTH\<close> alias hops and names an entry that is not an
  alias; a longer chain, a cycle, a target that does not parse and a target that is not in the
  database give nothing.
\<close>
theorem resolve_alias_chain:
  "resolve_alias_id realm lookup a = Some c \<longleftrightarrow>
     (\<exists>n \<le> MAX_ALIAS_DEPTH. alias_hops realm lookup n a c) \<and>
     (\<exists>p. lookup c = Some p \<and> alias_target p = None)"
  using resolve_alias_id_hops [of realm lookup a c] by (simp add: plain_entry_def)

text \<open>
  C23: Key search.  \<open>find_enctype\<close> returns the first key of the entry that has the key version
  asked for (the highest one for 0), the enctype asked for and a permitted enctype; it fails only
  when there is none, with \<open>NoPermittedKey\<close> when the enctype asked for or all keys that match are
  not permitted, and with \<open>NoMatchingKey\<close> when no key matches.
\<close>
theorem find_enctype_first_match:
  "find_enctype p et kvno permitted =
     (if et \<noteq> None \<and> \<not> permitted (the et) then Inl NoPermittedKey
      else case top_kvno (p_keys p) of None \<Rightarrow> Inl NoMatchingKey
      | Some t \<Rightarrow>
          (let v = (if kvno = 0 then t else kvno);
               matching = filter (key_matches et v) (p_keys p) in
           case filter (\<lambda>k. permitted (ke_etype k)) matching of
             k # _ \<Rightarrow> Inr k
           | [] \<Rightarrow> Inl (if matching \<noteq> [] then NoPermittedKey else NoMatchingKey)))"
  by (rule find_enctype_filter)

text \<open>
  C25: Key rotation keeps the new keys.  As long as the entry's highest key version is below 65535,
  the keys written by a change under the next version number are all kept, whatever number of old
  versions is kept, and the new version is above all old ones.
\<close>
theorem rotate_keys_keeps_new:
  assumes "\<forall>k \<in> set new_keys. ke_kvno k = next_kvno old" and "top_kvno old = Some t" and "t < 65535"
  shows "set new_keys \<subseteq> set (rotate_keys new_keys old keepold) \<and>
    (\<forall>k \<in> set old. ke_kvno k < next_kvno old)"
  using rotate_keeps_new [OF assms] next_kvno_above [OF _ assms(2,3)] by blast

definition example_key :: "u32 \<Rightarrow> key_entry" where
  "example_key v = \<lparr>ke_etype = Aes256CtsHmacSha196, ke_key = \<lparr>pk_etype = Aes256CtsHmacSha196, pk_bytes = []\<rparr>,
     ke_kvno = v, ke_salt_type = None, ke_kdb_salt = None\<rparr>"

lemma top_kvno_example: "top_kvno [example_key a, example_key b] = Some (max a b)"
  by (simp add: top_kvno_def example_key_def)

theorem rotate_keys_keeps_new_witness:
  "set [example_key 4] \<subseteq> set (rotate_keys [example_key 4] [example_key 3, example_key 2] 2)"
  using rotate_keys_keeps_new [of "[example_key 4]" "[example_key 3, example_key 2]" 3 2]
  by (simp add: top_kvno_example next_kvno_def) (simp add: example_key_def)

text \<open>
  C26: Key rotation at the end of the version numbers.  When the highest version is 65535 or more, the next one
  is 1, below the old ones.  A change that keeps N > 1 versions then keeps its new keys exactly if the
  entry has fewer than N versions above 1; with N or more of them all new keys are dropped.
\<close>
theorem rotate_keys_wrap_drops_new:
  assumes "\<forall>k \<in> set new_keys. ke_kvno k = next_kvno old" and "top_kvno old = Some t" and "65535 \<le> t"
    and "1 < keepold"
  shows "next_kvno old = 1 \<and>
    (if card {v \<in> ke_kvno ` set old. 1 < v} < unat keepold
     then set new_keys \<subseteq> set (rotate_keys new_keys old keepold)
     else set new_keys \<inter> set (rotate_keys new_keys old keepold) = {})"
proof -
  have one: "next_kvno old = 1"
    using assms(2,3) by (simp add: next_kvno_def)
  have "k \<in> set (rotate_keys new_keys old keepold) \<longleftrightarrow> card {v \<in> ke_kvno ` set old. 1 < v} < unat keepold"
    if k: "k \<in> set new_keys" for k
  proof -
    have "{v \<in> ke_kvno ` set (new_keys @ old). ke_kvno k < v} = {v \<in> ke_kvno ` set old. 1 < v}"
      using k assms(1) one by auto
    moreover have "0 < keepold"
      using assms(4) by (simp add: word_less_nat_alt)
    then have "rotate_keys new_keys old keepold = cap_key_versions (new_keys @ old) keepold"
      using assms(4) by (simp add: rotate_keys_def Let_def)
    ultimately show ?thesis
      using cap_keeps_iff [of k "new_keys @ old" keepold] k by simp
  qed
  with one show ?thesis
    by auto
qed

theorem rotate_keys_wrap_drops_new_witness:
  "set [example_key 1] \<inter> set (rotate_keys [example_key 1] [example_key 65535, example_key 65534] 2) = {} \<and>
   set [example_key 1] \<subseteq> set (rotate_keys [example_key 1] [example_key 65535, example_key 65534] 3)"
proof -
  have "{v \<in> ke_kvno ` set [example_key 65535, example_key 65534]. 1 < v} = {65535, 65534}"
    by (auto simp: example_key_def)
  then have "card {v \<in> ke_kvno ` set [example_key 65535, example_key 65534]. 1 < v} = 2"
    by simp
  moreover have "\<forall>k \<in> set [example_key 1]. ke_kvno k = next_kvno [example_key 65535, example_key 65534]"
    by (simp add: next_kvno_def top_kvno_example) (simp add: example_key_def)
  moreover have "top_kvno [example_key 65535, example_key 65534] = Some 65535"
    by (simp add: top_kvno_example)
  ultimately show ?thesis
    using rotate_keys_wrap_drops_new [of "[example_key 1]" "[example_key 65535, example_key 65534]" 65535 2]
      rotate_keys_wrap_drops_new [of "[example_key 1]" "[example_key 65535, example_key 65534]" 65535 3]
    by (simp del: set_simps)
qed

text \<open>
  C24: The key table over the database.  A key is returned only for an entry that may be used as a
  server and is not locked, it is a permitted key of that entry of the enctype class asked for,
  and for a cross-realm ticket-granting name it has exactly the enctype asked for.
\<close>
theorem ktkdb_get_entry_safe:
  assumes "ktkdb_get_entry princ name realm kvno etype permitted = Inr key"
  shows "\<exists>p. princ = Some p \<and> \<not> attr p KDB_DISALLOW_SVR \<and> \<not> attr p KDB_DISALLOW_ALL_TIX \<and>
    key \<in> set (p_keys p) \<and> permitted (ke_etype key) \<and>
    (kvno \<noteq> 0 \<longrightarrow> ke_kvno key = kvno) \<and>
    (etype > 0 \<longrightarrow> (\<exists>c. enctype_class etype = Some c \<and>
       enctype_class (to_iana (ke_etype key)) = Some c)) \<and>
    (is_xrealm_tgt name realm \<longrightarrow> to_iana (ke_etype key) = etype)"
proof -
  obtain p where p: "princ = Some p"
    using assms by (auto simp: ktkdb_get_entry_def split: option.splits)
  have attrs: "p_attributes p AND (KDB_DISALLOW_SVR OR KDB_DISALLOW_ALL_TIX) = 0"
    using assms by (auto simp: ktkdb_get_entry_def p split: if_splits)
  then have "\<not> attr p KDB_DISALLOW_SVR" "\<not> attr p KDB_DISALLOW_ALL_TIX"
    unfolding attr_def bit.conj_disj_distrib by (simp_all add: or_eq_0_iff)
  moreover obtain want k where want: "ktkdb_want name realm etype = Inr want"
    and k: "find_enctype p want kvno permitted = Inr k" and check: "ktkdb_check_class etype k = Inr key"
    using assms attrs by (auto simp: ktkdb_get_entry_def p map_err_eq_Inr)
  have found: "find_enctype p want kvno permitted = Inr key"
    and cls: "etype > 0 \<longrightarrow> (\<exists>c. enctype_class etype = Some c \<and>
       enctype_class (to_iana (ke_etype key)) = Some c)"
    using k check by (auto simp: ktkdb_check_class_def split: if_splits option.splits)
  ultimately show ?thesis
    using p cls want find_enctype_Inr [OF found]
    by (auto simp: ktkdb_want_def known_eq_Inr split: if_splits sum.splits)
qed


definition example_principal :: "u32 \<Rightarrow> key_entry list \<Rightarrow> principal" where
  "example_principal attrs keys =
     \<lparr>p_name = \<lparr>name_type = NT_PRINCIPAL, name_string = [''host'', ''a'']\<rparr>, p_realm = ''R'', p_keys = keys,
      p_max_life = 0, p_pw_expire = 0, p_attributes = attrs, p_max_renewable_life = 0,
      p_expiration = 0, p_last_success = 0, p_last_failed = 0, p_fail_auth_count = 0,
      p_tl_data = [], p_s4u_allowed_from = [], p_s4u_allowed_to = [], p_pw_policy = None,
      p_string_attrs = []\<rparr>"

theorem ktkdb_get_entry_safe_witness:
  "ktkdb_get_entry (Some (example_principal 0 [example_key 3])) (p_name (example_principal 0 [])) ''R'' 3 18
     (\<lambda>_. True) = Inr (example_key 3)
   \<and> ke_kvno (example_key 3) = 3"
proof -
  have *: "ktkdb_get_entry (Some (example_principal 0 [example_key 3])) (p_name (example_principal 0 [])) ''R'' 3 18
     (\<lambda>_. True) = Inr (example_key 3)"
    by (simp add: ktkdb_get_entry_def ktkdb_want_def ktkdb_check_class_def is_xrealm_tgt_def
        find_enctype_def example_principal_def top_kvno_def starts_with_def enctype_class_def)
      (simp add: example_key_def)
  from ktkdb_get_entry_safe [OF *] * show ?thesis
    by simp
qed

end
