(* ===== verification/Status.thy ===== *)
theory Status
  imports Main
begin

text \<open>
  The error texts a KDC reply carries (\<open>crates/krb5-kdc/src/status.rs\<close>), those the modelled handlers
  name, with the module as a prefix.
\<close>

abbreviation (input) STATUS_ANONYMOUS_NOT_ALLOWED :: string where
  "STATUS_ANONYMOUS_NOT_ALLOWED \<equiv> ''ANONYMOUS NOT ALLOWED''"
abbreviation (input) STATUS_BAD_ENCRYPTION_TYPE :: string where
  "STATUS_BAD_ENCRYPTION_TYPE \<equiv> ''BAD_ENCRYPTION_TYPE''"
abbreviation (input) STATUS_BAD_TGS_SERVER_INSTANCE :: string where
  "STATUS_BAD_TGS_SERVER_INSTANCE \<equiv> ''BAD TGS SERVER INSTANCE''"
abbreviation (input) STATUS_BAD_TGS_SERVER_NAME :: string where
  "STATUS_BAD_TGS_SERVER_NAME \<equiv> ''BAD TGS SERVER NAME''"
abbreviation (input) STATUS_CANT_PROXY_TGT :: string where
  "STATUS_CANT_PROXY_TGT \<equiv> ''CAN'' @ CHR 0x27 # ''T PROXY TGT''"
abbreviation (input) STATUS_CLIENT_EXPIRED :: string where
  "STATUS_CLIENT_EXPIRED \<equiv> ''CLIENT EXPIRED''"
abbreviation (input) STATUS_CLIENT_KEY_EXPIRED :: string where
  "STATUS_CLIENT_KEY_EXPIRED \<equiv> ''CLIENT KEY EXPIRED''"
abbreviation (input) STATUS_CLIENT_LOCKED_OUT :: string where
  "STATUS_CLIENT_LOCKED_OUT \<equiv> ''CLIENT LOCKED OUT''"
abbreviation (input) STATUS_LOCKED_OUT :: string where
  "STATUS_LOCKED_OUT \<equiv> ''LOCKED_OUT''"
abbreviation (input) STATUS_INVALID_AS_OPTIONS :: string where
  "STATUS_INVALID_AS_OPTIONS \<equiv> ''INVALID AS OPTIONS''"
abbreviation (input) STATUS_INVALID_S4U2SELF_OPTIONS :: string where
  "STATUS_INVALID_S4U2SELF_OPTIONS \<equiv> ''INVALID S4U2SELF OPTIONS''"
abbreviation (input) STATUS_INVALID_XREALM_S4U2SELF_REQUEST :: string where
  "STATUS_INVALID_XREALM_S4U2SELF_REQUEST \<equiv> ''INVALID_XREALM_S4U2SELF_REQUEST''"
abbreviation (input) STATUS_LOOKING_UP_SERVER :: string where
  "STATUS_LOOKING_UP_SERVER \<equiv> ''LOOKING_UP_SERVER''"
abbreviation (input) STATUS_NO_2ND_TKT :: string where
  "STATUS_NO_2ND_TKT \<equiv> ''NO_2ND_TKT''"
abbreviation (input) STATUS_DUP_SKEY_DISALLOWED :: string where
  "STATUS_DUP_SKEY_DISALLOWED \<equiv> ''DUP_SKEY DISALLOWED''"
abbreviation (input) STATUS_NO_HW_PREAUTH :: string where
  "STATUS_NO_HW_PREAUTH \<equiv> ''NO HW PREAUTH''"
abbreviation (input) STATUS_NO_PREAUTH :: string where
  "STATUS_NO_PREAUTH \<equiv> ''NO PREAUTH''"
abbreviation (input) STATUS_NON_POSTDATABLE_TICKET :: string where
  "STATUS_NON_POSTDATABLE_TICKET \<equiv> ''NON-POSTDATABLE TICKET''"
abbreviation (input) STATUS_NON_RENEWABLE_TICKET :: string where
  "STATUS_NON_RENEWABLE_TICKET \<equiv> ''NON-RENEWABLE TICKET''"
abbreviation (input) STATUS_NOT_CROSS_REALM_REQUEST :: string where
  "STATUS_NOT_CROSS_REALM_REQUEST \<equiv> ''NOT_CROSS_REALM_REQUEST''"
abbreviation (input) STATUS_NOT_YET_VALID :: string where
  "STATUS_NOT_YET_VALID \<equiv> ''NOT_YET_VALID''"
abbreviation (input) STATUS_POSTDATE_NOT_ALLOWED :: string where
  "STATUS_POSTDATE_NOT_ALLOWED \<equiv> ''POSTDATE NOT ALLOWED''"
abbreviation (input) STATUS_PROCESS_TGS :: string where
  "STATUS_PROCESS_TGS \<equiv> ''PROCESS_TGS''"
abbreviation (input) STATUS_RENEW_SERVER_MISMATCH :: string where
  "STATUS_RENEW_SERVER_MISMATCH \<equiv> ''SERVER DIDN'' @ CHR 0x27 # ''T MATCH TICKET FOR RENEW/FORWARD/ETC''"
abbreviation (input) STATUS_REQUIRED_PWCHANGE :: string where
  "STATUS_REQUIRED_PWCHANGE \<equiv> ''REQUIRED PWCHANGE''"
abbreviation (input) STATUS_S4U2SELF_CLIENT_NOT_OURS :: string where
  "STATUS_S4U2SELF_CLIENT_NOT_OURS \<equiv> ''S4U2SELF_CLIENT_NOT_OURS''"
abbreviation (input) STATUS_S4U2SELF_NO_PAC :: string where
  "STATUS_S4U2SELF_NO_PAC \<equiv> ''S4U2SELF_NO_PAC''"
abbreviation (input) STATUS_S4U2SELF_LOCAL_PAC_CLIENT :: string where
  "STATUS_S4U2SELF_LOCAL_PAC_CLIENT \<equiv> ''S4U2SELF_LOCAL_PAC_CLIENT''"
abbreviation (input) STATUS_S4U2SELF_FOREIGN_PAC_CLIENT :: string where
  "STATUS_S4U2SELF_FOREIGN_PAC_CLIENT \<equiv> ''S4U2SELF_FOREIGN_PAC_CLIENT''"
abbreviation (input) STATUS_SECOND_TKT_NOT_TGS :: string where
  "STATUS_SECOND_TKT_NOT_TGS \<equiv> ''2ND_TKT_NOT_TGS''"
abbreviation (input) STATUS_SECOND_TKT_MISMATCH :: string where
  "STATUS_SECOND_TKT_MISMATCH \<equiv> ''2ND_TKT_MISMATCH''"
abbreviation (input) STATUS_SERVER_LOCKED_OUT :: string where
  "STATUS_SERVER_LOCKED_OUT \<equiv> ''SERVER LOCKED OUT''"
abbreviation (input) STATUS_SERVER_NOT_ALLOWED :: string where
  "STATUS_SERVER_NOT_ALLOWED \<equiv> ''SERVER NOT ALLOWED''"
abbreviation (input) STATUS_SERVICE_EXPIRED :: string where
  "STATUS_SERVICE_EXPIRED \<equiv> ''SERVICE EXPIRED''"
abbreviation (input) STATUS_SERVICE_LOCKED_OUT :: string where
  "STATUS_SERVICE_LOCKED_OUT \<equiv> ''SERVICE LOCKED OUT''"
abbreviation (input) STATUS_SERVICE_NOT_ALLOWED :: string where
  "STATUS_SERVICE_NOT_ALLOWED \<equiv> ''SERVICE NOT ALLOWED''"
abbreviation (input) STATUS_TGT_BASED_NOT_ALLOWED :: string where
  "STATUS_TGT_BASED_NOT_ALLOWED \<equiv> ''TGT BASED NOT ALLOWED''"
abbreviation (input) STATUS_TGT_NOT_FORWARDABLE :: string where
  "STATUS_TGT_NOT_FORWARDABLE \<equiv> ''TGT NOT FORWARDABLE''"
abbreviation (input) STATUS_TGT_NOT_POSTDATABLE :: string where
  "STATUS_TGT_NOT_POSTDATABLE \<equiv> ''TGT NOT POSTDATABLE''"
abbreviation (input) STATUS_TGT_NOT_PROXIABLE :: string where
  "STATUS_TGT_NOT_PROXIABLE \<equiv> ''TGT NOT PROXIABLE''"
abbreviation (input) STATUS_TICKET_NOT_RENEWABLE :: string where
  "STATUS_TICKET_NOT_RENEWABLE \<equiv> ''TICKET NOT RENEWABLE''"
abbreviation (input) STATUS_TICKET_NOT_VALID :: string where
  "STATUS_TICKET_NOT_VALID \<equiv> ''TICKET NOT VALID''"
abbreviation (input) STATUS_TKT_EXPIRED :: string where
  "STATUS_TKT_EXPIRED \<equiv> ''TKT_EXPIRED''"
abbreviation (input) STATUS_UNKNOWN_REASON :: string where
  "STATUS_UNKNOWN_REASON \<equiv> ''UNKNOWN_REASON''"
abbreviation (input) STATUS_VALIDATE_VALID_TICKET :: string where
  "STATUS_VALIDATE_VALID_TICKET \<equiv> ''VALIDATE VALID TICKET''"
abbreviation (input) STATUS_CLIENT_NOT_FOUND :: string where
  "STATUS_CLIENT_NOT_FOUND \<equiv> ''CLIENT_NOT_FOUND''"
abbreviation (input) STATUS_LOOKING_UP_CLIENT :: string where
  "STATUS_LOOKING_UP_CLIENT \<equiv> ''LOOKING_UP_CLIENT''"
abbreviation (input) STATUS_NEEDED_HW_PREAUTH :: string where
  "STATUS_NEEDED_HW_PREAUTH \<equiv> ''NEEDED_HW_PREAUTH''"
abbreviation (input) STATUS_NULL_CLIENT :: string where
  "STATUS_NULL_CLIENT \<equiv> ''NULL_CLIENT''"
abbreviation (input) STATUS_SERVER_NOT_FOUND :: string where
  "STATUS_SERVER_NOT_FOUND \<equiv> ''SERVER_NOT_FOUND''"
abbreviation (input) STATUS_VALIDATE_ANONYMOUS_PRINCIPAL :: string where
  "STATUS_VALIDATE_ANONYMOUS_PRINCIPAL \<equiv> ''VALIDATE_ANONYMOUS_PRINCIPAL''"

end
