(* ===== verification/Rust_Num.thy ===== *)
theory Rust_Num
  imports Rust_Text
begin

text \<open>
  Numbers in text: the fixed-width forms of \<open>format!("{:010}")\<close> and \<open>format!("{:08x}")\<close>, the plain
  decimal form, \<open>from_str_radix\<close>, and the octets of a string.
\<close>

definition digit_char :: "nat \<Rightarrow> char" where
  "digit_char d = (if d < 10 then char_of (48 + d) else char_of (87 + d))"

fun pad_digits :: "nat \<Rightarrow> nat \<Rightarrow> nat \<Rightarrow> string" where
  "pad_digits base 0 v = []"
| "pad_digits base (Suc n) v = pad_digits base n (v div base) @ [digit_char (v mod base)]"

fun show_nat :: "nat \<Rightarrow> string" where
  "show_nat n = (if n < 10 then [digit_char n] else show_nat (n div 10) @ [digit_char (n mod 10)])"

declare show_nat.simps [simp del]

definition hex_digit :: "char \<Rightarrow> nat option" where
  "hex_digit c =
     (if is_ascii_digit c then Some (ord_of c - 48)
      else if 97 \<le> ord_of c \<and> ord_of c \<le> 102 then Some (ord_of c - 87)
      else if 65 \<le> ord_of c \<and> ord_of c \<le> 70 then Some (ord_of c - 55) else None)"

fun parse_hex_digits :: "string \<Rightarrow> nat \<Rightarrow> nat option" where
  "parse_hex_digits [] acc = Some acc"
| "parse_hex_digits (c # cs) acc =
     (case hex_digit c of None \<Rightarrow> None | Some d \<Rightarrow> parse_hex_digits cs (acc * 16 + d))"

definition from_str_radix16 :: "nat \<Rightarrow> string \<Rightarrow> nat option" where
  "from_str_radix16 bound s =
     (case (case s of [] \<Rightarrow> [] | c # cs \<Rightarrow> if c = CHR ''+'' then cs else s) of
        [] \<Rightarrow> None
      | t \<Rightarrow> (case parse_hex_digits t 0 of None \<Rightarrow> None
              | Some n \<Rightarrow> if n < bound then Some n else None))"

definition char_bytes :: "string \<Rightarrow> bytes" where
  "char_bytes = map (\<lambda>c. of_nat (ord_of c))"

lemma length_char_bytes [simp]: "length (char_bytes s) = length s"
  by (simp add: char_bytes_def)

lemma char_bytes_append [simp]: "char_bytes (s @ t) = char_bytes s @ char_bytes t"
  by (simp add: char_bytes_def)

subsection \<open>Fixed width\<close>

lemma length_pad_digits [simp]: "length (pad_digits base n v) = n"
  by (induction n arbitrary: v) simp_all

lemma ord_of_char_of [simp]: "n < 256 \<Longrightarrow> ord_of (char_of n) = n"
  by (simp add: ord_of_def)

lemma ord_digit_char: "d < 10 \<Longrightarrow> ord_of (digit_char d) = 48 + d"
  by (simp add: digit_char_def)

lemma is_ascii_digit_char [simp]: "d < 10 \<Longrightarrow> is_ascii_digit (digit_char d)"
  by (simp add: is_ascii_digit_def ord_digit_char)

lemma pad_digits_decimal: "c \<in> set (pad_digits 10 n v) \<Longrightarrow> is_ascii_digit c"
  by (induction n arbitrary: v) auto

lemma parse_digits_append:
  "parse_digits (s @ t) acc = (case parse_digits s acc of None \<Rightarrow> None | Some a \<Rightarrow> parse_digits t a)"
  by (induction s arbitrary: acc) auto

lemma parse_digits_pad:
  "parse_digits (pad_digits 10 n v) acc = Some (acc * 10 ^ n + v mod 10 ^ n)"
proof (induction n arbitrary: v)
  case 0
  then show ?case by simp
next
  case (Suc n)
  have "v mod (10 * 10 ^ n) = 10 * (v div 10 mod 10 ^ n) + v mod 10"
    by (rule mod_mult2_eq)
  then show ?case
    by (simp add: parse_digits_append Suc ord_digit_char algebra_simps)
qed

lemma digit_not_plus: "is_ascii_digit c \<Longrightarrow> c \<noteq> CHR ''+''"
  by (auto simp: is_ascii_digit_def ord_of_def)

lemma parse_unsigned_pad:
  assumes "v < 10 ^ n" and "0 < n" and "v < bound"
  shows "parse_unsigned bound (pad_digits 10 n v) = Some v"
proof -
  obtain c cs where s: "pad_digits 10 n v = c # cs"
    using assms(2) by (metis length_pad_digits length_greater_0_conv neq_Nil_conv)
  then have "c \<noteq> CHR ''+''"
    using pad_digits_decimal [of c n v] digit_not_plus by simp
  then show ?thesis
    using parse_digits_pad [of n v 0] assms by (simp add: parse_unsigned_def parse_nat_def s)
qed

lemma hex_digit_char: "d < 16 \<Longrightarrow> hex_digit (digit_char d) = Some d"
  by (auto simp: hex_digit_def digit_char_def is_ascii_digit_def)

lemma parse_hex_append:
  "parse_hex_digits (s @ t) acc
     = (case parse_hex_digits s acc of None \<Rightarrow> None | Some a \<Rightarrow> parse_hex_digits t a)"
  by (induction s arbitrary: acc) (auto split: option.split)

lemma parse_hex_pad:
  "parse_hex_digits (pad_digits 16 n v) acc = Some (acc * 16 ^ n + v mod 16 ^ n)"
proof (induction n arbitrary: v)
  case 0
  then show ?case by simp
next
  case (Suc n)
  have "v mod (16 * 16 ^ n) = 16 * (v div 16 mod 16 ^ n) + v mod 16"
    by (rule mod_mult2_eq)
  then show ?case
    by (simp add: parse_hex_append Suc hex_digit_char algebra_simps)
qed

lemma pad_digits_hex: "c \<in> set (pad_digits 16 n v) \<Longrightarrow> \<exists>d < 16. c = digit_char d"
  by (induction n arbitrary: v) (auto intro: exI [of _ "_ mod 16"])

lemma from_str_radix16_pad:
  assumes "v < 16 ^ n" and "0 < n" and "v < bound"
  shows "from_str_radix16 bound (pad_digits 16 n v) = Some v"
proof -
  obtain c cs where s: "pad_digits 16 n v = c # cs"
    using assms(2) by (metis length_pad_digits length_greater_0_conv neq_Nil_conv)
  then obtain d where "d < 16" "c = digit_char d"
    using pad_digits_hex [of c n v] by auto
  then have "hex_digit c = Some d"
    by (simp add: hex_digit_char)
  then have "c \<noteq> CHR ''+''"
    by (auto simp: hex_digit_def is_ascii_digit_def ord_of_def)
  then show ?thesis
    using parse_hex_pad [of n v 0] assms by (simp add: from_str_radix16_def s)
qed

subsection \<open>Plain decimal\<close>

lemma show_nat_ne [simp]: "show_nat n \<noteq> []"
  by (subst show_nat.simps) simp

lemma show_nat_digits: "c \<in> set (show_nat n) \<Longrightarrow> is_ascii_digit c"
  by (induction n rule: show_nat.induct) (subst (asm) (2) show_nat.simps, auto split: if_splits)

lemma parse_digits_show: "parse_digits (show_nat n) 0 = Some n"
proof (induction n rule: show_nat.induct)
  case (1 n)
  show ?case
  proof (cases "n < 10")
    case True
    then show ?thesis
      by (subst show_nat.simps) (simp add: ord_digit_char)
  next
    case False
    then show ?thesis
      using 1 by (subst show_nat.simps) (simp add: parse_digits_append ord_digit_char)
  qed
qed

lemma parse_nat_show: "parse_nat (show_nat n) = Some n"
  by (simp add: parse_nat_def parse_digits_show)

lemma parse_unsigned_show: "n < bound \<Longrightarrow> parse_unsigned bound (show_nat n) = Some n"
proof -
  assume n: "n < bound"
  obtain c cs where s: "show_nat n = c # cs"
    by (meson neq_Nil_conv show_nat_ne)
  then have "c \<noteq> CHR ''+''"
    using show_nat_digits [of c n] digit_not_plus by simp
  with n s parse_nat_show [of n] show ?thesis
    by (simp add: parse_unsigned_def)
qed

end
