(* ===== verification/Lockout.thy ===== *)
theory Lockout
  imports KDB Status Rust_Num
begin

text \<open>
  Account lockout (\<open>crates/krb5-kdc/src/lockout.rs\<close>): the per-principal record of the last success, the
  last failure and the failure count, the policy check a request meets, and the audit of a request's
  outcome.  The table the record is kept in is an interface, the \<open>merge_lockout\<close> and
  \<open>update_lockout\<close> of the trait \<open>PrincipalRead\<close>; it is provided here by the overlay a store without a
  database file keeps, and in theory \<open>Lockout_File\<close> by the side file.
\<close>

subsection \<open>Records\<close>

record lockout =
  last_success :: u32
  last_failed :: u32
  fail_auth_count :: u32

definition lockout_of :: "principal \<Rightarrow> lockout" where
  "lockout_of p = \<lparr>last_success = p_last_success p, last_failed = p_last_failed p,
                   fail_auth_count = p_fail_auth_count p\<rparr>"

definition set_on :: "lockout \<Rightarrow> principal \<Rightarrow> principal" where
  "set_on l p = p\<lparr>p_last_success := last_success l, p_last_failed := last_failed l,
                  p_fail_auth_count := fail_auth_count l\<rparr>"

record lockout_update =
  zero_fail_count :: bool
  set_last_success :: bool
  set_last_failure :: bool

definition update_default :: lockout_update where
  "update_default = \<lparr>zero_fail_count = False, set_last_success = False, set_last_failure = False\<rparr>"

definition update_is_empty :: "lockout_update \<Rightarrow> bool" where
  "update_is_empty u = (\<not> (zero_fail_count u \<or> set_last_success u \<or> set_last_failure u))"

definition lockout_apply :: "lockout_update \<Rightarrow> lockout \<Rightarrow> u32 \<Rightarrow> lockout" where
  "lockout_apply u base stamp =
     (let out = (if zero_fail_count u then base\<lparr>fail_auth_count := 0\<rparr> else base);
          out = (if set_last_success u then out\<lparr>last_success := stamp\<rparr> else out)
      in if set_last_failure u
         then out\<lparr>last_failed := stamp, fail_auth_count := fail_auth_count out + 1\<rparr> else out)"

subsection \<open>The policy\<close>

definition ts_after :: "u32 \<Rightarrow> u32 \<Rightarrow> bool" where
  "ts_after a b = (a > b)"

definition ts_incr :: "u32 \<Rightarrow> u32 \<Rightarrow> u32" where
  "ts_incr ts delta = ts + delta"

definition last_admin_unlock :: "principal \<Rightarrow> u32" where
  "last_admin_unlock p =
     (case find (\<lambda>t. tl_ty t = TL_LAST_ADMIN_UNLOCK) (p_tl_data p) of
        None \<Rightarrow> 0
      | Some t \<Rightarrow>
          if length (tl_contents t) = 4 then of_nat (le_val (char_bytes (tl_contents t))) else 0)"

definition lookup_lockout_policy :: "store \<Rightarrow> principal \<Rightarrow> u32 \<times> u32 \<times> u32" where
  "lookup_lockout_policy s p =
     (case named_policy_for s p of
        None \<Rightarrow> (0, 0, 0)
      | Some pol \<Rightarrow> (np_max_fail pol, np_pw_failcnt_interval pol, np_pw_lockout_duration pol))"

definition locked_check_p :: "u32 \<Rightarrow> u32 \<Rightarrow> u32 \<Rightarrow> principal \<Rightarrow> bool" where
  "locked_check_p stamp max_fail lockout_duration p =
     (if \<not> ts_after (p_last_failed p) (last_admin_unlock p) then False
      else if max_fail = 0 \<or> p_fail_auth_count p < max_fail then False
      else if lockout_duration = 0 then True
      else ts_after (ts_incr (p_last_failed p) lockout_duration) stamp)"

definition lockout_check_policy :: "store \<Rightarrow> principal \<Rightarrow> u32 \<Rightarrow> kdc_error + unit" where
  "lockout_check_policy s p stamp =
     (if po_disable_lockout (s_policy s) then Inr ()
      else let (max_fail, _, lockout_duration) = lookup_lockout_policy s p in
           if locked_check_p stamp max_fail lockout_duration p
           then Inl (proto ERR_CLIENT_REVOKED STATUS_LOCKED_OUT)
           else Inr ())"

definition as_outcome :: "kdc_error + 'a \<Rightarrow> int" where
  "as_outcome out =
     (case out of
        Inr _ \<Rightarrow> 0
      | Inl (Protocol code _ _ _) \<Rightarrow> code
      | Inl (PreauthRequired _) \<Rightarrow> ERR_PREAUTH_REQUIRED
      | Inl _ \<Rightarrow> ERR_GENERIC)"

text \<open>The update the audit asks for: the middle part of \<open>lockout_audit\<close>, after its early returns.\<close>

definition audit_update :: "policy \<Rightarrow> u32 \<Rightarrow> principal \<Rightarrow> u32 \<Rightarrow> int \<Rightarrow> lockout_update" where
  "audit_update pol failcnt_interval p stamp status =
     (if status = 0 \<and> p_attributes p AND KDB_REQUIRES_PRE_AUTH \<noteq> 0 then
        update_default\<lparr>zero_fail_count := \<not> po_disable_lockout pol \<and> p_fail_auth_count p \<noteq> 0,
                       set_last_success := \<not> po_disable_last_success pol\<rparr>
      else if status \<noteq> 0 \<and> \<not> po_disable_lockout pol then
        (let u = update_default;
             u = (if \<not> ts_after (p_last_failed p) (last_admin_unlock p)
                  then u\<lparr>zero_fail_count := True\<rparr> else u);
             u = (if failcnt_interval \<noteq> 0
                     \<and> ts_after stamp (ts_incr (p_last_failed p) failcnt_interval)
                  then u\<lparr>zero_fail_count := True\<rparr> else u)
         in u\<lparr>set_last_failure := True\<rparr>)
      else update_default)"

text \<open>\<open>upd\<close> is the store's \<open>update_lockout\<close> on the table \<open>t\<close>.\<close>

definition lockout_audit ::
  "('t \<Rightarrow> principal \<Rightarrow> u32 \<Rightarrow> lockout_update \<Rightarrow> 't) \<Rightarrow> store \<Rightarrow> principal \<Rightarrow> u32 \<Rightarrow> int \<Rightarrow> 't \<Rightarrow> 't" where
  "lockout_audit upd s p stamp status t =
     (if status \<noteq> 0 \<and> status \<noteq> ERR_PREAUTH_FAILED \<and> status \<noteq> ERR_BAD_INTEGRITY then t
      else let (max_fail, failcnt_interval, lockout_duration) =
                 (if po_disable_lockout (s_policy s) then (0, 0, 0) else lookup_lockout_policy s p)
           in if locked_check_p stamp max_fail lockout_duration p then t
              else let u = audit_update (s_policy s) failcnt_interval p stamp status in
                   if \<not> update_is_empty u then upd t p stamp u else t)"

text \<open>A request as the AS handler sees it: the entry is looked up with its lockout record merged in,
  and the outcome is audited on that entry.  (A request without a client entry, or one parked until a one-time password
  server answers, is not audited, and is no step here.)\<close>

definition audited ::
  "('t \<Rightarrow> principal \<Rightarrow> lockout) \<Rightarrow> ('t \<Rightarrow> principal \<Rightarrow> u32 \<Rightarrow> lockout_update \<Rightarrow> 't) \<Rightarrow>
   store \<Rightarrow> principal \<Rightarrow> 't \<Rightarrow> u32 \<times> int \<Rightarrow> 't" where
  "audited look upd s p t req =
     lockout_audit upd s (set_on (look t p) p) (fst req) (snd req) t"

subsection \<open>The overlay of a store without a database file\<close>

definition overlay_lookup :: "(string \<Rightarrow> lockout option) \<Rightarrow> principal \<Rightarrow> lockout" where
  "overlay_lookup ov p = (case ov (p_id p) of Some l \<Rightarrow> l | None \<Rightarrow> lockout_of p)"

definition overlay_update ::
  "(string \<Rightarrow> lockout option) \<Rightarrow> principal \<Rightarrow> u32 \<Rightarrow> lockout_update \<Rightarrow> (string \<Rightarrow> lockout option)" where
  "overlay_update ov p stamp u =
     (let base = (case ov (p_id p) of Some l \<Rightarrow> l | None \<Rightarrow> lockout_of p) in
      ov(p_id p \<mapsto> lockout_apply u base stamp))"

subsection \<open>Basic facts\<close>

lemma set_on_id [simp]: "p_id (set_on l p) = p_id p"
  by (simp add: set_on_def p_id_def)

lemma lockout_of_set_on [simp]: "lockout_of (set_on l p) = l"
  by (simp add: set_on_def lockout_of_def)

lemma set_on_sel [simp]:
  "p_last_failed (set_on l p) = last_failed l"
  "p_fail_auth_count (set_on l p) = fail_auth_count l"
  "p_last_success (set_on l p) = last_success l"
  "p_attributes (set_on l p) = p_attributes p"
  "p_pw_policy (set_on l p) = p_pw_policy p"
  "last_admin_unlock (set_on l p) = last_admin_unlock p"
  "lookup_lockout_policy s (set_on l p) = lookup_lockout_policy s p"
  by (simp_all add: set_on_def last_admin_unlock_def lookup_lockout_policy_def named_policy_for_def)

lemma set_on_set_on [simp]: "set_on l (set_on l' p) = set_on l p"
  by (simp add: set_on_def)

lemma apply_empty: "update_is_empty u \<Longrightarrow> lockout_apply u l stamp = l"
  by (simp add: update_is_empty_def lockout_apply_def)

text \<open>The locked predicate on a record.\<close>

definition locked :: "store \<Rightarrow> principal \<Rightarrow> u32 \<Rightarrow> lockout \<Rightarrow> bool" where
  "locked s p stamp l =
     (\<not> po_disable_lockout (s_policy s) \<and>
      (case lookup_lockout_policy s p of
         (max_fail, _, duration) \<Rightarrow> locked_check_p stamp max_fail duration (set_on l p)))"

lemma locked_check_policy:
  "lockout_check_policy s (set_on l p) stamp
     = (if locked s p stamp l then Inl (proto ERR_CLIENT_REVOKED STATUS_LOCKED_OUT) else Inr ())"
  by (auto simp: lockout_check_policy_def locked_def split: prod.splits)

text \<open>The abstract audit: the next record as a function of the record alone.\<close>

definition next_record :: "store \<Rightarrow> principal \<Rightarrow> u32 \<Rightarrow> int \<Rightarrow> lockout \<Rightarrow> lockout" where
  "next_record s p stamp status l =
     (if status \<notin> {0, ERR_PREAUTH_FAILED, ERR_BAD_INTEGRITY} \<or> locked s p stamp l then l
      else lockout_apply (audit_update (s_policy s) (fst (snd (lookup_lockout_policy s p)))
             (set_on l p) stamp status) l stamp)"

lemma audit_update_interval:
  "po_disable_lockout pol \<Longrightarrow> audit_update pol i p stamp status = audit_update pol j p stamp status"
  by (simp add: audit_update_def)

lemma lockout_audit_unfold:
  "lockout_audit upd s (set_on l p) stamp status t =
     (if status \<notin> {0, ERR_PREAUTH_FAILED, ERR_BAD_INTEGRITY} \<or> locked s p stamp l then t
      else let u = audit_update (s_policy s) (fst (snd (lookup_lockout_policy s p)))
                     (set_on l p) stamp status in
           if update_is_empty u then t else upd t (set_on l p) stamp u)"
proof (cases "po_disable_lockout (s_policy s)")
  case True
  then have "audit_update (s_policy s) (fst (snd (lookup_lockout_policy s p))) q stamp st
      = audit_update (s_policy s) 0 q stamp st" for q st
    by (rule audit_update_interval)
  with True show ?thesis
    by (auto simp: lockout_audit_def locked_def locked_check_p_def Let_def)
next
  case False
  then show ?thesis
    by (simp add: lockout_audit_def locked_def Let_def split: prod.splits)
qed

subsection \<open>Counting failures\<close>

text \<open>A run of failures the policy counts together: each after the administrator's last unlock, and
  each within the failure count interval of the one before.\<close>

fun failing :: "u32 \<Rightarrow> u32 \<Rightarrow> u32 \<Rightarrow> (u32 \<times> int) list \<Rightarrow> bool" where
  "failing iv unlock prev [] = True"
| "failing iv unlock prev ((stamp, status) # rs) =
     ((status = ERR_PREAUTH_FAILED \<or> status = ERR_BAD_INTEGRITY) \<and> unlock < stamp
      \<and> (iv = 0 \<or> stamp \<le> ts_incr prev iv) \<and> failing iv unlock stamp rs)"

definition enforced :: "store \<Rightarrow> principal \<Rightarrow> u32 \<Rightarrow> u32 \<Rightarrow> u32 \<Rightarrow> bool" where
  "enforced s p m iv d =
     (\<not> po_disable_lockout (s_policy s) \<and> lookup_lockout_policy s p = (m, iv, d) \<and> m \<noteq> 0)"

lemma locked_enforced:
  "enforced s p m iv d \<Longrightarrow>
     locked s p x l \<longleftrightarrow>
       last_admin_unlock p < last_failed l \<and> m \<le> fail_auth_count l
       \<and> (d = 0 \<or> x < ts_incr (last_failed l) d)"
  by (auto simp: enforced_def locked_def locked_check_p_def ts_after_def)

lemma next_record_first:
  assumes "enforced s p m iv d" and "fail_auth_count l = 0"
    and "status = ERR_PREAUTH_FAILED \<or> status = ERR_BAD_INTEGRITY"
  shows "next_record s p x status l = l\<lparr>last_failed := x, fail_auth_count := 1\<rparr>"
proof -
  have "\<not> locked s p x l"
    using assms by (auto simp: locked_enforced enforced_def)
  then show ?thesis
    using assms by (auto simp: next_record_def audit_update_def lockout_apply_def
        update_default_def enforced_def Let_def)
qed

lemma next_record_more:
  assumes "enforced s p m iv d" and "fail_auth_count l < m" and "last_admin_unlock p < last_failed l"
    and "status = ERR_PREAUTH_FAILED \<or> status = ERR_BAD_INTEGRITY"
    and "iv = 0 \<or> x \<le> ts_incr (last_failed l) iv"
  shows "next_record s p x status l = l\<lparr>last_failed := x, fail_auth_count := fail_auth_count l + 1\<rparr>"
proof -
  have "\<not> locked s p x l"
    using assms by (auto simp: locked_enforced)
  then show ?thesis
    using assms by (auto simp: next_record_def audit_update_def lockout_apply_def
        update_default_def enforced_def ts_after_def Let_def not_less)
qed

lemma next_record_locked: "locked s p x l \<Longrightarrow> next_record s p x status l = l"
  by (simp add: next_record_def)

abbreviation next_records :: "store \<Rightarrow> principal \<Rightarrow> lockout \<Rightarrow> (u32 \<times> int) list \<Rightarrow> lockout" where
  "next_records s p \<equiv> foldl (\<lambda>l req. next_record s p (fst req) (snd req) l)"

lemma next_records_more:
  assumes "enforced s p m iv d" and "last_admin_unlock p < last_failed l"
    and "failing iv (last_admin_unlock p) (last_failed l) rs"
    and "unat (fail_auth_count l) + length rs \<le> unat m"
  shows "last_failed (next_records s p l rs) = last (last_failed l # map fst rs)
    \<and> unat (fail_auth_count (next_records s p l rs)) = unat (fail_auth_count l) + length rs
    \<and> last_admin_unlock p < last_failed (next_records s p l rs)"
  using assms(2-)
proof (induction rs arbitrary: l)
  case Nil
  then show ?case by simp
next
  case (Cons r rs)
  obtain x st where r: "r = (x, st)" by fastforce
  have lt: "fail_auth_count l < m"
    using Cons.prems by (simp add: word_less_nat_alt)
  have nx: "next_record s p x st l = l\<lparr>last_failed := x, fail_auth_count := fail_auth_count l + 1\<rparr>"
    using Cons.prems lt by (intro next_record_more [OF assms(1)]) (auto simp: r)
  have suc: "unat (fail_auth_count l + 1) = unat (fail_auth_count l) + 1"
    using lt unat_less_pow [of m] by (simp add: unat_word_ariths word_less_nat_alt)
  show ?case
    using Cons.prems Cons.IH [of "next_record s p x st l"] by (auto simp: r nx suc)
qed

lemma next_records_locked:
  assumes "enforced s p m iv d" and "last_admin_unlock p < last_failed l" and "m \<le> fail_auth_count l"
    and "\<forall>r \<in> set rs. d = 0 \<or> fst r < ts_incr (last_failed l) d"
  shows "next_records s p l rs = l"
  using assms(4)
proof (induction rs)
  case Nil
  then show ?case by simp
next
  case (Cons r rs)
  then have "locked s p (fst r) l"
    using assms by (auto simp: locked_enforced)
  then show ?case
    using Cons by (simp add: next_record_locked)
qed

lemma next_records_count:
  assumes "enforced s p m iv d" and "fail_auth_count l = 0"
    and "failing iv (last_admin_unlock p) (fst r) rs" and "last_admin_unlock p < fst r"
    and "snd r = ERR_PREAUTH_FAILED \<or> snd r = ERR_BAD_INTEGRITY" and "Suc (length rs) \<le> unat m"
  shows "last_failed (next_records s p l (r # rs)) = fst (last (r # rs))
    \<and> unat (fail_auth_count (next_records s p l (r # rs))) = Suc (length rs)"
  using next_records_more [OF assms(1), of "l\<lparr>last_failed := fst r, fail_auth_count := 1\<rparr>" rs] assms
  by (simp add: next_record_first last_map)

subsection \<open>Interface: a lockout table\<close>

locale lockout_table =
  fixes look :: "'t \<Rightarrow> principal \<Rightarrow> lockout"
    and upd :: "'t \<Rightarrow> principal \<Rightarrow> u32 \<Rightarrow> lockout_update \<Rightarrow> 't"
    and good :: "'t \<Rightarrow> bool"
    and keyed :: "string \<Rightarrow> bool"
  assumes look_upd: "good t \<Longrightarrow> keyed (p_id p) \<Longrightarrow> p_id q = p_id p \<Longrightarrow>
             look (upd t p stamp u) q = lockout_apply u (look t p) stamp"
    and look_upd_other: "good t \<Longrightarrow> keyed (p_id p) \<Longrightarrow> p_id q \<noteq> p_id p \<Longrightarrow>
             look (upd t p stamp u) q = look t q"
    and good_upd: "good t \<Longrightarrow> keyed (p_id p) \<Longrightarrow> good (upd t p stamp u)"
    and look_merged: "good t \<Longrightarrow> look t (set_on (look t p) p) = look t p"
begin

lemma audited_good: "good t \<Longrightarrow> keyed (p_id p) \<Longrightarrow> good (audited look upd s p t req)"
  by (simp add: audited_def lockout_audit_unfold Let_def good_upd)

lemma audited_look:
  assumes "good t" and "keyed (p_id p)"
  shows "look (audited look upd s p t req) p = next_record s p (fst req) (snd req) (look t p)"
  using assms by (auto simp: audited_def lockout_audit_unfold next_record_def Let_def look_upd
      look_merged apply_empty)

lemma audited_other:
  assumes "good t" and "keyed (p_id p)" and "p_id q \<noteq> p_id p"
  shows "look (audited look upd s p t req) q = look t q"
  using assms by (simp add: audited_def lockout_audit_unfold Let_def look_upd_other)

lemma run_good:
  "good t \<Longrightarrow> keyed (p_id p) \<Longrightarrow> good (foldl (audited look upd s p) t reqs)"
  by (induction reqs arbitrary: t) (simp_all add: audited_good)

lemma run_look:
  assumes "good t" and "keyed (p_id p)"
  shows "look (foldl (audited look upd s p) t reqs) p
           = foldl (\<lambda>l req. next_record s p (fst req) (snd req) l) (look t p) reqs"
  using assms by (induction reqs arbitrary: t) (simp_all add: audited_good audited_look)

lemma run_other:
  assumes "good t" and "keyed (p_id p)" and "p_id q \<noteq> p_id p"
  shows "look (foldl (audited look upd s p) t reqs) q = look t q"
  using assms by (induction reqs arbitrary: t) (simp_all add: audited_good audited_other)

lemma run_locks:
  assumes "good t" and "keyed (p_id p)" and "enforced s p m iv d" and "fail_auth_count (look t p) = 0"
    and "failing iv (last_admin_unlock p) (fst r) rs" and "last_admin_unlock p < fst r"
    and "snd r = ERR_PREAUTH_FAILED \<or> snd r = ERR_BAD_INTEGRITY"
  shows "Suc (length rs) < unat m \<Longrightarrow>
           lockout_check_policy s (set_on (look (foldl (audited look upd s p) t (r # rs)) p) p) x = Inr ()"
    and "Suc (length rs) = unat m \<Longrightarrow>
         \<forall>y \<in> insert x (fst ` set later). d = 0 \<or> y < ts_incr (fst (last (r # rs))) d \<Longrightarrow>
           lockout_check_policy s (set_on (look (foldl (audited look upd s p) t (r # rs @ later)) p) p) x
             = Inl (proto ERR_CLIENT_REVOKED STATUS_LOCKED_OUT)"
proof -
  let ?l = "next_records s p (look t p) (r # rs)"
  {
    assume n: "Suc (length rs) < unat m"
    then have "unat (fail_auth_count ?l) < unat m"
      using next_records_count [OF assms(3-)] by (simp add: le_eq_less_or_eq)
    then have "\<not> locked s p x ?l"
      using assms(3) by (simp add: locked_enforced word_le_nat_alt del: foldl_Cons)
    then show "lockout_check_policy s (set_on (look (foldl (audited look upd s p) t (r # rs)) p) p) x
        = Inr ()"
      using run_look [OF assms(1,2)] by (simp add: locked_check_policy del: foldl_Cons)
  }
  {
    assume n: "Suc (length rs) = unat m"
      and h: "\<forall>y \<in> insert x (fst ` set later). d = 0 \<or> y < ts_incr (fst (last (r # rs))) d"
    have l: "last_failed ?l = fst (last (r # rs))" "unat (fail_auth_count ?l) = unat m"
      using next_records_count [OF assms(3-)] n by (simp_all del: foldl_Cons)
    have u: "last_admin_unlock p < last_failed ?l"
    proof -
      have "last_admin_unlock p < fst (last (r # rs))"
        using assms(5,6) by (induction rs arbitrary: r rule: list.induct) auto
      then show ?thesis using l by simp
    qed
    have m: "m \<le> fail_auth_count ?l"
      using l by (simp add: word_le_nat_alt)
    have "next_records s p ?l later = ?l"
      using h l by (intro next_records_locked [OF assms(3) u m]) (auto simp del: foldl_Cons last.simps)
    then have "look (foldl (audited look upd s p) t (r # rs @ later)) p = ?l"
      using run_look [OF assms(1,2), of s "r # rs @ later"] by simp
    moreover have "locked s p x ?l"
      using h l u m assms(3) by (auto simp: locked_enforced simp del: foldl_Cons last.simps)
    ultimately show "lockout_check_policy s
        (set_on (look (foldl (audited look upd s p) t (r # rs @ later)) p) p) x
          = Inl (proto ERR_CLIENT_REVOKED STATUS_LOCKED_OUT)"
      by (simp add: locked_check_policy del: foldl_Cons)
  }
qed

end

interpretation ov: lockout_table overlay_lookup overlay_update "\<lambda>_. True" "\<lambda>_. True"
  by unfold_locales (auto simp: overlay_lookup_def overlay_update_def split: option.splits)

end
