(* ===== verification/Lockout_File.thy ===== *)
theory Lockout_File
  imports Lockout
begin

text \<open>
  The lockout side file (\<open>crates/krb5-kdc/src/lockout/file.rs\<close>): its record lines with their CRC, the
  index built from the file, and the updates made in place.  The file is the string of its octets; an
  open side file is the record \<open>side_file\<close> of the octets and the index.  Opening, locking, device
  numbers and I/O failures are not modelled: an operation is the one on a file that can be read and
  written.
\<close>

subsection \<open>CRC\<close>

definition crc_bit :: "u32 \<Rightarrow> u32" where
  "crc_bit c = (if c AND 1 = 1 then 0xEDB88320 XOR drop_bit 1 c else drop_bit 1 c)"

definition crc_table :: "u32 list" where
  "crc_table = map (\<lambda>n. (crc_bit ^^ 8) (of_nat n)) [0..<256]"

definition crc32 :: "bytes \<Rightarrow> u32" where
  "crc32 bs =
     NOT (foldl (\<lambda>c b. crc_table ! unat ((ucast c :: u8) XOR b) XOR drop_bit 8 c) (NOT 0) bs)"

definition checksum :: "string \<Rightarrow> string \<Rightarrow> u32" where
  "checksum values name = crc32 (char_bytes (values @ '' '' @ name))"

subsection \<open>Lines\<close>

abbreviation (input) FIELD :: nat where "FIELD \<equiv> 10"
abbreviation (input) VALUES :: nat where "VALUES \<equiv> 32"
abbreviation (input) HEAD :: nat where "HEAD \<equiv> 41"
abbreviation (input) DELETED :: char where "DELETED \<equiv> CHR ''#''"

definition HEADER :: string where
  "HEADER = ''kerber-rust lockout 1'' @ [CHR 0x0A]"

definition head_values :: "lockout \<Rightarrow> string" where
  "head_values l =
     pad_digits 10 10 (unat (last_success l)) @ '' '' @ pad_digits 10 10 (unat (last_failed l)) @ '' ''
     @ pad_digits 10 10 (unat (fail_auth_count l))"

definition head :: "string \<Rightarrow> lockout \<Rightarrow> string" where
  "head pid l = head_values l @ '' '' @ pad_digits 16 8 (unat (checksum (head_values l) pid))"

definition record_line :: "string \<Rightarrow> lockout \<Rightarrow> string" where
  "record_line pid l = head pid l @ '' '' @ pid @ [CHR 0x0A]"

definition render :: "(string \<times> lockout) list \<Rightarrow> string" where
  "render records = HEADER @ concat (map (\<lambda>(pid, l). record_line pid l) records)"

text \<open>\<open>slice.get(i)\<close> and \<open>slice.get(a..b)\<close>.\<close>

definition get_at :: "'a list \<Rightarrow> nat \<Rightarrow> 'a option" where
  "get_at xs i = (if i < length xs then Some (xs ! i) else None)"

definition get_range :: "'a list \<Rightarrow> nat \<Rightarrow> nat \<Rightarrow> 'a list option" where
  "get_range xs a b = (if a \<le> b \<and> b \<le> length xs then Some (take (b - a) (drop a xs)) else None)"

definition field :: "string \<Rightarrow> nat \<Rightarrow> u32 option" where
  "field line i =
     (let start = i * (FIELD + 1) in
      case get_range line start (start + FIELD) of
        None \<Rightarrow> None
      | Some ds \<Rightarrow>
          if \<not> list_all is_ascii_digit ds then None
          else (case parse_unsigned (2 ^ 32) ds of None \<Rightarrow> None | Some n \<Rightarrow> Some (of_nat n)))"

definition is_lower_hex :: "char \<Rightarrow> bool" where
  "is_lower_hex b = (is_ascii_digit b \<or> 97 \<le> ord_of b \<and> ord_of b \<le> 102)"

definition parse_line :: "string \<Rightarrow> (lockout \<times> string) option" where
  "parse_line line =
     (if \<not> list_all (\<lambda>at. get_at line at = Some (CHR '' '')) [FIELD, 2 * FIELD + 1, VALUES, HEAD] then None
      else case get_range line (VALUES + 1) HEAD of
        None \<Rightarrow> None
      | Some sm \<Rightarrow>
          if \<not> list_all is_lower_hex sm then None
          else if HEAD + 1 > length line then None
          else let name = drop (HEAD + 1) line in
            if name = [] then None
            else case from_str_radix16 (2 ^ 32) sm of
              None \<Rightarrow> None
            | Some want \<Rightarrow>
                if checksum (take VALUES line) name \<noteq> of_nat want then None
                else case (field line 0, field line 1, field line 2) of
                  (Some s, Some f, Some c) \<Rightarrow>
                    (case from_utf8 name of None \<Rightarrow> None
                     | Some n \<Rightarrow>
                         Some (\<lparr>last_success = s, last_failed = f, fail_auth_count = c\<rparr>, n))
                | _ \<Rightarrow> None)"

subsection \<open>The index\<close>

record findex =
  ix_records :: "string \<Rightarrow> (nat \<times> lockout) option"
  ix_dead :: nat
  ix_len :: nat
  ix_whole :: bool
  ix_foreign :: bool

text \<open>\<open>split_inclusive\<close> at newlines.\<close>

fun split_incl :: "string \<Rightarrow> string list" where
  "split_incl [] = []"
| "split_incl (c # cs) =
     (if c = CHR 0x0A then [c] # split_incl cs
      else case split_incl cs of [] \<Rightarrow> [[c]] | l # ls \<Rightarrow> (c # l) # ls)"

definition index_line :: "findex \<times> nat \<Rightarrow> string \<Rightarrow> findex \<times> nat" where
  "index_line s line =
     (let (ix, at) = s; off = at + length line in
      case Option.bind (strip_suffix [CHR 0x0A] line) parse_line of
        Some (l, name) \<Rightarrow>
          (ix\<lparr>ix_records := (ix_records ix)(name \<mapsto> (at, l)),
             ix_dead := ix_dead ix + (if ix_records ix name \<noteq> None then 1 else 0)\<rparr>, off)
      | None \<Rightarrow> (ix\<lparr>ix_dead := ix_dead ix + 1\<rparr>, off))"

definition index_body :: "findex \<Rightarrow> string \<Rightarrow> nat \<Rightarrow> findex" where
  "index_body ix body start = fst (foldl index_line (ix, start) (split_incl body))"

definition ends_line :: "string \<Rightarrow> bool" where
  "ends_line bs = (bs = [] \<or> last bs = CHR 0x0A)"

definition index_start :: "string \<Rightarrow> findex" where
  "index_start bs =
     \<lparr>ix_records = Map.empty, ix_dead = 0, ix_len = length bs, ix_whole = ends_line bs,
      ix_foreign = False\<rparr>"

definition index :: "string \<Rightarrow> findex" where
  "index bs =
     (let ix = index_start bs in
      if bs = [] then ix
      else case strip_prefix HEADER bs of
        None \<Rightarrow> ix\<lparr>ix_foreign := True\<rparr>
      | Some body \<Rightarrow> index_body ix body (length HEADER))"

subsection \<open>The open side file\<close>

record side_file =
  sf_bytes :: string
  sf_ix :: findex

text \<open>\<open>write_all_at\<close>: overwrite from an offset, extending the file (a gap reads as zero octets).\<close>

definition write_at :: "string \<Rightarrow> string \<Rightarrow> nat \<Rightarrow> string" where
  "write_at bs new at =
     take at bs @ replicate (at - length bs) (CHR 0x00) @ new @ drop (at + length new) bs"

definition side_open :: "string \<Rightarrow> side_file" where
  "side_open bs = \<lparr>sf_bytes = bs, sf_ix = index bs\<rparr>"

definition reindex :: "side_file \<Rightarrow> side_file" where
  "reindex f = f\<lparr>sf_ix := index (sf_bytes f)\<rparr>"

definition extend :: "side_file \<Rightarrow> nat \<Rightarrow> side_file" where
  "extend f to =
     (let from = ix_len (sf_ix f);
          buf = take (to - from) (drop from (sf_bytes f));
          ix = index_body (sf_ix f) buf from
      in f\<lparr>sf_ix := ix\<lparr>ix_len := from + length buf, ix_whole := ends_line buf\<rparr>\<rparr>)"

text \<open>The same file as seen again by \<open>refresh\<close>: only the length tells what to read.\<close>

definition refresh :: "side_file \<Rightarrow> side_file" where
  "refresh f =
     (let len = length (sf_bytes f); ix = sf_ix f in
      if len > ix_len ix \<and> ix_len ix > 0 \<and> ix_whole ix \<and> \<not> ix_foreign ix then extend f len
      else if len \<noteq> ix_len ix then reindex f
      else f)"

definition record_at :: "side_file \<Rightarrow> nat \<Rightarrow> string \<Rightarrow> lockout option" where
  "record_at f at pid =
     (let buf = take (HEAD + length pid + 2) (drop at (sf_bytes f)) in
      case Option.bind (strip_suffix [CHR 0x0A] buf) parse_line of
        None \<Rightarrow> None
      | Some (l, name) \<Rightarrow> if name = pid then Some l else None)"

definition locate :: "side_file \<Rightarrow> string \<Rightarrow> side_file \<times> (nat \<times> lockout) option" where
  "locate f pid =
     (case ix_records (sf_ix f) pid of
        None \<Rightarrow> (f, None)
      | Some (at, _) \<Rightarrow>
          (case record_at f at pid of
             Some l \<Rightarrow> (f, Some (at, l))
           | None \<Rightarrow>
               (let f' = reindex f in
                case ix_records (sf_ix f') pid of
                  None \<Rightarrow> (f', None)
                | Some (at', _) \<Rightarrow> (f', map_option (\<lambda>l. (at', l)) (record_at f' at' pid)))))"

definition side_get :: "side_file \<Rightarrow> string \<Rightarrow> side_file \<times> lockout option" where
  "side_get f pid = (let (f', r) = locate f pid in (f', map_option snd r))"

text \<open>Where \<open>put\<close> adds a line: behind a header it writes first, or behind a line it ends first.\<close>

definition put_line :: "side_file \<Rightarrow> string \<Rightarrow> lockout \<Rightarrow> side_file" where
  "put_line f pid l =
     (let at = ix_len (sf_ix f);
          (f, at) =
            (if at = 0 then (f\<lparr>sf_bytes := write_at (sf_bytes f) HEADER 0\<rparr>, length HEADER)
             else if \<not> ix_whole (sf_ix f)
             then (f\<lparr>sf_bytes := write_at (sf_bytes f) [CHR 0x0A] at,
                     sf_ix := (sf_ix f)\<lparr>ix_dead := ix_dead (sf_ix f) + 1\<rparr>\<rparr>, at + 1)
             else (f, at));
          line = record_line pid l
      in f\<lparr>sf_bytes := write_at (sf_bytes f) line at,
           sf_ix := (sf_ix f)\<lparr>ix_len := at + length line, ix_whole := True,
                              ix_records := (ix_records (sf_ix f))(pid \<mapsto> (at, l))\<rparr>\<rparr>)"

definition side_put :: "side_file \<Rightarrow> string \<Rightarrow> lockout \<Rightarrow> side_file" where
  "side_put f pid l =
     (case locate f pid of
        (f, Some (at, have)) \<Rightarrow>
          f\<lparr>sf_bytes := (if have \<noteq> l then write_at (sf_bytes f) (head pid l) at else sf_bytes f),
            sf_ix := (sf_ix f)\<lparr>ix_records := (ix_records (sf_ix f))(pid \<mapsto> (at, l))\<rparr>\<rparr>
      | (f, None) \<Rightarrow> put_line f pid l)"

definition side_delete :: "side_file \<Rightarrow> string \<Rightarrow> side_file" where
  "side_delete f pid =
     (case locate f pid of
        (f, Some (at, _)) \<Rightarrow>
          f\<lparr>sf_bytes := write_at (sf_bytes f) [DELETED] at,
            sf_ix := (sf_ix f)\<lparr>ix_records := (ix_records (sf_ix f))(pid := None),
                               ix_dead := ix_dead (sf_ix f) + 1\<rparr>\<rparr>
      | (f, None) \<Rightarrow> f)"

definition side_rewrite :: "(string \<times> lockout) list \<Rightarrow> side_file" where
  "side_rewrite records = side_open (render records)"

definition side_records :: "side_file \<Rightarrow> string \<Rightarrow> lockout option" where
  "side_records f pid = map_option snd (ix_records (sf_ix f) pid)"

text \<open>\<open>record\<close>, and \<open>LockoutState::lookup\<close> and \<open>update\<close> on a side file that is open and writable.\<close>

definition side_record :: "side_file \<Rightarrow> string \<Rightarrow> principal \<Rightarrow> u32 \<Rightarrow> lockout_update \<Rightarrow> side_file" where
  "side_record f pid p stamp u =
     (let (f, got) = side_get f pid;
          base = (case got of Some l \<Rightarrow> l | None \<Rightarrow> lockout_of p)
      in side_put f pid (lockout_apply u base stamp))"

definition file_lookup :: "side_file \<Rightarrow> principal \<Rightarrow> lockout" where
  "file_lookup f p =
     (case snd (side_get (refresh f) (p_id p)) of Some l \<Rightarrow> l | None \<Rightarrow> lockout_of p)"

definition file_update :: "side_file \<Rightarrow> principal \<Rightarrow> u32 \<Rightarrow> lockout_update \<Rightarrow> side_file" where
  "file_update f p stamp u = side_record (refresh f) (p_id p) p stamp u"

subsection \<open>The CRC table\<close>

lemma crc_bit_alt: "crc_bit c = (if bit c 0 then 0xEDB88320 XOR drop_bit 1 c else drop_bit 1 c)"
  by (simp add: crc_bit_def and_one_eq bit_0 odd_iff_mod_2_eq_one)

lemma crc_bit_xor: "crc_bit (a XOR b) = crc_bit a XOR crc_bit b"
proof -
  have "(if x \<noteq> y then p XOR (d XOR e) else d XOR e)
      = (if x then p XOR d else d) XOR (if y then p XOR e else e)" for x y and p d e :: u32
    by (rule bit_eqI) (auto simp: bit_xor_iff)
  then show ?thesis
    by (simp only: crc_bit_alt bit_xor_iff drop_bit_xor)
qed

lemma crc_bits_xor: "(crc_bit ^^ n) (a XOR b) = (crc_bit ^^ n) a XOR (crc_bit ^^ n) b"
  by (induction n) (simp_all add: crc_bit_xor)

lemma crc_bits_zeros: "take_bit n c = 0 \<Longrightarrow> (crc_bit ^^ n) c = drop_bit n c"
proof (induction n arbitrary: c)
  case 0
  then show ?case by simp
next
  case (Suc n)
  have z: "\<not> bit c i" if "i \<le> n" for i
    using Suc.prems that by (metis bit_0_eq bit_take_bit_iff bot_apply bot_bool_def le_imp_less_Suc)
  have "crc_bit c = drop_bit 1 c"
    using z [of 0] by (simp add: crc_bit_alt)
  moreover have "take_bit n (drop_bit 1 c) = 0"
    using z by (intro bit_eqI) (auto simp: bit_take_bit_iff bit_drop_bit_eq)
  ultimately show ?case
    using Suc.IH [of "drop_bit 1 c"] by (simp add: funpow_Suc_right del: funpow.simps)
qed

lemma crc_table_nth: "crc_table ! unat (b :: u8) = (crc_bit ^^ 8) (ucast b)"
proof -
  have "unat b < 256"
    using unat_less_pow [of b] by simp
  then show ?thesis
    by (simp add: crc_table_def del: funpow.simps upt.simps)
qed

lemma crc_byte_step:
  "crc_table ! unat ((ucast c :: u8) XOR b) XOR drop_bit 8 c = (crc_bit ^^ 8) (c XOR ucast b)"
proof -
  define lo :: u32 where "lo = ucast ((ucast c :: u8) XOR b)"
  define hi :: u32 where "hi = push_bit 8 (drop_bit 8 c)"
  have split: "c XOR ucast b = lo XOR hi"
    by (rule bit_eqI) (auto simp: lo_def hi_def bit_xor_iff bit_push_bit_iff bit_drop_bit_eq
        bit_ucast_iff bit_simps)
  have "(crc_bit ^^ 8) hi = drop_bit 8 hi"
    by (rule crc_bits_zeros) (simp add: hi_def take_bit_push_bit)
  also have "\<dots> = drop_bit 8 c"
    by (rule bit_eqI) (auto simp: hi_def bit_simps dest: bit_imp_le_length)
  finally show ?thesis
    by (simp add: crc_table_nth split crc_bits_xor lo_def del: funpow.simps)
qed

text \<open>The reference: the reflected CRC, one bit at a time.\<close>

definition crc_ref :: "bytes \<Rightarrow> u32" where
  "crc_ref bs = NOT (foldl (\<lambda>c b. (crc_bit ^^ 8) (c XOR ucast b)) (NOT 0) bs)"

lemma crc32_ref: "crc32 bs = crc_ref bs"
  by (simp only: crc32_def crc_ref_def crc_byte_step)

subsection \<open>A line reads back\<close>

definition line_key :: "string \<Rightarrow> bool" where
  "line_key pid = (pid \<noteq> [] \<and> CHR 0x0A \<notin> set pid \<and> utf8_valid pid)"

lemma length_head_values [simp]: "length (head_values l) = 32"
  by (simp add: head_values_def)

lemma length_head [simp]: "length (head pid l) = 41"
  by (simp add: head_def)

lemma length_record_line [simp]: "length (record_line pid l) = length pid + 43"
  by (simp add: record_line_def)

lemma u32_lt: "unat (w :: u32) < 4294967296"
  using unat_less_pow [of w] by simp

lemma parse_u32_pad: "parse_unsigned 4294967296 (pad_digits 10 10 (unat (w :: u32))) = Some (unat w)"
  using u32_lt [of w] by (intro parse_unsigned_pad) simp_all

lemma radix16_pad: "from_str_radix16 4294967296 (pad_digits 16 8 (unat (w :: u32))) = Some (unat w)"
  using u32_lt [of w] by (intro from_str_radix16_pad) simp_all

lemma digit_char_hex: "d < 16 \<Longrightarrow> is_lower_hex (digit_char d)"
  by (auto simp: is_lower_hex_def digit_char_def is_ascii_digit_def)

lemma pad_lower_hex: "list_all is_lower_hex (pad_digits 16 n v)"
  using pad_digits_hex digit_char_hex by (fastforce simp: list_all_iff)

lemma pad_all_digits: "list_all is_ascii_digit (pad_digits 10 n v)"
  using pad_digits_decimal by (fastforce simp: list_all_iff)

lemma field_at:
  assumes "line = a @ pad_digits 10 10 (unat (w :: u32)) @ r" and "length a = i * 11"
  shows "field line i = Some w"
  using assms by (simp add: field_def get_range_def pad_all_digits parse_u32_pad Let_def)

lemma parse_head:
  assumes "line_key pid"
  shows "parse_line (head pid l @ '' '' @ pid) = Some (l, pid)"
proof -
  let ?line = "head pid l @ '' '' @ pid"
  let ?d = "\<lambda>w :: u32. pad_digits 10 10 (unat w)"
  have parts: "?line = ?d (last_success l) @ '' '' @ ?d (last_failed l) @ '' '' @ ?d (fail_auth_count l)
      @ '' '' @ pad_digits 16 8 (unat (checksum (head_values l) pid)) @ '' '' @ pid"
    by (simp add: head_def head_values_def)
  have sp: "list_all (\<lambda>at. get_at ?line at = Some (CHR '' '')) [10, 2 * 10 + 1, 32, 41]"
    unfolding parts by (simp add: get_at_def nth_append)
  have sum: "get_range ?line 33 41 = Some (pad_digits 16 8 (unat (checksum (head_values l) pid)))"
    unfolding parts by (simp add: get_range_def)
  have f: "field ?line 0 = Some (last_success l)" "field ?line 1 = Some (last_failed l)"
      "field ?line 2 = Some (fail_auth_count l)"
    unfolding parts
      by (rule field_at [of _ "[]"], simp, simp,
          rule field_at [of _ "?d (last_success l) @ '' ''"], simp, simp,
          rule field_at [of _ "?d (last_success l) @ '' '' @ ?d (last_failed l) @ '' ''"], simp, simp)
  have v: "take 32 ?line = head_values l" and n: "drop 42 ?line = pid"
    by (simp_all add: head_def)
  show ?thesis
    using assms sp sum f v n
    by (simp add: parse_line_def Let_def pad_lower_hex radix16_pad from_utf8_def line_key_def)
qed

subsection \<open>Lines of a file\<close>

definition is_line :: "string \<Rightarrow> bool" where
  "is_line l = (l \<noteq> [] \<and> last l = CHR 0x0A \<and> CHR 0x0A \<notin> set (butlast l))"

definition parsed :: "string \<Rightarrow> (lockout \<times> string) option" where
  "parsed l = Option.bind (strip_suffix [CHR 0x0A] l) parse_line"

fun scan :: "nat \<Rightarrow> string list \<Rightarrow> (string \<times> (nat \<times> lockout)) list" where
  "scan at [] = []"
| "scan at (l # ls) =
     (case parsed l of None \<Rightarrow> [] | Some (r, name) \<Rightarrow> [(name, (at, r))]) @ scan (at + length l) ls"

lemma is_lineE:
  assumes "is_line l"
  obtains b where "l = b @ [CHR 0x0A]" and "CHR 0x0A \<notin> set b"
  using assms by (metis append_butlast_last_id is_line_def)

lemma split_incl_line: "CHR 0x0A \<notin> set b \<Longrightarrow> split_incl (b @ CHR 0x0A # s) = (b @ [CHR 0x0A]) # split_incl s"
  by (induction b) auto

lemma split_incl_concat: "list_all is_line ls \<Longrightarrow> split_incl (concat ls) = ls"
proof (induction ls)
  case (Cons l ls)
  then obtain b where "l = b @ [CHR 0x0A]" "CHR 0x0A \<notin> set b"
    by (auto elim: is_lineE)
  with Cons show ?case
    by (simp add: split_incl_line)
qed simp

lemma split_incl_eq_Nil [simp]: "split_incl s = [] \<longleftrightarrow> s = []"
  by (cases s) (auto split: list.splits)

lemma split_incl_lines: "ends_line s \<Longrightarrow> list_all is_line (split_incl s) \<and> concat (split_incl s) = s"
proof (induction s)
  case (Cons c cs)
  then have e: "cs \<noteq> [] \<Longrightarrow> ends_line cs" "cs = [] \<Longrightarrow> c = CHR 0x0A"
    by (auto simp: ends_line_def split: if_splits)
  show ?case
  proof (cases "cs = []")
    case True
    with e show ?thesis by (simp add: is_line_def)
  next
    case False
    then obtain l ls where s: "split_incl cs = l # ls"
      by (meson neq_Nil_conv split_incl_eq_Nil)
    then show ?thesis
      using Cons.IH e(1) False by (auto simp: is_line_def)
  qed
qed simp

lemma scan_append: "scan at (xs @ ys) = scan at xs @ scan (at + length (concat xs)) ys"
  by (induction xs arbitrary: at) (simp_all add: add.assoc)

lemma length_scan: "length (scan at ls) \<le> length ls"
  by (induction at ls rule: scan.induct) (auto split: option.split)

lemma in_scan_split:
  assumes "(name, (pos, r)) \<in> set (scan at ls)"
  obtains ls1 l ls2 where "ls = ls1 @ l # ls2" and "pos = at + length (concat ls1)"
    and "parsed l = Some (r, name)"
  using assms
proof (induction ls arbitrary: at thesis)
  case (Cons l ls)
  show ?case
  proof (cases "(name, (pos, r)) \<in> set (scan (at + length l) ls)")
    case True
    then obtain ls1 l' ls2 where "ls = ls1 @ l' # ls2" "pos = at + length l + length (concat ls1)"
      "parsed l' = Some (r, name)"
      using Cons.IH by blast
    then show ?thesis
      using Cons.prems(1) [of "l # ls1" l' ls2] by simp
  next
    case False
    then have "parsed l = Some (r, name)" "pos = at"
      using Cons.prems(2) by (auto split: option.splits)
    then show ?thesis
      using Cons.prems(1) [of "[]" l ls] by simp
  qed
qed simp

lemma index_lines:
  assumes "distinct (map fst (scan at ls))" and "\<forall>e \<in> set (scan at ls). ix_records ix (fst e) = None"
  shows "foldl index_line (ix, at) ls =
    (ix\<lparr>ix_records := ix_records ix ++ map_of (scan at ls),
        ix_dead := ix_dead ix + (length ls - length (scan at ls))\<rparr>, at + length (concat ls))"
  using assms
proof (induction ls arbitrary: at ix)
  case Nil
  then show ?case by simp
next
  case (Cons l ls)
  show ?case
  proof (cases "parsed l")
    case None
    then have "index_line (ix, at) l = (ix\<lparr>ix_dead := ix_dead ix + 1\<rparr>, at + length l)"
      by (simp add: index_line_def parsed_def)
    then show ?thesis
      using None Cons length_scan [of "at + length l" ls] by (simp add: Suc_diff_le add.assoc)
  next
    case (Some rn)
    obtain r n where rn: "rn = (r, n)" by fastforce
    have new: "ix_records ix n = None" and fresh: "n \<notin> fst ` set (scan (at + length l) ls)"
      using Cons.prems Some rn by auto
    define ix' where "ix' = ix\<lparr>ix_records := (ix_records ix)(n \<mapsto> (at, r))\<rparr>"
    have step: "index_line (ix, at) l = (ix', at + length l)"
      using Some rn new by (simp add: index_line_def parsed_def ix'_def)
    have "\<forall>e \<in> set (scan (at + length l) ls). ix_records ix' (fst e) = None"
      using Cons.prems(2) fresh Some rn by (auto simp: ix'_def rev_image_eqI)
    then have ih: "foldl index_line (ix', at + length l) ls =
        (ix'\<lparr>ix_records := ix_records ix' ++ map_of (scan (at + length l) ls),
             ix_dead := ix_dead ix' + (length ls - length (scan (at + length l) ls))\<rparr>,
         at + length l + length (concat ls))"
      using Cons.prems(1) Some rn by (intro Cons.IH) auto
    have none: "map_of (scan (at + length l) ls) n = None"
      using fresh by (simp add: map_of_eq_None_iff)
    have recs: "ix_records ix' ++ map_of (scan (at + length l) ls)
        = ix_records ix ++ map_of (scan at (l # ls))"
      using none Some rn by (auto simp: ix'_def map_add_def fun_eq_iff split: option.split)
    have lens: "length (scan at (l # ls)) = Suc (length (scan (at + length l) ls))"
      using Some rn by simp
    have ix': "ix_dead ix' = ix_dead ix"
      "ix'\<lparr>ix_records := R, ix_dead := D\<rparr> = ix\<lparr>ix_records := R, ix_dead := D\<rparr>" for R D
      by (simp_all add: ix'_def)
    show ?thesis
      unfolding lens by (simp add: step ih ix' recs add.assoc del: scan.simps)
  qed
qed

subsection \<open>The files the code writes\<close>

text \<open>\<open>lines_ok ls\<close>: whole lines, no two records under one name.  \<open>file_of ls\<close> is the side file that holds
  them, with the index a fresh read computes.\<close>

abbreviation hlen :: nat where "hlen \<equiv> length HEADER"

definition lines_ok :: "string list \<Rightarrow> bool" where
  "lines_ok ls = (list_all is_line ls \<and> distinct (map fst (scan hlen ls)))"

definition file_of :: "string list \<Rightarrow> side_file" where
  "file_of ls =
     \<lparr>sf_bytes = HEADER @ concat ls,
      sf_ix = \<lparr>ix_records = map_of (scan hlen ls), ix_dead = length ls - length (scan hlen ls),
               ix_len = hlen + length (concat ls), ix_whole = True, ix_foreign = False\<rparr>\<rparr>"

lemma ends_line_file: "list_all is_line ls \<Longrightarrow> ends_line (HEADER @ concat ls)"
  by (cases ls rule: rev_cases) (auto simp: ends_line_def is_line_def HEADER_def)

lemma HEADER_ne [simp]: "HEADER \<noteq> []"
  by (simp add: HEADER_def)

lemma strip_prefix_append [simp]: "strip_prefix p (p @ s) = Some s"
  by (simp add: strip_prefix_eq_Some)

lemma side_open_file: "lines_ok ls \<Longrightarrow> side_open (HEADER @ concat ls) = file_of ls"
  by (simp add: side_open_def index_def Let_def index_start_def index_body_def split_incl_concat
      lines_ok_def ends_line_file index_lines file_of_def)

definition side_ok :: "side_file \<Rightarrow> bool" where
  "side_ok f =
     (sf_ix f = index (sf_bytes f) \<and> ix_whole (sf_ix f) \<and> \<not> ix_foreign (sf_ix f) \<and>
      distinct (map fst (scan hlen (split_incl (drop hlen (sf_bytes f))))))"

lemma side_ok_file_of: "lines_ok ls \<Longrightarrow> side_ok (file_of ls)"
  using side_open_file [of ls]
  by (auto simp: side_ok_def side_open_def file_of_def lines_ok_def split_incl_concat)

lemma side_ok_empty: "side_ok (side_open [])"
  by (simp add: side_ok_def side_open_def index_def index_start_def ends_line_def Let_def)

lemma index_body_whole [simp]:
  "ix_whole (index_body ix b at) = ix_whole ix" "ix_len (index_body ix b at) = ix_len ix"
  "ix_foreign (index_body ix b at) = ix_foreign ix"
proof -
  have "ix_whole (fst (foldl index_line (ix, at) ls)) = ix_whole ix
      \<and> ix_len (fst (foldl index_line (ix, at) ls)) = ix_len ix
      \<and> ix_foreign (fst (foldl index_line (ix, at) ls)) = ix_foreign ix" for ls
  proof (induction ls arbitrary: ix at)
    case (Cons l ls)
    show ?case
    proof -
      obtain ix' at' where s: "index_line (ix, at) l = (ix', at')" by fastforce
      then have "ix_whole ix' = ix_whole ix" "ix_len ix' = ix_len ix" "ix_foreign ix' = ix_foreign ix"
        by (auto simp: index_line_def Let_def split: option.splits prod.splits)
      with Cons [of ix' at'] s show ?thesis by simp
    qed
  qed simp
  then show "ix_whole (index_body ix b at) = ix_whole ix" "ix_len (index_body ix b at) = ix_len ix"
    "ix_foreign (index_body ix b at) = ix_foreign ix"
    by (simp_all add: index_body_def)
qed

lemma side_okE:
  assumes "side_ok f"
  obtains "f = side_open []" | ls where "lines_ok ls" and "f = file_of ls"
proof (cases "sf_bytes f = []")
  case True
  then have "f = side_open []"
    using assms by (cases f) (simp add: side_ok_def side_open_def)
  then show thesis using that by blast
next
  case False
  from False assms obtain body where b: "sf_bytes f = HEADER @ body"
    by (auto simp: side_ok_def index_def Let_def strip_prefix_eq_Some split: option.splits)
  have "ends_line (sf_bytes f)"
    using assms False b by (auto simp: side_ok_def index_def Let_def index_start_def)
  then have "ends_line body"
    using b by (cases "body = []") (auto simp: ends_line_def)
  then have l: "list_all is_line (split_incl body)" "concat (split_incl body) = body"
    using split_incl_lines by auto
  then have ok: "lines_ok (split_incl body)"
    using assms b by (simp add: side_ok_def lines_ok_def)
  then have "f = file_of (split_incl body)"
    using assms side_open_file [OF ok] l b
    by (cases f) (simp add: side_ok_def side_open_def)
  with ok show thesis using that by blast
qed

subsection \<open>What a parsed line is\<close>

lemma parse_line_Some:
  assumes "parse_line b = Some (r, name)"
  shows "drop 42 b = name" and "length b = 42 + length name" and "b ! 41 = CHR '' ''"
    and "name \<noteq> []" and "utf8_valid name" and "field b 0 \<noteq> None"
  using assms
  by (auto simp: parse_line_def Let_def get_at_def from_utf8_def split: if_splits option.splits)

lemma parsed_line:
  assumes "is_line l" and "parsed l = Some (r, name)"
  obtains h where "l = h @ '' '' @ name @ [CHR 0x0A]" and "length h = 41" and "line_key name"
    and "field (h @ '' '' @ name) 0 \<noteq> None"
proof -
  obtain b where b: "l = b @ [CHR 0x0A]" "CHR 0x0A \<notin> set b"
    using assms(1) by (auto elim: is_lineE)
  then have "parse_line b = Some (r, name)"
    using assms(2) by (simp add: parsed_def strip_suffix_eq_Some bind_eq_Some_conv)
  note p = parse_line_Some [OF this]
  have "b = take 41 b @ b ! 41 # drop 42 b"
    using p(2) id_take_nth_drop [of 41 b] by simp
  then have bs: "b = take 41 b @ '' '' @ name"
    using p(1,3) by simp
  moreover have "line_key name"
    using b(2) p(4,5) bs by (metis Un_iff line_key_def set_append)
  ultimately show thesis
    using that [of "take 41 b"] b p(2,6) by simp
qed

lemma parsed_record_line: "line_key pid \<Longrightarrow> parsed (record_line pid l) = Some (l, pid)"
proof -
  assume k: "line_key pid"
  have "strip_suffix [CHR 0x0A] (record_line pid l) = Some (head pid l @ '' '' @ pid)"
    by (simp add: record_line_def strip_suffix_eq_Some)
  then show ?thesis
    using parse_head [OF k] by (simp add: parsed_def)
qed

lemma nl_not_digit: "is_ascii_digit c \<Longrightarrow> c \<noteq> CHR 0x0A"
  by (auto simp: is_ascii_digit_def ord_of_def)

lemma nl_not_hex: "is_lower_hex c \<Longrightarrow> c \<noteq> CHR 0x0A"
  by (auto simp: is_lower_hex_def is_ascii_digit_def ord_of_def)

lemma nl_notin_head: "CHR 0x0A \<notin> set (head pid l)"
proof -
  have "CHR 0x0A \<notin> set (pad_digits 10 n v)" for n v
    using pad_digits_decimal [of "CHR 0x0A" n v] nl_not_digit by blast
  moreover have "CHR 0x0A \<notin> set (pad_digits 16 n v)" for n v
    using pad_lower_hex [of n v] nl_not_hex by (auto simp: list_all_iff)
  ultimately show ?thesis
    by (simp add: head_def head_values_def)
qed

lemma is_line_record: "line_key pid \<Longrightarrow> is_line (record_line pid l)"
  using nl_notin_head [of pid l]
  by (simp add: is_line_def record_line_def line_key_def butlast_append)

lemma field0_deleted: "field (DELETED # b) 0 = None"
  by (auto simp: field_def get_range_def is_ascii_digit_def ord_of_def take_Cons')

lemma parsed_deleted: "parsed (DELETED # l) = None"
proof (rule ccontr)
  assume "parsed (DELETED # l) \<noteq> None"
  then obtain b r n where "DELETED # l = b @ [CHR 0x0A]" "parse_line b = Some (r, n)"
    by (auto simp: parsed_def strip_suffix_eq_Some bind_eq_Some_conv)
  moreover from this have "hd b = DELETED" "b \<noteq> []"
    by (cases b; auto)+
  ultimately show False
    using parse_line_Some(6) [of b] field0_deleted [of "tl b"] by (metis list.collapse)
qed

subsection \<open>The operations on a written file\<close>

lemma scan_split:
  "scan hlen (ls1 @ l # ls2)
     = scan hlen ls1 @ (case parsed l of None \<Rightarrow> [] | Some (r, n) \<Rightarrow> [(n, (hlen + length (concat ls1), r))])
       @ scan (hlen + length (concat ls1) + length l) ls2"
  by (simp add: scan_append)

lemma write_at_line:
  assumes "length new \<le> length l"
  shows "write_at (HEADER @ concat (ls1 @ l # ls2)) new (hlen + length (concat ls1))
    = HEADER @ concat (ls1 @ (new @ drop (length new) l) # ls2)"
  using assms by (simp add: write_at_def)

lemma write_at_end: "n = length bs \<Longrightarrow> write_at bs new n = bs @ new"
  by (simp add: write_at_def)

lemma locate_file:
  assumes "lines_ok ls"
  shows "locate (file_of ls) pid = (file_of ls, map_of (scan hlen ls) pid)"
proof (cases "map_of (scan hlen ls) pid")
  case None
  then show ?thesis
    by (simp add: locate_def file_of_def)
next
  case (Some e)
  obtain pos r where e: "e = (pos, r)" by fastforce
  then have "(pid, (pos, r)) \<in> set (scan hlen ls)"
    using Some by (simp add: map_of_SomeD)
  then obtain ls1 l ls2 where ls: "ls = ls1 @ l # ls2" and pos: "pos = hlen + length (concat ls1)"
    and p: "parsed l = Some (r, pid)"
    by (rule in_scan_split)
  have "is_line l"
    using assms ls by (simp add: lines_ok_def)
  then have len: "length l = 43 + length pid"
    using p by (auto elim!: parsed_line)
  have "record_at (file_of ls) pos pid = Some r"
    using p len by (simp add: record_at_def file_of_def ls pos Let_def parsed_def)
  then show ?thesis
    using Some e by (simp add: locate_def file_of_def)
qed

lemma found_line:
  assumes "lines_ok ls" and "map_of (scan hlen ls) pid = Some (pos, r)"
  obtains ls1 l ls2 h where "ls = ls1 @ l # ls2" and "l = h @ '' '' @ pid @ [CHR 0x0A]"
    and "length h = 41" and "pos = hlen + length (concat ls1)" and "line_key pid"
    and "parsed l = Some (r, pid)"
    and "pid \<notin> fst ` set (scan hlen ls1)" and "pid \<notin> fst ` set (scan (pos + length l) ls2)"
proof -
  have "(pid, (pos, r)) \<in> set (scan hlen ls)"
    using assms(2) by (simp add: map_of_SomeD)
  then obtain ls1 l ls2 where ls: "ls = ls1 @ l # ls2" and pos: "pos = hlen + length (concat ls1)"
    and p: "parsed l = Some (r, pid)"
    by (rule in_scan_split)
  have "is_line l"
    using assms(1) ls by (simp add: lines_ok_def)
  then obtain h where h: "l = h @ '' '' @ pid @ [CHR 0x0A]" "length h = 41" "line_key pid"
    using p by (rule parsed_line)
  have "distinct (map fst (scan hlen ls1) @ pid # map fst (scan (pos + length l) ls2))"
    using assms(1) p by (simp add: lines_ok_def ls scan_split pos)
  then show thesis
    using that [OF ls h(1,2) pos h(3) p] by simp
qed

lemma lines_ok_replace:
  assumes "lines_ok (ls1 @ l # ls2)" and "length l' = length l" and "is_line l'"
    and "parsed l' = None \<or> map_option snd (parsed l') = map_option snd (parsed l)"
  shows "lines_ok (ls1 @ l' # ls2)"
proof -
  let ?m = "\<lambda>l. map fst (case parsed l of None \<Rightarrow> [] | Some (r, n) \<Rightarrow> [(n, (hlen + length (concat ls1), r))])"
  have drop: "distinct (a @ b' @ c)" if "distinct (a @ b @ c)" and "b' = [] \<or> b' = b"
    for a b b' c :: "string list"
    using that by auto
  have "distinct (map fst (scan hlen ls1) @ ?m l
      @ map fst (scan (hlen + length (concat ls1) + length l) ls2))"
    using assms(1) by (simp only: lines_ok_def scan_split map_append)
  moreover have "?m l' = [] \<or> ?m l' = ?m l"
    using assms(4) by (auto split: option.splits)
  ultimately have "distinct (map fst (scan hlen (ls1 @ l' # ls2)))"
    unfolding scan_split map_append assms(2) by (rule drop)
  then show ?thesis
    using assms(1,3) by (simp add: lines_ok_def)
qed

lemma map_of_replace:
  assumes "parsed l = Some (r, pid)" and "parsed l' = Some (r', pid)" and "length l' = length l"
    and "pid \<notin> fst ` set (scan hlen ls1)"
  shows "map_of (scan hlen (ls1 @ l' # ls2))
    = (map_of (scan hlen (ls1 @ l # ls2)))(pid \<mapsto> (hlen + length (concat ls1), r'))"
proof -
  have "map_of (scan hlen ls1) pid = None"
    using assms(4) by (simp add: map_of_eq_None_iff)
  then show ?thesis
    using assms(1-3) by (auto simp: scan_split map_add_def fun_eq_iff split: option.split)
qed

lemma map_of_remove:
  assumes "parsed l = Some (r, pid)" and "parsed l' = None" and "length l' = length l"
    and "pid \<notin> fst ` set (scan hlen ls1)"
    and "pid \<notin> fst ` set (scan (hlen + length (concat ls1) + length l) ls2)"
  shows "map_of (scan hlen (ls1 @ l' # ls2)) = (map_of (scan hlen (ls1 @ l # ls2)))(pid := None)"
proof -
  have "map_of (scan hlen ls1) pid = None"
    "map_of (scan (hlen + length (concat ls1) + length l) ls2) pid = None"
    using assms(4,5) by (simp_all add: map_of_eq_None_iff)
  then show ?thesis
    using assms(1-3) by (auto simp: scan_split map_add_def fun_eq_iff split: option.split)
qed

text \<open>What the lines of a file become when it is written: each is overwritten in place, under its name or
  as deleted, and more are added at the end.\<close>

definition kept_line :: "string \<Rightarrow> string \<Rightarrow> bool" where
  "kept_line old new =
     (length new = length old \<and>
      (parsed new = None \<or> map_option snd (parsed new) = map_option snd (parsed old)))"

definition evolved :: "string list \<Rightarrow> string list \<Rightarrow> bool" where
  "evolved ls0 ls = (\<exists>ls1 ls2. ls = ls1 @ ls2 \<and> list_all2 kept_line ls0 ls1)"

lemma kept_line_refl [simp]: "kept_line l l"
  by (simp add: kept_line_def)

lemma kept_line_trans: "kept_line a b \<Longrightarrow> kept_line b c \<Longrightarrow> kept_line a c"
  by (auto simp: kept_line_def)

lemma evolved_refl: "evolved ls ls"
  unfolding evolved_def by (intro exI [of _ ls] exI [of _ "[]"]) (simp add: list_all2_same)

lemma evolved_trans:
  assumes "evolved a b" and "evolved b c"
  shows "evolved a c"
proof -
  obtain b1 b2 where b: "b = b1 @ b2" "list_all2 kept_line a b1"
    using assms(1) by (auto simp: evolved_def)
  obtain c1 c2 where c: "c = c1 @ c2" "list_all2 kept_line b c1"
    using assms(2) by (auto simp: evolved_def)
  obtain d1 d2 where d: "c1 = d1 @ d2" "list_all2 kept_line b1 d1"
    using c(2) b(1) by (auto simp: list_all2_append1)
  have "list_all2 kept_line a d1"
    using b(2) d(2) by (rule list_all2_trans [rotated]) (rule kept_line_trans)
  then show ?thesis
    using c(1) d(1) by (auto simp: evolved_def)
qed

lemma evolved_replace: "kept_line l l' \<Longrightarrow> evolved (ls1 @ l # ls2) (ls1 @ l' # ls2)"
  unfolding evolved_def
  by (intro exI [of _ "ls1 @ l' # ls2"] exI [of _ "[]"]) (simp add: list_all2_same list_all2_appendI)

lemma evolved_add: "evolved ls (ls @ [l])"
  unfolding evolved_def by (intro exI [of _ ls] exI [of _ "[l]"]) (simp add: list_all2_same)

lemma put_found:
  assumes "lines_ok ls" and "map_of (scan hlen ls) pid = Some (pos, r)"
  obtains ls' where "lines_ok ls'" and "evolved ls ls'" and "side_put (file_of ls) pid l = file_of ls'"
    and "map_of (scan hlen ls') = (map_of (scan hlen ls))(pid \<mapsto> (pos, l))"
proof -
  obtain ls1 o' ls2 h where f: "ls = ls1 @ o' # ls2" "o' = h @ '' '' @ pid @ [CHR 0x0A]"
    "length h = 41" "pos = hlen + length (concat ls1)" "line_key pid" "parsed o' = Some (r, pid)"
    "pid \<notin> fst ` set (scan hlen ls1)"
    using found_line [OF assms] by metis
  let ?n = "record_line pid l"
  let ?ls = "ls1 @ ?n # ls2"
  have len: "length ?n = length o'"
    using f(2,3) by simp
  have pn: "parsed ?n = Some (l, pid)"
    using f(5) by (rule parsed_record_line)
  have ok: "lines_ok ?ls"
  proof (rule lines_ok_replace)
    show "lines_ok (ls1 @ o' # ls2)"
      using assms(1) f(1) by simp
    show "is_line ?n"
      using f(5) by (rule is_line_record)
  qed (use len pn f(6) in simp_all)
  have m: "map_of (scan hlen ?ls) = (map_of (scan hlen ls))(pid \<mapsto> (pos, l))"
    using map_of_replace [OF f(6) pn len f(7), of ls2] f(1,4) by simp
  have lens: "length (scan hlen ?ls) = length (scan hlen ls)"
    using f(1,6) pn len by (simp add: scan_split)
  have n: "head pid l @ drop (length (head pid l)) o' = ?n"
    using f(2,3) by (simp add: record_line_def)
  have w: "write_at (HEADER @ concat ls) (head pid l) pos = HEADER @ concat ?ls"
    unfolding f(1,4) n [symmetric] using f(2,3) by (intro write_at_line) simp
  have ls: "length ?ls = length ls" "length (concat ?ls) = length (concat ls)"
    using f(1) len by simp_all
  show thesis
  proof (cases "r = l")
    case True
    then have idem: "(map_of (scan hlen ls))(pid \<mapsto> (pos, l)) = map_of (scan hlen ls)"
      using assms(2) by (simp add: fun_upd_idem)
    then have "side_put (file_of ls) pid l = file_of ls"
      using locate_file [OF assms(1), of pid] assms(2) True by (simp add: side_put_def file_of_def)
    then show ?thesis
      using that [of ls] assms(1) idem evolved_refl by simp
  next
    case False
    then have "side_put (file_of ls) pid l = file_of ?ls"
      using locate_file [OF assms(1), of pid] assms(2)
      by (simp only: side_put_def file_of_def m lens ls) (use w in simp)
    moreover have "evolved ls ?ls"
      unfolding f(1) using len pn f(6) by (intro evolved_replace) (simp add: kept_line_def)
    ultimately show ?thesis
      using that ok m by blast
  qed
qed

lemma put_missing:
  assumes "lines_ok ls" and "map_of (scan hlen ls) pid = None" and "line_key pid"
  shows "lines_ok (ls @ [record_line pid l])"
    and "put_line (file_of ls) pid l = file_of (ls @ [record_line pid l])"
proof -
  have pn: "parsed (record_line pid l) = Some (l, pid)"
    using assms(3) by (rule parsed_record_line)
  have fresh: "pid \<notin> fst ` set (scan hlen ls)"
    using assms(2) by (simp add: map_of_eq_None_iff)
  show "lines_ok (ls @ [record_line pid l])"
    using assms(1) fresh pn is_line_record [OF assms(3)] by (simp add: lines_ok_def scan_append)
  have m: "map_of (scan hlen (ls @ [record_line pid l]))
      = (map_of (scan hlen ls))(pid \<mapsto> (hlen + length (concat ls), l))"
    using assms(2) pn by (auto simp: scan_append map_add_def fun_eq_iff split: option.split)
  have d: "length (ls @ [record_line pid l]) - length (scan hlen (ls @ [record_line pid l]))
      = length ls - length (scan hlen ls)"
    using pn by (simp add: scan_append)
  have "hlen + length (concat ls) \<noteq> 0"
    by simp
  then show "put_line (file_of ls) pid l = file_of (ls @ [record_line pid l])"
    by (simp only: put_line_def file_of_def m d Let_def) (simp add: write_at_end)
qed

lemma put_empty:
  assumes "line_key pid"
  shows "side_put (side_open []) pid l = file_of [record_line pid l]"
    and "lines_ok [record_line pid l]"
  using parsed_record_line [OF assms] is_line_record [OF assms]
  by (simp_all add: side_put_def locate_def put_line_def side_open_def index_def index_start_def
      ends_line_def write_at_def file_of_def lines_ok_def Let_def)

lemma delete_found:
  assumes "lines_ok ls" and "map_of (scan hlen ls) pid = Some (pos, r)"
  obtains ls' where "lines_ok ls'" and "evolved ls ls'" and "side_delete (file_of ls) pid = file_of ls'"
    and "map_of (scan hlen ls') = (map_of (scan hlen ls))(pid := None)"
proof -
  obtain ls1 l ls2 h where f: "ls = ls1 @ l # ls2" "l = h @ '' '' @ pid @ [CHR 0x0A]"
    "length h = 41" "pos = hlen + length (concat ls1)" "parsed l = Some (r, pid)"
    "pid \<notin> fst ` set (scan hlen ls1)" "pid \<notin> fst ` set (scan (pos + length l) ls2)"
    using found_line [OF assms] by metis
  let ?n = "DELETED # tl l"
  let ?ls = "ls1 @ ?n # ls2"
  have ne: "h \<noteq> []"
    using f(3) by auto
  have il: "is_line l"
    using assms(1) f(1) by (simp add: lines_ok_def)
  have len: "length ?n = length l"
    using f(2) by simp
  have pn: "parsed ?n = None"
    by (rule parsed_deleted)
  have isl: "is_line ?n"
    using il ne unfolding f(2) by (cases h) (simp_all add: is_line_def butlast_append)
  have ok: "lines_ok ?ls"
  proof (rule lines_ok_replace)
    show "lines_ok (ls1 @ l # ls2)"
      using assms(1) f(1) by simp
  qed (use len pn isl in simp_all)
  have m: "map_of (scan hlen ?ls) = (map_of (scan hlen ls))(pid := None)"
    using map_of_remove [OF f(5) pn len f(6) f(7) [unfolded f(4)]] f(1) by simp
  have lens: "length (scan hlen ls) = Suc (length (scan hlen ?ls))"
    using f(1,5) pn len by (simp add: scan_split)
  then have d: "length ?ls - length (scan hlen ?ls) = length ls - length (scan hlen ls) + 1"
    using length_scan [of hlen ls] f(1) by simp
  have ls: "length (concat ?ls) = length (concat ls)"
    using f(1) len by simp
  have n: "[DELETED] @ drop (length [DELETED]) l = ?n"
    by (simp add: drop_Suc)
  have w: "write_at (HEADER @ concat ls) [DELETED] pos = HEADER @ concat ?ls"
    unfolding f(1,4) n [symmetric] using f(2) by (intro write_at_line) simp
  have "side_delete (file_of ls) pid = file_of ?ls"
    using locate_file [OF assms(1), of pid] assms(2)
    by (simp only: side_delete_def file_of_def m d ls) (use w in simp)
  moreover have "evolved ls ?ls"
    unfolding f(1) using len pn by (intro evolved_replace) (simp add: kept_line_def)
  ultimately show thesis
    using that ok m by blast
qed

subsection \<open>The side file is a map\<close>

lemma side_records_file: "side_records (file_of ls) pid = map_option snd (map_of (scan hlen ls) pid)"
  by (simp add: side_records_def file_of_def)

lemma side_records_empty: "side_records (side_open []) pid = None"
  by (simp add: side_records_def side_open_def index_def index_start_def Let_def)

lemma side_get_ok: "side_ok f \<Longrightarrow> side_get f pid = (f, side_records f pid)"
proof (erule side_okE)
  assume "f = side_open []"
  then show ?thesis
    by (simp add: side_get_def locate_def side_records_def side_open_def index_def index_start_def Let_def)
next
  fix ls assume "lines_ok ls" "f = file_of ls"
  then show ?thesis
    by (simp add: side_get_def locate_file side_records_file)
qed

lemma side_put_ok:
  assumes "side_ok f" and "line_key pid"
  shows "side_ok (side_put f pid l)" and "side_records (side_put f pid l) = (side_records f)(pid \<mapsto> l)"
proof -
  have "side_ok (side_put f pid l) \<and> side_records (side_put f pid l) = (side_records f)(pid \<mapsto> l)"
    using assms(1)
  proof (rule side_okE)
    assume f: "f = side_open []"
    then show ?thesis
      using put_empty [OF assms(2), of l] side_ok_file_of parsed_record_line [OF assms(2), of l]
      by (auto simp: fun_eq_iff side_records_file side_records_empty)
  next
    fix ls assume ls: "lines_ok ls" "f = file_of ls"
    show ?thesis
    proof (cases "map_of (scan hlen ls) pid")
      case None
      note m = put_missing [OF ls(1) None assms(2), of l]
      have "side_put f pid l = file_of (ls @ [record_line pid l])"
        using m(2) locate_file [OF ls(1), of pid] None by (simp add: ls(2) side_put_def)
      then show ?thesis
        using m(1) side_ok_file_of None parsed_record_line [OF assms(2), of l]
        by (auto simp: fun_eq_iff side_records_file scan_append ls(2) map_add_def split: option.split)
    next
      case (Some e)
      then obtain ls' where "lines_ok ls'" "side_put f pid l = file_of ls'"
        "map_of (scan hlen ls') = (map_of (scan hlen ls))(pid \<mapsto> (fst e, l))"
        using put_found [OF ls(1), of pid "fst e" "snd e" l] ls(2) by auto
      then show ?thesis
        using side_ok_file_of by (auto simp: fun_eq_iff side_records_file ls(2))
    qed
  qed
  then show "side_ok (side_put f pid l)" "side_records (side_put f pid l) = (side_records f)(pid \<mapsto> l)"
    by auto
qed

lemma side_delete_ok:
  assumes "side_ok f"
  shows "side_ok (side_delete f pid)" and "side_records (side_delete f pid) = (side_records f)(pid := None)"
proof -
  have "side_ok (side_delete f pid) \<and> side_records (side_delete f pid) = (side_records f)(pid := None)"
    using assms
  proof (rule side_okE)
    assume f: "f = side_open []"
    then have "side_delete f pid = f"
      by (simp add: side_delete_def locate_def side_open_def index_def index_start_def Let_def)
    then show ?thesis
      using f side_ok_empty by (auto simp: fun_eq_iff side_records_empty)
  next
    fix ls assume ls: "lines_ok ls" "f = file_of ls"
    show ?thesis
    proof (cases "map_of (scan hlen ls) pid")
      case None
      then have "side_delete f pid = f"
        using locate_file [OF ls(1), of pid] by (simp add: ls(2) side_delete_def)
      then show ?thesis
        using assms None by (auto simp: fun_eq_iff ls(2) side_records_file)
    next
      case (Some e)
      then obtain ls' where "lines_ok ls'" "side_delete f pid = file_of ls'"
        "map_of (scan hlen ls') = (map_of (scan hlen ls))(pid := None)"
        using delete_found [OF ls(1), of pid "fst e" "snd e"] ls(2) by auto
      then show ?thesis
        using side_ok_file_of by (auto simp: fun_eq_iff side_records_file ls(2))
    qed
  qed
  then show "side_ok (side_delete f pid)" "side_records (side_delete f pid) = (side_records f)(pid := None)"
    by auto
qed

lemma scan_render:
  "\<forall>e \<in> set recs. line_key (fst e) \<Longrightarrow>
     map (\<lambda>e. (fst e, snd (snd e))) (scan at (map (\<lambda>(pid, l). record_line pid l) recs)) = recs"
  by (induction recs arbitrary: at) (auto simp: parsed_record_line)

lemma map_of_snd: "map_option snd (map_of xs k) = map_of (map (\<lambda>e. (fst e, snd (snd e))) xs) k"
  by (induction xs) auto

lemma side_rewrite_ok:
  assumes "\<forall>e \<in> set recs. line_key (fst e)" and "distinct (map fst recs)"
  shows "side_ok (side_rewrite recs)" and "side_records (side_rewrite recs) = map_of recs"
proof -
  let ?ls = "map (\<lambda>(pid, l). record_line pid l) recs"
  note sc = scan_render [OF assms(1), of hlen]
  have "map fst (scan hlen ?ls) = map fst recs"
    using arg_cong [OF sc, of "map fst"] by (simp add: comp_def)
  then have ok: "lines_ok ?ls"
    using assms is_line_record by (auto simp: lines_ok_def list_all_iff)
  have "side_rewrite recs = file_of ?ls"
    using side_open_file [OF ok] by (simp add: side_rewrite_def render_def)
  then show "side_ok (side_rewrite recs)" "side_records (side_rewrite recs) = map_of recs"
    using side_ok_file_of [OF ok] by (auto simp: fun_eq_iff side_records_file map_of_snd sc)
qed

lemma refresh_ok: "side_ok f \<Longrightarrow> refresh f = f"
  by (erule side_okE) (simp_all add: refresh_def file_of_def side_open_def index_def index_start_def Let_def)

interpretation sf: lockout_table file_lookup file_update side_ok line_key
proof unfold_locales
  fix t p q stamp u
  assume t: "side_ok t" and k: "line_key (p_id p)" 
  have u: "file_update t p stamp u = side_put t (p_id p) (lockout_apply u (file_lookup t p) stamp)"
    using t by (simp add: file_update_def file_lookup_def refresh_ok side_record_def side_get_ok)
  show "side_ok (file_update t p stamp u)"
    using u side_put_ok(1) [OF t k] by simp
  then show "p_id q = p_id p \<Longrightarrow> file_lookup (file_update t p stamp u) q = lockout_apply u (file_lookup t p) stamp"
    "p_id q \<noteq> p_id p \<Longrightarrow> file_lookup (file_update t p stamp u) q = file_lookup t q"
    using u side_put_ok(2) [OF t k] t
    by (simp_all add: file_lookup_def refresh_ok side_get_ok)
next
  fix t p assume "side_ok t"
  then show "file_lookup t (set_on (file_lookup t p) p) = file_lookup t p"
    by (simp add: file_lookup_def refresh_ok side_get_ok split: option.split)
qed

subsection \<open>A reader with an old index\<close>

text \<open>
  Another process writes while this one keeps the index it built.  Lines are overwritten in place, under
  their name or as deleted, and added at the end.
\<close>

datatype side_op = Put string lockout | Delete string

fun side_step :: "side_file \<Rightarrow> side_op \<Rightarrow> side_file" where
  "side_step f (Put pid l) = side_put f pid l"
| "side_step f (Delete pid) = side_delete f pid"

fun op_key :: "side_op \<Rightarrow> bool" where
  "op_key (Put pid l) = line_key pid"
| "op_key (Delete pid) = True"

lemma side_step_evolved:
  assumes "lines_ok ls" and "op_key op"
  obtains ls' where "lines_ok ls'" and "side_step (file_of ls) op = file_of ls'" and "evolved ls ls'"
proof (cases op)
  case (Put pid l)
  show thesis
  proof (cases "map_of (scan hlen ls) pid")
    case None
    have "line_key pid"
      using assms(2) Put by simp
    note m = put_missing [OF assms(1) None this, of l]
    have "side_put (file_of ls) pid l = file_of (ls @ [record_line pid l])"
      using m(2) locate_file [OF assms(1), of pid] None by (simp add: side_put_def)
    then show ?thesis
      using that [OF m(1)] evolved_add Put by simp
  next
    case (Some e)
    then show ?thesis
      using put_found [OF assms(1), of pid "fst e" "snd e" l] that Put by (metis prod.collapse side_step.simps(1))
  qed
next
  case (Delete pid)
  show thesis
  proof (cases "map_of (scan hlen ls) pid")
    case None
    then have "side_delete (file_of ls) pid = file_of ls"
      using locate_file [OF assms(1), of pid] by (simp add: side_delete_def)
    then show ?thesis
      using that [OF assms(1)] evolved_refl Delete by simp
  next
    case (Some e)
    then show ?thesis
      using delete_found [OF assms(1), of pid "fst e" "snd e"] that Delete
      by (metis prod.collapse side_step.simps(2))
  qed
qed

lemma side_steps_evolved:
  assumes "lines_ok ls" and "list_all op_key ops"
  shows "\<exists>ls'. lines_ok ls' \<and> foldl side_step (file_of ls) ops = file_of ls' \<and> evolved ls ls'"
  using assms
proof (induction ops arbitrary: ls)
  case Nil
  then show ?case using evolved_refl by auto
next
  case (Cons op ops)
  from Cons.prems obtain ls' where s: "lines_ok ls'" "side_step (file_of ls) op = file_of ls'" "evolved ls ls'"
    using side_step_evolved [of ls op] by auto
  obtain ls'' where "lines_ok ls''" "foldl side_step (file_of ls') ops = file_of ls''" "evolved ls' ls''"
    using Cons.IH [OF s(1)] Cons.prems by auto
  with s evolved_trans show ?case by auto
qed

lemma record_at_line:
  assumes "sf_bytes f = HEADER @ concat (a @ l # b)" and "length l = 43 + length pid"
  shows "record_at f (hlen + length (concat a)) pid
    = (case parsed l of None \<Rightarrow> None | Some (r, n) \<Rightarrow> if n = pid then Some r else None)"
  using assms by (simp add: record_at_def parsed_def Let_def)

lemma index_records:
  assumes "distinct (map fst (scan at ls))"
  shows "ix_records (fst (foldl index_line (ix, at) ls)) = ix_records ix ++ map_of (scan at ls)"
  using assms
proof (induction ls arbitrary: at ix)
  case (Cons l ls)
  show ?case
  proof (cases "parsed l")
    case None
    then have "index_line (ix, at) l = (ix\<lparr>ix_dead := ix_dead ix + 1\<rparr>, at + length l)"
      by (simp add: index_line_def parsed_def)
    then show ?thesis
      using None Cons by simp
  next
    case (Some rn)
    obtain r n where rn: "rn = (r, n)" by fastforce
    have none: "map_of (scan (at + length l) ls) n = None"
      using Cons.prems Some rn by (simp add: map_of_eq_None_iff)
    obtain ix' where step: "index_line (ix, at) l = (ix', at + length l)"
      and ix': "ix_records ix' = (ix_records ix)(n \<mapsto> (at, r))"
      using Some rn by (simp add: index_line_def parsed_def)
    have "ix_records (fst (foldl index_line (ix', at + length l) ls))
        = ix_records ix' ++ map_of (scan (at + length l) ls)"
      using Cons.prems Some rn by (intro Cons.IH) simp
    also have "\<dots> = ix_records ix ++ map_of (scan at (l # ls))"
      using none Some rn ix' by (auto simp: map_add_def fun_eq_iff split: option.split)
    finally show ?thesis
      by (simp add: step del: scan.simps)
  qed
qed simp

lemma kept_lengths: "list_all2 kept_line xs ys \<Longrightarrow> length (concat ys) = length (concat xs)"
  by (induction rule: list_all2_induct) (simp_all add: kept_line_def)

lemma kept_at:
  assumes "list_all2 kept_line ls0 (a @ l # b)"
  obtains a0 l0 b0 where "ls0 = a0 @ l0 # b0" and "kept_line l0 l" and "length (concat a0) = length (concat a)"
proof -
  obtain a0 c where c: "ls0 = a0 @ c" "list_all2 kept_line a0 a" "list_all2 kept_line c (l # b)"
    using assms by (auto simp: list_all2_append2)
  obtain l0 b0 where "c = l0 # b0" "kept_line l0 l"
    using c(3) by (auto simp: list_all2_Cons2)
  then show thesis
    using that [of a0 l0 b0] c(1) kept_lengths [OF c(2)] by simp
qed

lemma kept_from:
  assumes "list_all2 kept_line (a0 @ l0 # b0) ls1"
  obtains a l b where "ls1 = a @ l # b" and "kept_line l0 l" and "length (concat a) = length (concat a0)"
proof -
  obtain a c where c: "ls1 = a @ c" "list_all2 kept_line a0 a" "list_all2 kept_line (l0 # b0) c"
    using assms by (auto simp: list_all2_append1)
  obtain l b where "c = l # b" "kept_line l0 l"
    using c(3) by (auto simp: list_all2_Cons1)
  then show thesis
    using that [of a l b] c(1) kept_lengths [OF c(2)] by simp
qed

lemma map_of_scan: "distinct (map fst (scan at ls)) \<Longrightarrow> (pid, e) \<in> set (scan at ls) \<Longrightarrow> map_of (scan at ls) pid = Some e"
  by simp

lemma reindex_file: "lines_ok ls \<Longrightarrow> sf_bytes f = HEADER @ concat ls \<Longrightarrow> reindex f = file_of ls"
  using side_open_file [of ls] by (cases f) (simp add: reindex_def side_open_def)

lemma stale_locate:
  assumes "lines_ok ls0" and "lines_ok ls" and "ls = ls1 @ ls2" and "list_all2 kept_line ls0 ls1"
    and "sf_bytes f = HEADER @ concat ls"
    and "ix_records (sf_ix f) = map_of (scan hlen ls0) ++ map_of (scan (hlen + length (concat ls1)) ls2)"
  shows "snd (locate f pid) = map_of (scan hlen ls) pid"
proof -
  let ?s2 = "scan (hlen + length (concat ls1)) ls2"
  have sc: "scan hlen ls = scan hlen ls1 @ ?s2"
    by (simp add: assms(3) scan_append)
  have d: "distinct (map fst (scan hlen ls1))" "distinct (map fst ?s2)"
    "fst ` set (scan hlen ls1) \<inter> fst ` set ?s2 = {}" "distinct (map fst (scan hlen ls0))"
    using assms(1,2) by (auto simp: lines_ok_def sc)
  have lines: "list_all is_line ls0" "list_all is_line ls"
    using assms(1,2) by (simp_all add: lines_ok_def)
  show ?thesis
  proof (cases "map_of (scan hlen ls) pid")
    case (Some e)
    obtain pos r where e: "e = (pos, r)" by fastforce
    then have "(pid, (pos, r)) \<in> set (scan hlen ls)"
      using Some by (simp add: map_of_SomeD)
    then obtain a l b where l: "ls = a @ l # b" "pos = hlen + length (concat a)" "parsed l = Some (r, pid)"
      by (rule in_scan_split)
    have len: "length l = 43 + length pid"
      using lines(2) l(1,3) by (auto elim!: parsed_line)
    have ra: "record_at f pos pid = Some r"
      using record_at_line [of f a l b pid] assms(5) l len by simp
    have "\<exists>r'. ix_records (sf_ix f) pid = Some (pos, r')"
    proof (cases "(pid, (pos, r)) \<in> set ?s2")
      case True
      then show ?thesis
        using d(2) by (simp add: assms(6) map_of_scan)
    next
      case False
      then have in1: "(pid, (pos, r)) \<in> set (scan hlen ls1)"
        using \<open>(pid, (pos, r)) \<in> set (scan hlen ls)\<close> by (simp add: sc)
      then obtain x m y where m: "ls1 = x @ m # y" "pos = hlen + length (concat x)" "parsed m = Some (r, pid)"
        by (rule in_scan_split)
      obtain x0 m0 y0 where m0: "ls0 = x0 @ m0 # y0" "kept_line m0 m" "length (concat x0) = length (concat x)"
        using assms(4) [unfolded m(1)] by (rule kept_at)
      then obtain r0 where "parsed m0 = Some (r0, pid)"
        using m(3) by (cases "parsed m0") (auto simp: kept_line_def)
      then have "(pid, (pos, r0)) \<in> set (scan hlen ls0)"
        using m0 m(2) by (simp add: scan_split)
      then have "map_of (scan hlen ls0) pid = Some (pos, r0)"
        using d(4) by simp
      moreover have "map_of ?s2 pid = None"
        using d(3) in1 by (force simp: map_of_eq_None_iff)
      ultimately show ?thesis
        by (simp add: assms(6) map_add_def)
    qed
    then show ?thesis
      using ra Some e by (auto simp: locate_def)
  next
    case None
    then have n1: "map_of (scan hlen ls1) pid = None" and n2: "map_of ?s2 pid = None"
      by (auto simp: sc map_add_None)
    show ?thesis
    proof (cases "map_of (scan hlen ls0) pid")
      case None
      then have "ix_records (sf_ix f) pid = None"
        using n2 by (simp add: assms(6) map_add_def)
      then show ?thesis
        using \<open>map_of (scan hlen ls) pid = None\<close> by (simp add: locate_def)
    next
      case (Some e)
      obtain pos r0 where e: "e = (pos, r0)" by fastforce
      have "(pid, (pos, r0)) \<in> set (scan hlen ls0)"
        using Some e by (simp add: map_of_SomeD)
      then obtain x0 m0 y0 where m0: "ls0 = x0 @ m0 # y0" "pos = hlen + length (concat x0)"
        "parsed m0 = Some (r0, pid)"
        by (rule in_scan_split)
      obtain x m y where m: "ls1 = x @ m # y" "kept_line m0 m" "length (concat x) = length (concat x0)"
        using assms(4) [unfolded m0(1)] by (rule kept_from)
      have "length m = 43 + length pid"
        using lines(1) m0 m(2) by (auto simp: kept_line_def elim!: parsed_line)
      moreover have "parsed m \<noteq> Some (r, pid)" for r
        using n1 m(1) by (auto simp: scan_split map_add_None)
      ultimately have "record_at f pos pid = None"
        using record_at_line [of f x m "y @ ls2" pid] assms(5) m m0(2)
        by (auto simp: assms(3) split: option.split)
      moreover have "ix_records (sf_ix f) pid = Some (pos, r0)"
        using n2 Some e by (simp add: assms(6) map_add_def)
      moreover have "ix_records (sf_ix (reindex f)) pid = None"
        using \<open>map_of (scan hlen ls) pid = None\<close> reindex_file [OF assms(2,5)] by (simp add: file_of_def)
      ultimately show ?thesis
        using \<open>map_of (scan hlen ls) pid = None\<close> by (simp add: locate_def)
    qed
  qed
qed

lemma is_line_concat_Nil: "list_all is_line ls \<Longrightarrow> concat ls = [] \<longleftrightarrow> ls = []"
  by (cases ls) (auto simp: is_line_def)

lemma stale_refresh:
  assumes "lines_ok ls0" and "lines_ok ls" and "ls = ls1 @ ls2" and "list_all2 kept_line ls0 ls1"
  defines "f \<equiv> \<lparr>sf_bytes = HEADER @ concat ls, sf_ix = sf_ix (file_of ls0)\<rparr>"
  shows "sf_bytes (refresh f) = HEADER @ concat ls"
    and "ix_records (sf_ix (refresh f))
           = map_of (scan hlen ls0) ++ map_of (scan (hlen + length (concat ls1)) ls2)"
proof -
  have len: "length (concat ls0) = length (concat ls1)"
    using kept_lengths [OF assms(4)] by simp
  have l2: "list_all is_line ls2" and d2: "distinct (map fst (scan (hlen + length (concat ls1)) ls2))"
    using assms(2) by (simp_all add: lines_ok_def assms(3) scan_append)
  have "sf_bytes (refresh f) = HEADER @ concat ls \<and> ix_records (sf_ix (refresh f))
      = map_of (scan hlen ls0) ++ map_of (scan (hlen + length (concat ls1)) ls2)"
  proof (cases "ls2 = []")
    case True
    then show ?thesis
      using len by (simp add: f_def refresh_def file_of_def assms(3) Let_def)
  next
    case False
    then have "concat ls2 \<noteq> []"
      using l2 is_line_concat_Nil by blast
    then have "refresh f = extend f (length (HEADER @ concat ls))"
      using len by (simp add: f_def refresh_def file_of_def assms(3) Let_def)
    then show ?thesis
      using len d2 by (simp add: extend_def f_def file_of_def assms(3) Let_def index_body_def
          split_incl_concat [OF l2] index_records)
  qed
  then show "sf_bytes (refresh f) = HEADER @ concat ls" "ix_records (sf_ix (refresh f))
      = map_of (scan hlen ls0) ++ map_of (scan (hlen + length (concat ls1)) ls2)"
    by auto
qed

lemma side_steps_ok: "side_ok f \<Longrightarrow> list_all op_key ops \<Longrightarrow> side_ok (foldl side_step f ops)"
proof (induction ops arbitrary: f)
  case (Cons op ops)
  then show ?case
    using side_put_ok(1) side_delete_ok(1) by (cases op) simp_all
qed simp

lemma stale_get:
  assumes "side_ok w" and "list_all op_key ops"
  shows "snd (side_get (refresh ((foldl side_step w ops)\<lparr>sf_ix := sf_ix w\<rparr>)) pid)
    = side_records (foldl side_step w ops) pid"
  using assms(1)
proof (rule side_okE)
  let ?w = "foldl side_step w ops"
  have ok: "side_ok ?w"
    using assms by (rule side_steps_ok)
  assume w: "w = side_open []"
  have "refresh (?w\<lparr>sf_ix := sf_ix w\<rparr>) = ?w"
  proof (cases "sf_bytes ?w = []")
    case True
    then have "sf_ix ?w = sf_ix w"
      using ok w by (simp add: side_ok_def side_open_def)
    then have "?w\<lparr>sf_ix := sf_ix w\<rparr> = ?w"
      by (intro side_file.equality) simp_all
    then show ?thesis
      using refresh_ok [OF ok] by simp
  next
    case False
    then have "refresh (?w\<lparr>sf_ix := sf_ix w\<rparr>) = reindex (?w\<lparr>sf_ix := sf_ix w\<rparr>)"
      by (simp add: refresh_def w side_open_def index_def index_start_def Let_def)
    also have "\<dots> = ?w"
      using ok by (simp add: reindex_def side_ok_def)
    finally show ?thesis .
  qed
  then show ?thesis
    using side_get_ok [OF ok] by simp
next
  fix ls0 assume ls0: "lines_ok ls0" "w = file_of ls0"
  obtain ls where ls: "lines_ok ls" "foldl side_step w ops = file_of ls" "evolved ls0 ls"
    using side_steps_evolved [OF ls0(1) assms(2)] ls0(2) by auto
  obtain ls1 ls2 where e: "ls = ls1 @ ls2" "list_all2 kept_line ls0 ls1"
    using ls(3) by (auto simp: evolved_def)
  let ?f = "\<lparr>sf_bytes = HEADER @ concat ls, sf_ix = sf_ix (file_of ls0)\<rparr>"
  have f: "(foldl side_step w ops)\<lparr>sf_ix := sf_ix w\<rparr> = ?f"
    by (subst ls(2)) (simp add: ls0(2) file_of_def)
  have "snd (locate (refresh ?f) pid) = map_of (scan hlen ls) pid"
    by (rule stale_locate [OF ls0(1) ls(1) e stale_refresh [OF ls0(1) ls(1) e]])
  then show ?thesis
    unfolding f by (simp add: side_get_def split_beta side_records_file ls(2))
qed

subsection \<open>Properties\<close>

text \<open>
  C6: The lockout side file is a map from principals to records.  On every file the code has written, a
  read returns the record last put, \<open>put\<close> changes this one entry and \<open>delete\<close> removes it, and the index kept
  in memory stays the one a fresh read of the file computes.  A rewrite gives exactly the records
  written.
\<close>
theorem side_file_refines_map:
  assumes "side_ok f" and "line_key pid"
  shows "side_get f pid = (f, side_records f pid)
    \<and> side_ok (side_put f pid l) \<and> side_records (side_put f pid l) = (side_records f)(pid \<mapsto> l)
    \<and> side_ok (side_delete f pid) \<and> side_records (side_delete f pid) = (side_records f)(pid := None)
    \<and> side_ok (side_rewrite [(pid, l)]) \<and> side_records (side_rewrite [(pid, l)]) = [pid \<mapsto> l]
    \<and> sf_ix (side_put f pid l) = index (sf_bytes (side_put f pid l))"
  using side_get_ok [OF assms(1)] side_put_ok [OF assms, of l] side_delete_ok [OF assms(1), of pid]
    side_rewrite_ok [of "[(pid, l)]"] assms
  by (auto simp: side_ok_def)

definition example_lockout :: lockout where
  "example_lockout = \<lparr>last_success = 5, last_failed = 7, fail_auth_count = 2\<rparr>"

theorem side_file_refines_map_witness:
  "side_records (side_put (side_open []) ''u@R'' example_lockout) ''u@R'' = Some example_lockout"
proof -
  have "line_key ''u@R''"
    by code_simp
  from side_file_refines_map [OF side_ok_empty this, of example_lockout] show ?thesis
    by simp
qed

text \<open>
  C16: A process that keeps an old index reads the current records.  Whatever sequence of puts and
  deletes another process makes on the file after this one has read it, \<open>refresh\<close> and \<open>get\<close> with the old
  index return the record the file now holds, also for records that were deleted, deleted and put
  again, overwritten or added in between.
\<close>
theorem side_file_stale_reader:
  assumes "side_ok w" and "list_all op_key ops"
  shows "snd (side_get (refresh ((foldl side_step w ops)\<lparr>sf_ix := sf_ix w\<rparr>)) pid)
    = side_records (foldl side_step w ops) pid"
  using assms by (rule stale_get)

theorem side_file_stale_reader_witness:
  "snd (side_get (refresh ((side_put (side_open []) ''u@R'' example_lockout)\<lparr>sf_ix := sf_ix (side_open [])\<rparr>)) ''u@R'')
     = Some example_lockout"
proof -
  have k: "line_key ''u@R''"
    by code_simp
  then have "list_all op_key [Put ''u@R'' example_lockout]"
    by simp
  from side_file_stale_reader [OF side_ok_empty this, of "''u@R''"] side_put_ok(2) [OF side_ok_empty k]
  show ?thesis
    by simp
qed

text \<open>
  C17: The table-driven CRC is the CRC.  For every octet string, \<open>crc32\<close> with its table of 256 words
  computes the reflected CRC-32 that shifts in one bit at a time.
\<close>
theorem crc32_is_bitwise: "crc32 bs = crc_ref bs"
  by (rule crc32_ref)

text \<open>
  C3: Failures lock an account.  Under a policy with \<open>m\<close> failures allowed, starting from a count of
  zero, fewer than \<open>m\<close> failures in a row within the failure count interval leave the client unlocked.
  \<open>m\<close> of them lock it: whatever requests follow, with whatever outcome, as long as the lockout
  duration since the last counted failure has not passed (or for ever, with no duration), the policy
  check refuses the client.  The records are those of the side file.
\<close>
theorem lockout_after_max_fail:
  assumes "side_ok t" and "line_key (p_id p)" and "enforced s p m iv d"
    and "fail_auth_count (file_lookup t p) = 0"
    and "failing iv (last_admin_unlock p) (fst r) rs" and "last_admin_unlock p < fst r"
    and "snd r = ERR_PREAUTH_FAILED \<or> snd r = ERR_BAD_INTEGRITY"
  shows "(Suc (length rs) < unat m \<longrightarrow>
      lockout_check_policy s
        (set_on (file_lookup (foldl (audited file_lookup file_update s p) t (r # rs)) p) p) x = Inr ()) \<and>
    (Suc (length rs) = unat m \<and>
     (\<forall>y \<in> insert x (fst ` set later). d = 0 \<or> y < ts_incr (fst (last (r # rs))) d) \<longrightarrow>
      lockout_check_policy s
        (set_on (file_lookup (foldl (audited file_lookup file_update s p) t (r # rs @ later)) p) p) x
          = Inl (proto ERR_CLIENT_REVOKED STATUS_LOCKED_OUT))"
  using sf.run_locks [OF assms] by blast

definition example_store :: "u32 \<Rightarrow> u32 \<Rightarrow> u32 \<Rightarrow> store" where
  "example_store m iv d =
     \<lparr>s_realm = ''R'', s_map = Map.empty, s_policy = policy_default,
      s_policies = [''lock'' \<mapsto> \<lparr>np_name = ''lock'', np_min_length = 1, np_min_classes = 1, np_history = 0,
        np_max_fail = m, np_pw_failcnt_interval = iv, np_pw_lockout_duration = d, np_pw_min_life = 0,
        np_pw_max_life = 0, np_allowed_keysalts = None\<rparr>]\<rparr>"

definition example_client :: principal where
  "example_client = (example_principal KDB_REQUIRES_PRE_AUTH [])\<lparr>p_pw_policy := Some ''lock''\<rparr>"

theorem lockout_after_max_fail_witness:
  "lockout_check_policy (example_store 2 60 30)
     (set_on (file_lookup (foldl (audited file_lookup file_update (example_store 2 60 30) example_client)
        (side_open []) [(100, 24), (130, 31), (140, 0)]) example_client) example_client) 150
   = Inl (proto ERR_CLIENT_REVOKED STATUS_LOCKED_OUT)"
proof -
  have k: "line_key (p_id example_client)"
    by code_simp
  have e: "enforced (example_store 2 60 30) example_client 2 60 30"
    by (simp add: enforced_def example_store_def example_client_def lookup_lockout_policy_def
        named_policy_for_def policy_default_def)
  have u: "last_admin_unlock example_client = 0"
    by (simp add: last_admin_unlock_def example_client_def example_principal_def)
  have z: "fail_auth_count (file_lookup (side_open []) example_client) = 0"
    using side_get_ok [OF side_ok_empty] refresh_ok [OF side_ok_empty]
    by (simp add: file_lookup_def side_records_empty lockout_of_def example_client_def
        example_principal_def)
  show ?thesis
    using lockout_after_max_fail [OF side_ok_empty k e z, of "(100, 24)" "[(130, 31)]" 150 "[(140, 0)]"]
    by (simp add: u ts_incr_def)
qed

end
