(* ===== verification/Lookaside.thy ===== *)
theory Lookaside
  imports Prelude
begin

text \<open>
  The cache of recent replies of the KDC (\<open>crates/krb5-kdc/src/lookaside.rs\<close>): a map from requests to entries and
  a queue of slots in order of insertion, whose first slot has the sequence number \<open>la_head\<close>.  Times are
  numbers on the monotonic clock, read once per call; the counters are natural numbers.  The allocation that map
  and queue share for a request (an \<open>Arc\<close>) is its octets.
\<close>

abbreviation (input) ENTRY_OVERHEAD :: nat where "ENTRY_OVERHEAD \<equiv> 64"

record la_entry =
  la_timein :: nat
  la_reply :: "bytes option"
  la_seq :: nat
  la_size :: nat

datatype la_check = Hit bytes | InProgress | Fresh

record lookaside =
  la_map :: "bytes \<Rightarrow> la_entry option"
  la_order :: "bytes option list"
  la_head :: nat
  la_total :: nat
  la_max_size :: nat
  la_stale :: nat
  la_full_logged :: bool

definition la_with_limits :: "nat \<Rightarrow> nat \<Rightarrow> lookaside" where
  "la_with_limits max_size stale =
     \<lparr>la_map = (\<lambda>_. None), la_order = [], la_head = 0, la_total = 0, la_max_size = max_size, la_stale = stale,
      la_full_logged = False\<rparr>"

text \<open>The entry of the front slot, if it is still the one the slot was made for: whether it is stale, and its size.\<close>

definition la_live :: "nat \<Rightarrow> lookaside \<Rightarrow> bytes option \<Rightarrow> (bool \<times> nat) option" where
  "la_live now l front =
     Option.bind front (\<lambda>key. Option.bind (la_map l key) (\<lambda>e.
       if la_seq e = la_head l then Some (now - la_timein e > la_stale l, la_size e) else None))"

function la_evict :: "nat \<Rightarrow> nat \<Rightarrow> lookaside \<Rightarrow> lookaside" where
  "la_evict now incoming l =
     (case la_order l of
        [] \<Rightarrow> l
      | front # rest \<Rightarrow>
          (case la_live now l front of
             Some (stale, sz) \<Rightarrow>
               if \<not> stale \<and> la_total l + incoming \<le> la_max_size l then l
               else la_evict now incoming
                      (l\<lparr>la_order := rest,
                         la_map := (case front of None \<Rightarrow> la_map l | Some key \<Rightarrow> (la_map l)(key := None)),
                         la_total := la_total l - sz, la_full_logged := la_full_logged l \<or> \<not> stale,
                         la_head := la_head l + 1\<rparr>)
           | None \<Rightarrow> la_evict now incoming (l\<lparr>la_order := rest, la_head := la_head l + 1\<rparr>)))"
  by auto
termination
  by (relation "measure (\<lambda>(_, _, l). length (la_order l))") auto

declare la_evict.simps [simp del]

definition la_insert :: "nat \<Rightarrow> bytes \<Rightarrow> bytes option \<Rightarrow> lookaside \<Rightarrow> lookaside" where
  "la_insert now key reply l =
     (let sz = ENTRY_OVERHEAD + length key + (case reply of None \<Rightarrow> 0 | Some r \<Rightarrow> length r);
          l = la_evict now sz l;
          seq = la_head l + length (la_order l) in
      l\<lparr>la_order := la_order l @ [Some key], la_total := la_total l + sz,
        la_map := (la_map l)(key \<mapsto> \<lparr>la_timein = now, la_reply = reply, la_seq = seq, la_size = sz\<rparr>)\<rparr>)"

definition la_discard :: "bytes \<Rightarrow> lookaside \<Rightarrow> lookaside" where
  "la_discard req l =
     (case la_map l req of
        None \<Rightarrow> l
      | Some e \<Rightarrow>
          l\<lparr>la_map := (la_map l)(req := None), la_total := la_total l - la_size e,
            la_order := (if la_head l \<le> la_seq e then (la_order l)[la_seq e - la_head l := None] else la_order l)\<rparr>)"

definition la_finish :: "nat \<Rightarrow> bytes \<Rightarrow> bytes option \<Rightarrow> lookaside \<Rightarrow> lookaside" where
  "la_finish now req reply l =
     (let l = la_discard req l in
      case reply of
        None \<Rightarrow> l
      | Some r \<Rightarrow> if r = [] then l else la_insert now req (Some r) l)"

definition check_or_mark :: "nat \<Rightarrow> bytes \<Rightarrow> lookaside \<Rightarrow> lookaside \<times> la_check" where
  "check_or_mark now req l =
     (case la_map l req of
        Some e \<Rightarrow> (l, case la_reply e of Some r \<Rightarrow> Hit r | None \<Rightarrow> InProgress)
      | None \<Rightarrow> (la_insert now req None l, Fresh))"

text \<open>The calls, as steps of a machine.\<close>

datatype la_op = Check bytes | Finish bytes "bytes option"

fun la_step :: "lookaside \<Rightarrow> nat \<times> la_op \<Rightarrow> lookaside \<times> la_check option" where
  "la_step l (now, Check req) = (let (l', c) = check_or_mark now req l in (l', Some c))"
| "la_step l (now, Finish req reply) = (la_finish now req reply l, None)"

subsection \<open>The invariant\<close>

definition la_inv :: "lookaside \<Rightarrow> bool" where
  "la_inv l \<longleftrightarrow> finite (dom (la_map l)) \<and> la_total l = (\<Sum>k \<in> dom (la_map l). la_size (the (la_map l k))) \<and>
     (\<forall>k e. la_map l k = Some e \<longrightarrow> la_head l \<le> la_seq e \<and> la_seq e < la_head l + length (la_order l) \<and>
        la_order l ! (la_seq e - la_head l) = Some k) \<and>
     (\<forall>i k. i < length (la_order l) \<and> la_order l ! i = Some k \<longrightarrow>
        (\<exists>e. la_map l k = Some e \<and> la_seq e = la_head l + i))"

lemma la_invD:
  assumes "la_inv l"
  shows "finite (dom (la_map l))" "la_total l = (\<Sum>k \<in> dom (la_map l). la_size (the (la_map l k)))"
    "la_map l k = Some e \<Longrightarrow> la_head l \<le> la_seq e \<and> la_seq e < la_head l + length (la_order l) \<and>
       la_order l ! (la_seq e - la_head l) = Some k"
    "i < length (la_order l) \<Longrightarrow> la_order l ! i = Some k \<Longrightarrow> \<exists>e. la_map l k = Some e \<and> la_seq e = la_head l + i"
  using assms by (simp_all add: la_inv_def)

lemma sum_remove_entry:
  assumes "finite (dom m)" and "m k = Some e"
  shows "(\<Sum>j \<in> dom (m(k := None)). la_size (the ((m(k := None)) j))) + la_size e = (\<Sum>j \<in> dom m. la_size (the (m j)))"
proof -
  have "(\<Sum>j \<in> dom m. la_size (the (m j))) = la_size (the (m k)) + (\<Sum>j \<in> dom m - {k}. la_size (the (m j)))"
    using assms by (intro sum.remove) auto
  moreover have "(\<Sum>j \<in> dom m - {k}. la_size (the (m j))) = (\<Sum>j \<in> dom (m(k := None)). la_size (the ((m(k := None)) j)))"
    by (intro sum.cong) auto
  moreover have "la_size (the (m k)) = la_size e"
    using assms(2) by simp
  ultimately show ?thesis
    by linarith
qed

lemma sum_add_entry:
  assumes "finite (dom m)" and "m k = None"
  shows "(\<Sum>j \<in> dom (m(k \<mapsto> e)). la_size (the ((m(k \<mapsto> e)) j))) = (\<Sum>j \<in> dom m. la_size (the (m j))) + la_size e"
proof -
  have "dom (m(k \<mapsto> e)) = insert k (dom m)" "k \<notin> dom m"
    using assms(2) by auto
  moreover have "(\<Sum>j \<in> dom m. la_size (the ((m(k \<mapsto> e)) j))) = (\<Sum>j \<in> dom m. la_size (the (m j)))"
    using assms(2) by (intro sum.cong) auto
  ultimately show ?thesis
    using assms(1) by (simp add: add.commute)
qed

text \<open>A slot that holds a request belongs to its entry, so the front entry is live.\<close>

lemma la_live_front:
  assumes "la_inv l" and "la_order l = Some key # rest"
  obtains e where "la_map l key = Some e" "la_seq e = la_head l"
    "la_live now l (Some key) = Some (now - la_timein e > la_stale l, la_size e)"
proof -
  obtain e where "la_map l key = Some e" "la_seq e = la_head l"
    using la_invD(4) [OF assms(1), of 0 key] assms(2) by auto
  then show ?thesis
    by (intro that [of e]) (simp_all add: la_live_def)
qed

lemma la_inv_pop_empty:
  assumes "la_inv l" and "la_order l = None # rest"
  shows "la_inv (l\<lparr>la_order := rest, la_head := la_head l + 1\<rparr>)"
proof -
  have shift: "Suc (la_head l) \<le> la_seq e \<and> la_seq e < Suc (la_head l + length rest) \<and>
      rest ! (la_seq e - Suc (la_head l)) = Some k" if "la_map l k = Some e" for k e
  proof -
    have "la_head l \<le> la_seq e" "la_seq e < la_head l + length (None # rest)"
      "(None # rest) ! (la_seq e - la_head l) = Some k"
      using la_invD(3) [OF assms(1) that] assms(2) by simp_all
    moreover from this have "la_seq e \<noteq> la_head l"
      by auto
    ultimately show ?thesis
      by (auto simp: nth_Cons' split: if_splits)
  qed
  have "\<exists>e. la_map l k = Some e \<and> la_seq e = Suc (la_head l + i)" if "i < length rest" "rest ! i = Some k" for i k
    using la_invD(4) [OF assms(1), of "Suc i" k] assms(2) that by simp
  with shift la_invD(1,2) [OF assms(1)] show ?thesis
    by (simp add: la_inv_def)
qed

lemma la_inv_pop_live:
  assumes "la_inv l" and "la_order l = Some key # rest" and "la_map l key = Some e"
  shows "la_inv (l\<lparr>la_order := rest, la_map := (la_map l)(key := None), la_total := la_total l - la_size e,
      la_full_logged := b, la_head := la_head l + 1\<rparr>)"
    and "la_size e \<le> la_total l"
proof -
  note total = sum_remove_entry [OF la_invD(1) [OF assms(1)] assms(3)]
  then show "la_size e \<le> la_total l"
    using la_invD(2) [OF assms(1)] by linarith
  have shift: "Suc (la_head l) \<le> la_seq e' \<and> la_seq e' < Suc (la_head l + length rest) \<and>
      rest ! (la_seq e' - Suc (la_head l)) = Some k" if "la_map l k = Some e'" "k \<noteq> key" for k e'
  proof -
    have "la_head l \<le> la_seq e'" "la_seq e' < la_head l + length (Some key # rest)"
      "(Some key # rest) ! (la_seq e' - la_head l) = Some k"
      using la_invD(3) [OF assms(1) that(1)] assms(2) by simp_all
    moreover from this have "la_seq e' \<noteq> la_head l"
      using that(2) by auto
    ultimately show ?thesis
      by (auto simp: nth_Cons' split: if_splits)
  qed
  have slots: "k \<noteq> key \<and> (\<exists>e. la_map l k = Some e \<and> la_seq e = Suc (la_head l + i))" if i: "i < length rest" "rest ! i = Some k" for i k
  proof -
    obtain e' where e': "la_map l k = Some e'" "la_seq e' = la_head l + Suc i"
      using la_invD(4) [OF assms(1), of "Suc i" k] assms(2) i by auto
    obtain e0 where "la_map l key = Some e0" "la_seq e0 = la_head l"
      using la_invD(4) [OF assms(1), of 0 key] assms(2) by auto
    with e' show ?thesis
      by auto
  qed
  show "la_inv (l\<lparr>la_order := rest, la_map := (la_map l)(key := None), la_total := la_total l - la_size e,
      la_full_logged := b, la_head := la_head l + 1\<rparr>)"
    unfolding la_inv_def using total la_invD(1,2) [OF assms(1)] shift slots by auto
qed

text \<open>What eviction keeps: the invariant, a part of the entries unchanged, and room for what comes in.\<close>

definition la_shrunk :: "lookaside \<Rightarrow> lookaside \<Rightarrow> bool" where
  "la_shrunk l l' \<longleftrightarrow> la_map l' \<subseteq>\<^sub>m la_map l \<and> la_max_size l' = la_max_size l \<and> la_stale l' = la_stale l"

lemma la_shrunk_trans: "la_shrunk a b \<Longrightarrow> la_shrunk b c \<Longrightarrow> la_shrunk a c"
  by (auto simp: la_shrunk_def intro: map_le_trans)

lemma la_evict_ok:
  assumes "la_inv l"
  shows "la_inv (la_evict now incoming l) \<and> la_shrunk l (la_evict now incoming l) \<and>
    (la_total (la_evict now incoming l) + incoming \<le> la_max_size l \<or> la_map (la_evict now incoming l) = Map.empty)"
  using assms
proof (induction now incoming l rule: la_evict.induct)
  case (1 now incoming l)
  consider (empty) "la_order l = []" | (hole) rest where "la_order l = None # rest"
    | (live) key rest where "la_order l = Some key # rest"
    by (metis list.exhaust option.exhaust)
  then show ?case
  proof cases
    case empty
    then have "la_map l k = None" for k
      using la_invD(3) [OF 1(3), of k] by (cases "la_map l k") auto
    then have "la_map l = Map.empty"
      by (rule ext)
    with empty 1(3) show ?thesis
      by (subst (1 2 3 4) la_evict.simps) (simp add: la_shrunk_def)
  next
    case (hole rest)
    let ?l = "l\<lparr>la_order := rest, la_head := la_head l + 1\<rparr>"
    have e: "la_evict now incoming l = la_evict now incoming ?l"
      by (subst la_evict.simps) (simp add: hole la_live_def)
    have "la_live now l None = None"
      by (simp add: la_live_def)
    note ih = 1(1) [OF hole this la_inv_pop_empty [OF 1(3) hole]]
    have "la_shrunk l ?l"
      by (simp add: la_shrunk_def)
    with ih show ?thesis
      unfolding e by (auto intro: la_shrunk_trans)
  next
    case (live key rest)
    obtain e where m: "la_map l key = Some e"
      and lv: "la_live now l (Some key) = Some (now - la_timein e > la_stale l, la_size e)"
      using la_live_front [OF 1(3) live] by blast
    show ?thesis
    proof (cases "\<not> now - la_timein e > la_stale l \<and> la_total l + incoming \<le> la_max_size l")
      case True
      then have "la_evict now incoming l = l"
        by (subst la_evict.simps) (simp add: live lv)
      with True 1(3) show ?thesis
        by (simp add: la_shrunk_def)
    next
      case False
      let ?b = "la_full_logged l \<or> \<not> now - la_timein e > la_stale l"
      let ?l = "l\<lparr>la_order := rest, la_map := (la_map l)(key := None), la_total := la_total l - la_size e,
        la_full_logged := ?b, la_head := la_head l + 1\<rparr>"
      have e: "la_evict now incoming l = la_evict now incoming ?l"
        by (subst la_evict.simps) (simp only: live list.case lv option.case prod.case False if_False)
      note ih = 1(2) [OF live lv refl False, simplified, OF la_inv_pop_live(1) [OF 1(3) live m, of ?b, simplified]]
      have "la_shrunk l ?l"
        by (simp add: la_shrunk_def map_le_def)
      with ih show ?thesis
        unfolding e by (auto intro: la_shrunk_trans)
    qed
  qed
qed

definition la_bounded :: "lookaside \<Rightarrow> bool" where
  "la_bounded l \<longleftrightarrow> la_total l \<le> la_max_size l \<or> card (dom (la_map l)) \<le> 1"

lemma la_push_inv:
  assumes "la_inv l" and "la_map l key = None"
  shows "la_inv (l\<lparr>la_order := la_order l @ [Some key], la_total := la_total l + la_size e,
    la_map := (la_map l)(key \<mapsto> e\<lparr>la_seq := la_head l + length (la_order l)\<rparr>)\<rparr>)"
proof -
  let ?e = "e\<lparr>la_seq := la_head l + length (la_order l)\<rparr>"
  let ?m = "(la_map l)(key \<mapsto> ?e)" and ?o = "la_order l @ [Some key]"
  have 1: "finite (dom ?m)"
    using la_invD(1) [OF assms(1)] by simp
  have 2: "la_total l + la_size e = (\<Sum>k \<in> dom ?m. la_size (the (?m k)))"
    using sum_add_entry [OF la_invD(1) [OF assms(1)] assms(2), of ?e] la_invD(2) [OF assms(1)] by simp
  have 3: "la_head l \<le> la_seq e' \<and> la_seq e' < la_head l + length ?o \<and> ?o ! (la_seq e' - la_head l) = Some k"
    if "?m k = Some e'" for k e'
  proof (cases "k = key")
    case True
    with that show ?thesis by auto
  next
    case False
    then have "la_map l k = Some e'"
      using that by simp
    from la_invD(3) [OF assms(1) this] show ?thesis
      by (auto simp: nth_append)
  qed
  have 4: "\<exists>e'. ?m k = Some e' \<and> la_seq e' = la_head l + i" if i: "i < length ?o" "?o ! i = Some k" for i k
  proof (cases "i < length (la_order l)")
    case True
    then obtain e' where "la_map l k = Some e'" "la_seq e' = la_head l + i"
      using la_invD(4) [OF assms(1), of i k] i by (auto simp: nth_append)
    with assms(2) show ?thesis
      by (intro exI [of _ e']) auto
  next
    case False
    with i show ?thesis
      by (auto simp: nth_append less_Suc_eq)
  qed
  show ?thesis
    unfolding la_inv_def using 1 2 3 4 by simp
qed

lemma la_insert_ok:
  assumes "la_inv l" and "la_map l key = None"
  shows "la_inv (la_insert now key reply l) \<and> la_bounded (la_insert now key reply l) \<and>
    (\<exists>e. la_map (la_insert now key reply l) key = Some e \<and> la_reply e = reply) \<and>
    (\<forall>k e. k \<noteq> key \<and> la_map (la_insert now key reply l) k = Some e \<longrightarrow> la_map l k = Some e) \<and>
    la_max_size (la_insert now key reply l) = la_max_size l"
proof -
  let ?s = "ENTRY_OVERHEAD + length key + (case reply of None \<Rightarrow> 0 | Some r \<Rightarrow> length r)"
  define l2 where "l2 = la_evict now ?s l"
  let ?e = "\<lparr>la_timein = now, la_reply = reply, la_seq = la_head l2 + length (la_order l2), la_size = ?s\<rparr>"
  let ?l = "l2\<lparr>la_order := la_order l2 @ [Some key], la_total := la_total l2 + ?s, la_map := (la_map l2)(key \<mapsto> ?e)\<rparr>"
  have ins: "la_insert now key reply l = ?l"
    by (simp add: la_insert_def Let_def l2_def)
  have ev: "la_inv l2" "la_map l2 \<subseteq>\<^sub>m la_map l" "la_max_size l2 = la_max_size l"
    "la_total l2 + ?s \<le> la_max_size l \<or> la_map l2 = Map.empty"
    using la_evict_ok [OF assms(1), of now ?s] by (simp_all add: l2_def la_shrunk_def)
  have sub: "la_map l2 k = Some x \<Longrightarrow> la_map l k = Some x" for k x
    using ev(2) by (metis domI map_le_def)
  then have none: "la_map l2 key = None"
    using assms(2) by (cases "la_map l2 key") auto
  have "la_inv ?l"
    using la_push_inv [OF ev(1) none, of ?e] by simp
  moreover have "la_bounded ?l"
    using ev(3,4) by (auto simp: la_bounded_def)
  moreover have "\<forall>k x. k \<noteq> key \<and> la_map ?l k = Some x \<longrightarrow> la_map l k = Some x"
    using sub by simp
  ultimately show ?thesis
    unfolding ins using ev(3) by simp
qed

lemma la_discard_ok:
  assumes "la_inv l"
  shows "la_inv (la_discard req l) \<and> la_map (la_discard req l) = (la_map l)(req := None) \<and>
    la_total (la_discard req l) \<le> la_total l \<and> la_max_size (la_discard req l) = la_max_size l"
proof (cases "la_map l req")
  case None
  then have "la_map l = (la_map l)(req := None)"
    by auto
  with None assms show ?thesis
    by (simp add: la_discard_def)
next
  case (Some e)
  let ?i = "la_seq e - la_head l"
  let ?m = "(la_map l)(req := None)" and ?o = "(la_order l)[?i := None]"
  note e = la_invD(3) [OF assms Some]
  have l: "la_discard req l = l\<lparr>la_map := ?m, la_total := la_total l - la_size e, la_order := ?o\<rparr>"
    using Some e by (simp add: la_discard_def)
  have total: "la_total l - la_size e = (\<Sum>k \<in> dom ?m. la_size (the (?m k)))"
    using sum_remove_entry [OF la_invD(1) [OF assms] Some] la_invD(2) [OF assms] by linarith
  have entries: "la_head l \<le> la_seq e' \<and> la_seq e' < la_head l + length ?o \<and> ?o ! (la_seq e' - la_head l) = Some k"
    if "?m k = Some e'" for k e'
  proof -
    have k: "la_map l k = Some e'" "k \<noteq> req"
      using that by (auto split: if_splits)
    note e' = la_invD(3) [OF assms k(1)]
    have "la_seq e' \<noteq> la_seq e"
      using e e' k(2) by auto
    then have "la_seq e' - la_head l \<noteq> ?i"
      using e e' by linarith
    with e' show ?thesis
      by simp
  qed
  have slots: "\<exists>e'. ?m k = Some e' \<and> la_seq e' = la_head l + i" if i: "i < length ?o" "?o ! i = Some k" for i k
  proof -
    have "i \<noteq> ?i"
      using i by auto
    then obtain e' where e': "la_map l k = Some e'" "la_seq e' = la_head l + i"
      using la_invD(4) [OF assms, of i k] i by auto
    have "k \<noteq> req"
      using e' Some \<open>i \<noteq> ?i\<close> by auto
    with e' show ?thesis
      by simp
  qed
  have "finite (dom ?m)"
    using la_invD(1) [OF assms] by simp
  then show ?thesis
    unfolding l la_inv_def using total entries slots by simp
qed

lemma la_bounded_discard:
  assumes "la_inv l" and "la_bounded l"
  shows "la_bounded (la_discard req l)"
proof -
  note d = la_discard_ok [OF assms(1), of req]
  have "card (dom ((la_map l)(req := None))) \<le> card (dom (la_map l))"
    using la_invD(1) [OF assms(1)] by (intro card_mono) auto
  then show ?thesis
    using assms(2) d unfolding la_bounded_def by (elim conjE) (auto simp del: dom_fun_upd)
qed

text \<open>What a step may change of the entries, and what it keeps.\<close>

definition la_ok :: "lookaside \<Rightarrow> bool" where
  "la_ok l \<longleftrightarrow> la_inv l \<and> la_bounded l"

lemma la_finish_ok:
  assumes "la_ok l"
  shows "la_ok (la_finish now req reply l) \<and>
    (\<forall>k e. la_map (la_finish now req reply l) k = Some e \<and> k \<noteq> req \<longrightarrow> la_map l k = Some e) \<and>
    (case reply of
       None \<Rightarrow> la_map (la_finish now req reply l) req = None
     | Some r \<Rightarrow> if r = [] then la_map (la_finish now req reply l) req = None
                 else \<exists>e. la_map (la_finish now req reply l) req = Some e \<and> la_reply e = Some r)"
proof -
  let ?d = "la_discard req l"
  have d: "la_inv ?d" "la_map ?d = (la_map l)(req := None)" "la_bounded ?d"
    using assms la_discard_ok [of l req] la_bounded_discard [of l req] by (auto simp: la_ok_def)
  then have none: "la_map ?d req = None"
    by simp
  consider "reply = None" | "reply = Some []" | r where "reply = Some r" "r \<noteq> []"
    by (cases reply) auto
  then show ?thesis
  proof cases
    case 3
    with la_insert_ok [OF d(1) none, of now "Some r"] d(2) show ?thesis
      by (auto simp: la_finish_def la_ok_def)
  qed (use d in \<open>simp_all add: la_finish_def la_ok_def\<close>)
qed

lemma check_or_mark_ok:
  assumes "la_ok l"
  shows "la_ok (fst (check_or_mark now req l)) \<and>
    (\<forall>k e. la_map (fst (check_or_mark now req l)) k = Some e \<longrightarrow> la_map l k = Some e \<or> k = req \<and> la_reply e = None) \<and>
    (\<exists>e. la_map (fst (check_or_mark now req l)) req = Some e)"
proof (cases "la_map l req")
  case None
  have inv: "la_inv l"
    using assms by (simp add: la_ok_def)
  from None la_insert_ok [OF inv None, of now None] show ?thesis
    by (auto simp: check_or_mark_def la_ok_def) (metis option.inject)+
qed (use assms in \<open>simp add: check_or_mark_def\<close>)

lemma la_step_ok: "la_ok l \<Longrightarrow> la_ok (fst (la_step l x))"
  by (cases "(l, x)" rule: la_step.cases) (simp_all add: split_beta check_or_mark_ok la_finish_ok)

interpretation la: machine la_step la_ok
  by unfold_locales (rule la_step_ok)

lemma la_ok_new: "la_ok (la_with_limits max_size stale)"
  by (simp add: la_ok_def la_inv_def la_bounded_def la_with_limits_def)

subsection \<open>Replies\<close>

text \<open>The specification: the reply of the last call that finished a request, if it was not empty.\<close>

fun last_reply :: "(nat \<times> la_op) list \<Rightarrow> bytes \<Rightarrow> bytes option" where
  "last_reply [] k = None"
| "last_reply ((_, Check _) # xs) k = last_reply xs k"
| "last_reply ((_, Finish req reply) # xs) k =
     (if req = k then (case reply of None \<Rightarrow> None | Some r \<Rightarrow> if r = [] then None else Some r) else last_reply xs k)"

definition la_refines :: "lookaside \<Rightarrow> (bytes \<Rightarrow> bytes option) \<Rightarrow> bool" where
  "la_refines l spec \<longleftrightarrow> (\<forall>k e r. la_map l k = Some e \<and> la_reply e = Some r \<longrightarrow> spec k = Some r)"

lemma la_step_refines:
  assumes "la_ok l" and "la_refines l (last_reply xs)"
  shows "la_refines (fst (la_step l x)) (last_reply (x # xs))"
proof (cases x)
  case (Pair now op)
  show ?thesis
  proof (cases op)
    case (Check req)
    then show ?thesis
      using Pair assms(2) check_or_mark_ok [OF assms(1), of now req]
      by (fastforce simp: la_refines_def split_beta)
  next
    case (Finish req reply)
    note f = la_finish_ok [OF assms(1), of now req reply]
    show ?thesis
      unfolding la_refines_def
    proof (intro allI impI)
      fix k e r
      assume a: "la_map (fst (la_step l x)) k = Some e \<and> la_reply e = Some r"
      show "last_reply (x # xs) k = Some r"
      proof (cases "k = req")
        case True
        with a f Pair Finish show ?thesis
          by (auto split: option.splits if_splits)
      next
        case False
        then have "la_map l k = Some e"
          using a f Pair Finish by auto
        with a False assms(2) Pair Finish show ?thesis
          by (auto simp: la_refines_def)
      qed
    qed
  qed
qed

lemma run_refines:
  assumes "la_ok l" and "la_refines l (last_reply past)"
  shows "la_refines (fst (run la_step l xs)) (last_reply (rev xs @ past))"
  using assms
proof (induction xs arbitrary: l past)
  case (Cons x xs)
  then have "la_refines (fst (run la_step (fst (la_step l x)) xs)) (last_reply (rev xs @ x # past))"
    using la_step_refines la.step_inv by blast
  then show ?case
    by (simp add: split_beta)
qed simp

subsection \<open>Properties\<close>

text \<open>
  C11: The reply cache refines a map of last replies, in bounded space.  After any sequence of calls: a request
  that hits gets exactly the reply with which it was last finished, never an older or another one; a reply
  stored for a request is the one its next lookup hits; a request looked up twice without being finished is
  reported fresh at most once; the counted size is the sum of the entries' sizes and does not exceed the
  limit unless a single entry is left; every entry owns exactly one slot of the queue.
\<close>
theorem lookaside_refines_last_reply:
  assumes "fst (run la_step (la_with_limits max_size stale) xs) = l"
  shows "(snd (la_step l (t, Check req)) = Some (Hit r) \<longrightarrow> last_reply (rev xs) req = Some r) \<and>
    (r \<noteq> [] \<longrightarrow> snd (la_step (fst (la_step l (t, Finish req (Some r)))) (t', Check req)) = Some (Hit r)) \<and>
    snd (la_step (fst (la_step l (t, Check req))) (t', Check req)) \<noteq> Some Fresh \<and>
    la_total l = (\<Sum>k \<in> dom (la_map l). la_size (the (la_map l k))) \<and>
    (la_total l \<le> la_max_size l \<or> card (dom (la_map l)) \<le> 1) \<and>
    (\<forall>k e. la_map l k = Some e \<longrightarrow> (\<exists>!i. i < length (la_order l) \<and> la_order l ! i = Some k))"
proof -
  have ok: "la_ok l"
    using la.run_inv [OF la_ok_new, of max_size stale xs] assms by simp
  then have inv: "la_inv l" and bd: "la_total l \<le> la_max_size l \<or> card (dom (la_map l)) \<le> 1"
    by (simp_all add: la_ok_def la_bounded_def)
  have ref: "la_refines l (last_reply (rev xs))"
    using run_refines [OF la_ok_new, of max_size stale "[]" xs] assms by (simp add: la_refines_def la_with_limits_def)
  have hit: "snd (la_step l (t, Check req)) = Some (Hit r) \<longrightarrow> last_reply (rev xs) req = Some r"
    using ref by (auto simp: check_or_mark_def la_refines_def split: option.splits)
  have stored: "r \<noteq> [] \<longrightarrow> snd (la_step (fst (la_step l (t, Finish req (Some r)))) (t', Check req)) = Some (Hit r)"
    using la_finish_ok [OF ok, of t req "Some r"] by (auto simp: check_or_mark_def split_beta)
  have once: "snd (la_step (fst (la_step l (t, Check req))) (t', Check req)) \<noteq> Some Fresh"
  proof -
    obtain e where "la_map (fst (check_or_mark t req l)) req = Some e"
      using check_or_mark_ok [OF ok, of t req] by blast
    then show ?thesis
      by (simp add: check_or_mark_def [of t'] split_beta split: option.splits)
  qed
  have slot: "\<forall>k e. la_map l k = Some e \<longrightarrow> (\<exists>!i. i < length (la_order l) \<and> la_order l ! i = Some k)"
  proof (intro allI impI)
    fix k e
    assume k: "la_map l k = Some e"
    show "\<exists>!i. i < length (la_order l) \<and> la_order l ! i = Some k"
    proof (rule ex1I [of _ "la_seq e - la_head l"])
      show "la_seq e - la_head l < length (la_order l) \<and> la_order l ! (la_seq e - la_head l) = Some k"
        using la_invD(3) [OF inv k] by auto
    next
      fix i
      assume "i < length (la_order l) \<and> la_order l ! i = Some k"
      then show "i = la_seq e - la_head l"
        using la_invD(4) [OF inv, of i k] k by auto
    qed
  qed
  show ?thesis
    using hit stored once la_invD(2) [OF inv] bd slot by (intro conjI)
qed

theorem lookaside_refines_last_reply_witness:
  "snd (la_step (fst (run la_step (la_with_limits 1000 120) [(0, Check [1]), (1, Finish [1] (Some [7]))])) (2, Check [1]))
     = Some (Hit [7]) \<and>
   last_reply [(1, Finish [1] (Some [7])), (0, Check [1])] [1] = Some [7]"
proof -
  let ?l = "fst (run la_step (la_with_limits 1000 120) [(0, Check [1]), (1, Finish [1] (Some [7]))])"
  have "snd (la_step ?l (2, Check [1])) = Some (Hit [7])"
    by (simp add: la_with_limits_def check_or_mark_def la_insert_def la_evict.simps la_finish_def la_discard_def Let_def)
  with lookaside_refines_last_reply [OF refl, of 1000 120 "[(0, Check [1]), (1, Finish [1] (Some [7]))]" 2 "[1]" "[7]"]
  show ?thesis
    by simp
qed

end
