(* ===== verification/Transit.thy ===== *)
theory Transit
  imports Messages "HOL-Library.Sublist"
begin

text \<open>
  The transited field of a ticket (\<open>TransitedEncoding\<close> and the functions behind it in
  \<open>crates/krb5-types/src/lib.rs\<close>) and the check of its hops against the realm tree
  (\<open>crates/krb5-types/src/transited.rs\<close>).  The two readers of the compressed form are loops over the
  octets with an explicit state; the octets are first made valid UTF-8 as in the code.  The
  lemmas show that what \<open>from_realms\<close> writes \<open>realms_for\<close> reads back, that \<open>append_realm\<close> adds exactly
  one hop at the end, and that a ticket passes the check exactly if all its hops lie on the path
  between the client's and the server's realm, which climbs to the lowest common domain and no further.
\<close>

subsection \<open>Writing\<close>

datatype transit_error = FieldTooLong | TooManyFields | BadIntermediates

abbreviation (input) MAX_TRANSIT_REALMS :: nat where "MAX_TRANSIT_REALMS \<equiv> 256"
abbreviation (input) MAX_TRANSIT_HOPS :: nat where "MAX_TRANSIT_HOPS \<equiv> 4096"
abbreviation (input) MAX_TRANSIT_RAW :: nat where "MAX_TRANSIT_RAW \<equiv> 512"
abbreviation (input) MAX_TRANSIT_JOINED :: nat where "MAX_TRANSIT_JOINED \<equiv> 512"
abbreviation (input) MAX_ADD_PATH_RAW :: nat where "MAX_ADD_PATH_RAW \<equiv> 500"
abbreviation (input) MAX_ADD_PATH_JOINED :: nat where "MAX_ADD_PATH_JOINED \<equiv> 499"
abbreviation (input) MAX_ADD_PATH_TOTAL :: nat where "MAX_ADD_PATH_TOTAL \<equiv> 500"

definition strip_trailing_nul :: "string \<Rightarrow> string" where
  "strip_trailing_nul raw = (if raw \<noteq> [] \<and> last raw = CHR 0x00 then butlast raw else raw)"

text \<open>The backslashes right before index \<open>i\<close>.\<close>

fun count_bs :: "string \<Rightarrow> nat \<Rightarrow> nat" where
  "count_bs buf 0 = 0"
| "count_bs buf (Suc i) = (if buf ! i = CHR 0x5C then Suc (count_bs buf i) else 0)"

definition drop_trailing_unescaped_comma :: "string \<Rightarrow> string" where
  "drop_trailing_unescaped_comma buf =
     (if buf = [] \<or> last buf \<noteq> CHR '','' then buf
      else if even (count_bs buf (length buf - 1)) then butlast buf else buf)"

fun escape_transit_realm :: "string \<Rightarrow> string" where
  "escape_transit_realm [] = []"
| "escape_transit_realm (c # cs) =
     (if c = CHR 0x5C \<or> c = CHR '','' then [CHR 0x5C, c] else [c]) @ escape_transit_realm cs"

definition encode_append :: "string \<Rightarrow> string \<Rightarrow> string" where
  "encode_append raw realm =
     (let contents = drop_trailing_unescaped_comma (strip_trailing_nul raw) in
      contents
      @ (if contents \<noteq> [] then CHR '','' # (if starts_with realm ''/'' then '' '' else []) else [])
      @ escape_transit_realm realm)"

subsection \<open>Reading a path to add to it\<close>

definition push_hop :: "string list \<Rightarrow> string \<Rightarrow> transit_error + string list" where
  "push_hop out hop = (if length out \<ge> MAX_TRANSIT_HOPS then Inl TooManyFields else Inr (out @ [hop]))"

definition add_path_join :: "string \<Rightarrow> string \<Rightarrow> transit_error + string" where
  "add_path_join lst cur =
     (case strip_prefix '' '' cur of
        Some rest \<Rightarrow> (if length rest \<ge> MAX_ADD_PATH_RAW then Inl FieldTooLong else Inr rest)
      | None \<Rightarrow>
          if starts_with cur ''/'' \<and> starts_with lst ''/'' then
            (if length lst + length cur \<ge> MAX_ADD_PATH_JOINED then Inl FieldTooLong
             else Inr (lst @ cur))
          else if ends_with cur ''.'' then
            (if length cur + length lst \<ge> MAX_ADD_PATH_JOINED then Inl FieldTooLong
             else Inr (cur @ lst))
          else Inr cur)"

record add_path_state =
  ap_out :: "string list"
  ap_last :: string
  ap_cur :: string
  ap_escaped :: bool

definition emit_add_path_field :: "add_path_state \<Rightarrow> transit_error + add_path_state" where
  "emit_add_path_field st =
     (if ap_cur st = [] then Inr st
      else andthen (add_path_join (ap_last st) (ap_cur st)) (\<lambda>this.
           andthen (push_hop (ap_out st) this) (\<lambda>out.
             Inr (st\<lparr>ap_out := out, ap_last := this, ap_cur := []\<rparr>))))"

definition add_path_push :: "add_path_state \<Rightarrow> char \<Rightarrow> transit_error + add_path_state" where
  "add_path_push st c =
     (if Suc (length (ap_cur st)) \<ge> MAX_ADD_PATH_RAW then Inl FieldTooLong
      else Inr (st\<lparr>ap_cur := ap_cur st @ [c], ap_escaped := False\<rparr>))"

definition add_path_char :: "char \<Rightarrow> add_path_state \<Rightarrow> transit_error + add_path_state" where
  "add_path_char c st =
     (if ap_escaped st then add_path_push st c
      else if c = CHR 0x5C then Inr (st\<lparr>ap_escaped := True\<rparr>)
      else if c = CHR '','' then emit_add_path_field st
      else add_path_push st c)"

fun add_path_loop :: "string \<Rightarrow> add_path_state \<Rightarrow> transit_error + add_path_state" where
  "add_path_loop [] st = Inr st"
| "add_path_loop (c # cs) st = andthen (add_path_char c st) (add_path_loop cs)"

definition add_path_init :: add_path_state where
  "add_path_init = \<lparr>ap_out = [], ap_last = [], ap_cur = [], ap_escaped = False\<rparr>"

definition expand_add_path :: "string \<Rightarrow> transit_error + string list" where
  "expand_add_path raw0 =
     (let raw = strip_trailing_nul raw0 in
      if length (drop_trailing_unescaped_comma raw) \<ge> MAX_ADD_PATH_TOTAL then Inl FieldTooLong
      else if raw = [] then Inr []
      else andthen (add_path_loop (from_utf8_lossy raw) add_path_init) (\<lambda>st.
           andthen (emit_add_path_field st) (\<lambda>st'. Inr (ap_out st'))))"

subsection \<open>Reading a path to check it\<close>

fun push_hops :: "string list \<Rightarrow> string list \<Rightarrow> transit_error + string list" where
  "push_hops out [] = Inr out"
| "push_hops out (h # hs) = andthen (push_hop out h) (\<lambda>out'. push_hops out' hs)"

definition process_intermediates ::
  "string \<Rightarrow> string \<Rightarrow> string list \<Rightarrow> transit_error + string list" where
  "process_intermediates n1 n2 out =
     (let (short, long) = (if length n1 > length n2 then (n2, n1) else (n1, n2)) in
      if length short = length long then
        (if short = long then Inr out else Inl BadIntermediates)
      else if short = [] then Inl BadIntermediates
      else if hd short = CHR ''/'' then
        (if hd long \<noteq> CHR ''/'' \<or> \<not> starts_with long short then Inl BadIntermediates
         else push_hops out
           [take i long. i \<leftarrow> [Suc (length short)..<length long], long ! i = CHR ''/''])
      else
        (if hd long = CHR ''/'' \<or> \<not> ends_with long short then Inl BadIntermediates
         else push_hops out
           [drop i long. i \<leftarrow> rev [1..<length long - length short], long ! (i - 1) = CHR ''.'']))"

definition maybe_join :: "string \<Rightarrow> string \<Rightarrow> transit_error + string option" where
  "maybe_join lst cur =
     (if cur = [] then Inr None
      else if length cur \<ge> MAX_TRANSIT_RAW then Inl FieldTooLong
      else let expanded = (if starts_with cur ''/'' then lst @ cur
                           else if ends_with cur ''.'' then cur @ lst
                           else cur) in
        if length expanded > MAX_TRANSIT_JOINED then Inl FieldTooLong else Inr (Some expanded))"

record x500_state =
  x_out :: "string list"
  x_last :: string
  x_cur :: string
  x_escaped :: bool
  x_intermediates :: bool
  x_at_start :: bool

definition emit_joined :: "x500_state \<Rightarrow> transit_error + x500_state" where
  "emit_joined st =
     andthen (maybe_join (x_last st) (x_cur st)) (\<lambda>this_opt.
       case this_opt of
         None \<Rightarrow> Inr (st\<lparr>x_cur := []\<rparr>)
       | Some this \<Rightarrow>
           andthen (push_hop (x_out st) this) (\<lambda>out.
           andthen (if x_intermediates st then process_intermediates this (x_last st) out
                    else Inr out) (\<lambda>out'.
             Inr (st\<lparr>x_out := out', x_last := this, x_cur := []\<rparr>))))"

definition x500_char :: "string \<Rightarrow> char \<Rightarrow> x500_state \<Rightarrow> transit_error + x500_state" where
  "x500_char crealm c st =
     (if x_escaped st then Inr (st\<lparr>x_cur := x_cur st @ [c], x_escaped := False, x_at_start := False\<rparr>)
      else andthen
        (if c = CHR 0x5C then Inr (st\<lparr>x_escaped := True\<rparr>)
         else if c = CHR '','' then
           (if x_cur st = [] then
              (if x_at_start st then
                 (if length crealm \<ge> MAX_TRANSIT_RAW then Inl FieldTooLong
                  else Inr (st\<lparr>x_intermediates := True, x_last := crealm\<rparr>))
               else Inr (st\<lparr>x_intermediates := True\<rparr>))
            else andthen (emit_joined st) (\<lambda>st'. Inr (st'\<lparr>x_intermediates := False\<rparr>)))
         else if c = CHR '' '' \<and> x_cur st = [] then Inr (st\<lparr>x_last := []\<rparr>)
         else Inr (st\<lparr>x_cur := x_cur st @ [c]\<rparr>))
        (\<lambda>st'. Inr (st'\<lparr>x_at_start := False\<rparr>)))"

fun x500_loop :: "string \<Rightarrow> string \<Rightarrow> x500_state \<Rightarrow> transit_error + x500_state" where
  "x500_loop crealm [] st = Inr st"
| "x500_loop crealm (c # cs) st = andthen (x500_char crealm c st) (x500_loop crealm cs)"

definition x500_init :: x500_state where
  "x500_init = \<lparr>x_out = [], x_last = [], x_cur = [], x_escaped = False, x_intermediates = False,
                x_at_start = True\<rparr>"

definition expand_domain_x500 :: "string \<Rightarrow> string \<Rightarrow> string \<Rightarrow> transit_error + string list" where
  "expand_domain_x500 raw0 crealm srealm =
     (let raw = strip_trailing_nul raw0 in
      if raw = [] then Inr []
      else if length (filter (\<lambda>b. b = CHR '','') raw) > MAX_TRANSIT_REALMS then Inl TooManyFields
      else andthen (x500_loop crealm (from_utf8_lossy raw) x500_init) (\<lambda>st.
        if x_cur st = [] then
          (if length srealm \<ge> MAX_TRANSIT_RAW then Inl FieldTooLong
           else process_intermediates (x_last st) srealm (x_out st))
        else andthen (emit_joined st) (\<lambda>st'. Inr (x_out st'))))"

subsection \<open>The encoding as a value\<close>

definition from_realms :: "string list \<Rightarrow> transited_encoding" where
  "from_realms realms =
     \<lparr>tr_type = 1, tr_contents = fold (\<lambda>r contents. encode_append contents r) realms []\<rparr>"

definition transited_empty :: transited_encoding where
  "transited_empty = from_realms []"

definition realms_for :: "transited_encoding \<Rightarrow> string \<Rightarrow> string \<Rightarrow> transit_error + string list" where
  "realms_for t crealm srealm = expand_domain_x500 (tr_contents t) crealm srealm"

definition append_realm ::
  "transited_encoding \<Rightarrow> string \<Rightarrow> string \<Rightarrow> string \<Rightarrow> transit_error + transited_encoding" where
  "append_realm t realm crealm srealm =
     andthen (expand_add_path (tr_contents t)) (\<lambda>hops.
       if realm \<in> set hops then Inr t
       else let contents = encode_append (tr_contents t) realm in
         if length contents \<ge> MAX_ADD_PATH_TOTAL then Inl FieldTooLong
         else Inr \<lparr>tr_type = 1, tr_contents = contents\<rparr>)"

definition validate_add_path :: "transited_encoding \<Rightarrow> transit_error + unit" where
  "validate_add_path t = andthen (expand_add_path (tr_contents t)) (\<lambda>_. Inr ())"

subsection \<open>The realm tree\<close>

type_synonym capaths = "string \<Rightarrow> (string \<Rightarrow> string list option) option"

fun common_tail :: "string list \<Rightarrow> string list \<Rightarrow> nat" where
  "common_tail (c # cs) (s # ss) = (if c = s then Suc (common_tail cs ss) else 0)"
| "common_tail _ _ = 0"

definition hierarchical_walk_realms :: "string \<Rightarrow> string \<Rightarrow> string list" where
  "hierarchical_walk_realms client server =
     (if length client \<ge> MAX_TRANSIT_RAW \<or> length server \<ge> MAX_TRANSIT_RAW then []
      else if client = server then []
      else
        let c = split_on (CHR ''.'') client;
            s = split_on (CHR ''.'') server;
            common = common_tail (rev c) (rev s);
            ct = map (\<lambda>k. str_join ''.'' (drop k c)) [0..<length c];
            st = map (\<lambda>k. str_join ''.'' (drop k s)) [0..<length s];
            c_keep = (if common = 0 then length ct else length ct - common + 1);
            s_keep = (if common = 0 then length st else length st - common)
        in take c_keep ct @ rev (take s_keep st))"

definition walk_realm_tree :: "capaths \<Rightarrow> string \<Rightarrow> string \<Rightarrow> string list" where
  "walk_realm_tree cap client server =
     (if client = server then []
      else case Option.bind (cap client) (\<lambda>m. m server) of
        Some vals \<Rightarrow> [client] @ filter (\<lambda>v. v \<noteq> ''.'') vals @ [server]
      | None \<Rightarrow> hierarchical_walk_realms client server)"

definition transit_allowed :: "capaths \<Rightarrow> string \<Rightarrow> string \<Rightarrow> string list \<Rightarrow> bool" where
  "transit_allowed cap crealm srealm hops =
     (let path = walk_realm_tree cap crealm srealm;
          tgs_realms = take (length path - 1) path
      in list_all (\<lambda>h. h \<in> set tgs_realms) hops)"

definition check_transited :: "enc_ticket_part \<Rightarrow> string \<Rightarrow> capaths \<Rightarrow> int + unit" where
  "check_transited part srealm cap =
     (let raw = tr_contents (tk_transited part) in
      if flag (tk_flags part) BIT_TRANSITED_POLICY_CHECKED \<or> raw = [] \<or> hd raw = CHR 0x00
      then Inr ()
      else
        let crealm = from_utf8_lossy (tk_crealm part) in
        if crealm = ''WELLKNOWN:ANONYMOUS'' then Inr ()
        else if crealm = srealm then Inl ERR_NO_TKT_IN_RLM
        else andthen (map_err (\<lambda>_. ERR_ILL_CR_TKT) (realms_for (tk_transited part) crealm srealm))
          (\<lambda>hops. if transit_allowed cap crealm srealm hops then Inr () else Inl ERR_ILL_CR_TKT))"

subsection \<open>Escapes and trailing commas\<close>

definition trailing_bs :: "string \<Rightarrow> nat" where
  "trailing_bs s = length (takeWhile (\<lambda>c. c = CHR 0x5C) (rev s))"

lemma trailing_bs_snoc [simp]:
  "trailing_bs (s @ [c]) = (if c = CHR 0x5C then Suc (trailing_bs s) else 0)"
  by (simp add: trailing_bs_def)

lemma trailing_bs_Nil [simp]: "trailing_bs [] = 0"
  by (simp add: trailing_bs_def)

lemma count_bs_trailing: "i \<le> length buf \<Longrightarrow> count_bs buf i = trailing_bs (take i buf)"
  by (induction i) (auto simp: take_Suc_conv_app_nth)

lemma drop_trailing_snoc:
  "drop_trailing_unescaped_comma (xs @ [CHR '','']) =
     (if even (trailing_bs xs) then xs else xs @ [CHR '',''])"
  by (simp add: drop_trailing_unescaped_comma_def count_bs_trailing)

lemma drop_trailing_other:
  "xs = [] \<or> last xs \<noteq> CHR '','' \<Longrightarrow> drop_trailing_unescaped_comma xs = xs"
  by (auto simp: drop_trailing_unescaped_comma_def)

lemma escape_append [simp]:
  "escape_transit_realm (a @ b) = escape_transit_realm a @ escape_transit_realm b"
  by (induction a) auto

lemma trailing_bs_escape:
  "even (trailing_bs y) \<Longrightarrow> even (trailing_bs (y @ escape_transit_realm r))"
proof (induction r rule: rev_induct)
  case Nil
  then show ?case by simp
next
  case (snoc c r)
  then have "even (trailing_bs (y @ escape_transit_realm r))"
    by blast
  moreover have "trailing_bs (y @ escape_transit_realm (r @ [c])) =
      (if c = CHR 0x5C then Suc (Suc (trailing_bs (y @ escape_transit_realm r))) else 0)"
    using trailing_bs_snoc [of "y @ escape_transit_realm r @ [CHR 0x5C]" c]
      trailing_bs_snoc [of "y @ escape_transit_realm r" c]
      trailing_bs_snoc [of "y @ escape_transit_realm r" "CHR 0x5C"]
    by auto
  ultimately show ?case
    by simp
qed

lemma drop_trailing_escape:
  assumes "even (trailing_bs y)" and "r \<noteq> []"
  shows "drop_trailing_unescaped_comma (y @ escape_transit_realm r) = y @ escape_transit_realm r"
proof -
  obtain r' c where r: "r = r' @ [c]"
    using assms(2) by (cases r rule: rev_cases) auto
  show ?thesis
  proof (cases "c = CHR '',''")
    case True
    have "trailing_bs (y @ escape_transit_realm r' @ [CHR 0x5C])
        = Suc (trailing_bs (y @ escape_transit_realm r'))"
      using trailing_bs_snoc [of "y @ escape_transit_realm r'" "CHR 0x5C"] by simp
    with True trailing_bs_escape [OF assms(1), of r'] show ?thesis
      using drop_trailing_snoc [of "y @ escape_transit_realm r' @ [CHR 0x5C]"] by (simp add: r)
  next
    case False
    then show ?thesis
      by (intro drop_trailing_other) (simp add: r)
  qed
qed

lemma escape_ne [simp]: "escape_transit_realm r = [] \<longleftrightarrow> r = []"
  by (cases r) auto

lemma last_escape: "r \<noteq> [] \<Longrightarrow> last (y @ escape_transit_realm r) = last r"
  by (cases r rule: rev_cases) auto

lemma hd_escape: "r \<noteq> [] \<Longrightarrow> hd (escape_transit_realm r) \<in> {hd r, CHR 0x5C}"
  by (cases r) auto

lemma is_ascii_append [simp]: "is_ascii (a @ b) \<longleftrightarrow> is_ascii a \<and> is_ascii b"
  by (simp add: is_ascii_def)

lemma is_ascii_escape: "is_ascii r \<Longrightarrow> is_ascii (escape_transit_realm r)"
  by (induction r) (auto simp: ord_of_def)

text \<open>
  Realms whose encoding is not a compressed form: not empty, no leading space, no trailing dot
  and no trailing NUL octet, and shorter than the readers' limits.
\<close>

definition plain_realm :: "string \<Rightarrow> bool" where
  "plain_realm r \<longleftrightarrow> r \<noteq> [] \<and> is_ascii r \<and> hd r \<noteq> CHR '' '' \<and> last r \<noteq> CHR ''.'' \<and>
     last r \<noteq> CHR 0x00 \<and> length r < 500"

definition separator :: "string \<Rightarrow> string \<Rightarrow> string" where
  "separator t r = (if t = [] then [] else CHR '','' # (if starts_with r ''/'' then '' '' else []))"

lemma even_trailing_separator: "even (trailing_bs (t @ separator t r))"
proof (cases "t = []")
  case False
  then show ?thesis
    using trailing_bs_snoc [of t "CHR '',''"] trailing_bs_snoc [of "t @ [CHR '','']" "CHR '' ''"]
    by (simp add: separator_def)
qed (simp add: separator_def)

lemma encode_append_alt:
  "encode_append raw r =
     (let t = drop_trailing_unescaped_comma (strip_trailing_nul raw) in
      t @ separator t r @ escape_transit_realm r)"
  by (simp add: encode_append_def separator_def Let_def)

lemma encode_append_stable:
  assumes "plain_realm r"
  shows "strip_trailing_nul (t @ separator t r @ escape_transit_realm r)
           = t @ separator t r @ escape_transit_realm r"
    and "drop_trailing_unescaped_comma (t @ separator t r @ escape_transit_realm r)
           = t @ separator t r @ escape_transit_realm r"
proof -
  from assms have r: "r \<noteq> []" "last r \<noteq> CHR 0x00"
    by (simp_all add: plain_realm_def)
  show "strip_trailing_nul (t @ separator t r @ escape_transit_realm r)
      = t @ separator t r @ escape_transit_realm r"
    using last_escape [OF r(1), of "t @ separator t r"] r by (simp add: strip_trailing_nul_def)
  show "drop_trailing_unescaped_comma (t @ separator t r @ escape_transit_realm r)
      = t @ separator t r @ escape_transit_realm r"
    using drop_trailing_escape [OF even_trailing_separator r(1), of t r] by simp
qed

subsection \<open>What \<open>from_realms\<close> writes is read back\<close>

lemma x500_loop_append:
  "x500_loop cr (a @ b) st = andthen (x500_loop cr a st) (x500_loop cr b)"
proof (induction a arbitrary: st)
  case (Cons c a)
  then show ?case
    by (cases "x500_char cr c st") auto
qed simp

lemma x500_loop_escape:
  assumes "\<not> x_escaped st" and "x_cur st = [] \<Longrightarrow> r \<noteq> [] \<Longrightarrow> hd r \<noteq> CHR '' ''"
  shows "x500_loop cr (escape_transit_realm r) st =
    Inr (if r = [] then st else st\<lparr>x_cur := x_cur st @ r, x_at_start := False\<rparr>)"
  using assms
proof (induction r arbitrary: st)
  case (Cons c r)
  let ?st = "st\<lparr>x_cur := x_cur st @ [c], x_at_start := False\<rparr>"
  have "x500_loop cr (if c = CHR 0x5C \<or> c = CHR '','' then [CHR 0x5C, c] else [c]) st = Inr ?st"
    using Cons.prems by (auto simp: x500_char_def)
  then have "x500_loop cr (escape_transit_realm (c # r)) st
      = x500_loop cr (escape_transit_realm r) ?st"
    by (simp add: x500_loop_append)
  also have "\<dots> = Inr (if r = [] then ?st else ?st\<lparr>x_cur := x_cur ?st @ r, x_at_start := False\<rparr>)"
    by (rule Cons.IH) (use Cons.prems in auto)
  finally show ?case
    by simp
qed simp

definition transit_text :: "string list \<Rightarrow> string" where
  "transit_text rs = fold (\<lambda>r t. t @ separator t r @ escape_transit_realm r) rs []"

lemma transit_text_Nil [simp]: "transit_text [] = []"
  by (simp add: transit_text_def)

lemma transit_text_snoc:
  "transit_text (rs @ [r]) = transit_text rs @ separator (transit_text rs) r @ escape_transit_realm r"
  by (simp add: transit_text_def)

lemma transit_text_ne: "rs \<noteq> [] \<Longrightarrow> list_all plain_realm rs \<Longrightarrow> transit_text rs \<noteq> []"
  by (cases rs rule: rev_cases) (auto simp: transit_text_snoc plain_realm_def)

lemma transit_text_stable:
  assumes "list_all plain_realm rs"
  shows "strip_trailing_nul (transit_text rs) = transit_text rs"
    and "drop_trailing_unescaped_comma (transit_text rs) = transit_text rs"
  using assms encode_append_stable
  by (cases rs rule: rev_cases; simp add: transit_text_snoc strip_trailing_nul_def
      drop_trailing_unescaped_comma_def; fail)+

lemma from_realms_text:
  "list_all plain_realm rs \<Longrightarrow> tr_contents (from_realms rs) = transit_text rs"
proof (induction rs rule: rev_induct)
  case Nil
  then show ?case by (simp add: from_realms_def)
next
  case (snoc r rs)
  then have "tr_contents (from_realms (rs @ [r])) = encode_append (transit_text rs) r"
    by (simp add: from_realms_def)
  with snoc show ?case
    by (simp add: encode_append_alt transit_text_stable transit_text_snoc Let_def)
qed

lemma is_ascii_transit_text: "list_all plain_realm rs \<Longrightarrow> is_ascii (transit_text rs)"
  by (induction rs rule: rev_induct)
    (auto simp: transit_text_snoc separator_def is_ascii_escape plain_realm_def ord_of_def)

lemma commas_transit_text:
  "list_all plain_realm rs \<Longrightarrow>
     length rs \<le> Suc (length (filter (\<lambda>b. b = CHR '','') (transit_text rs)))"
proof (induction rs rule: rev_induct)
  case (snoc r rs)
  show ?case
  proof (cases "rs = []")
    case False
    with snoc have "transit_text rs \<noteq> []"
      using transit_text_ne by auto
    with snoc show ?thesis
      by (simp add: transit_text_snoc separator_def)
  qed simp
qed simp

text \<open>The reader's state once the last realm stands in \<open>cur\<close>.\<close>

lemma emit_joined_plain:
  assumes "plain_realm r" and "length rs < MAX_TRANSIT_HOPS" and "starts_with r ''/'' \<longrightarrow> lst = []"
  shows "emit_joined \<lparr>x_out = rs, x_last = lst, x_cur = r, x_escaped = False,
             x_intermediates = False, x_at_start = False\<rparr> =
           Inr \<lparr>x_out = rs @ [r], x_last = r, x_cur = [], x_escaped = False,
             x_intermediates = False, x_at_start = False\<rparr>"
proof -
  have "\<not> ends_with r ''.''"
    using assms(1) by (auto simp: plain_realm_def ends_with_iff)
  then show ?thesis
    using assms by (auto simp: emit_joined_def maybe_join_def plain_realm_def push_hop_def)
qed

lemma x500_loop_text:
  assumes "list_all plain_realm (rs @ [r])" and "length rs < MAX_TRANSIT_HOPS"
  shows "\<exists>lst. (starts_with r ''/'' \<longrightarrow> lst = []) \<and>
    x500_loop cr (transit_text (rs @ [r])) x500_init =
      Inr \<lparr>x_out = rs, x_last = lst, x_cur = r, x_escaped = False, x_intermediates = False,
           x_at_start = False\<rparr>"
  using assms
proof (induction rs arbitrary: r rule: rev_induct)
  case Nil
  then show ?case
    using transit_text_snoc [of "[]" r]
    by (simp add: separator_def x500_init_def x500_loop_escape plain_realm_def)
next
  case (snoc q rs)
  then obtain lst where lst: "starts_with q ''/'' \<longrightarrow> lst = []"
    and st: "x500_loop cr (transit_text (rs @ [q])) x500_init =
      Inr \<lparr>x_out = rs, x_last = lst, x_cur = q, x_escaped = False, x_intermediates = False,
           x_at_start = False\<rparr>"
    using snoc.IH [of q] by auto
  let ?st = "\<lparr>x_out = rs, x_last = lst, x_cur = q, x_escaped = False, x_intermediates = False,
           x_at_start = False\<rparr>"
  let ?st' = "\<lparr>x_out = rs @ [q], x_last = (if starts_with r ''/'' then [] else q), x_cur = [],
           x_escaped = False, x_intermediates = False, x_at_start = False\<rparr>"
  have q: "plain_realm q" "q \<noteq> []" and r: "plain_realm r" "r \<noteq> []" "hd r \<noteq> CHR '' ''"
    using snoc.prems by (simp_all add: plain_realm_def)
  have ne: "transit_text (rs @ [q]) \<noteq> []"
    using snoc.prems by (intro transit_text_ne) auto
  have emit: "emit_joined ?st = Inr (?st'\<lparr>x_last := q\<rparr>)"
    using emit_joined_plain [OF q(1) _ lst, of rs] snoc.prems by simp
  have sep: "x500_loop cr (separator (transit_text (rs @ [q])) r) ?st = Inr ?st'"
    using ne q(2) emit by (simp add: separator_def x500_char_def)
  have "x500_loop cr (transit_text ((rs @ [q]) @ [r])) x500_init
      = x500_loop cr (escape_transit_realm r) ?st'"
    by (simp only: transit_text_snoc [of "rs @ [q]" r] x500_loop_append st sep andthen_simps)
  also have "\<dots> = Inr (?st'\<lparr>x_cur := r\<rparr>)"
    using r by (simp add: x500_loop_escape)
  finally show ?case
    by (intro exI [of _ "if starts_with r ''/'' then [] else q"]) simp
qed

lemma realms_for_from_realms:
  assumes plain: "list_all plain_realm rs"
    and commas: "length (filter (\<lambda>b. b = CHR '','') (tr_contents (from_realms rs))) \<le> MAX_TRANSIT_REALMS"
  shows "realms_for (from_realms rs) crealm srealm = Inr rs"
proof (cases rs rule: rev_cases)
  case Nil
  then show ?thesis
    by (simp add: realms_for_def from_realms_def expand_domain_x500_def strip_trailing_nul_def)
next
  case (snoc qs r)
  let ?t = "transit_text rs"
  have len: "length qs < MAX_TRANSIT_HOPS"
    using commas_transit_text [OF plain] commas from_realms_text [OF plain] snoc by simp
  obtain lst where lst: "starts_with r ''/'' \<longrightarrow> lst = []" and
    st: "x500_loop crealm ?t x500_init =
      Inr \<lparr>x_out = qs, x_last = lst, x_cur = r, x_escaped = False, x_intermediates = False,
           x_at_start = False\<rparr>"
    using x500_loop_text [of qs r crealm] plain len snoc by auto
  have r: "plain_realm r" "r \<noteq> []"
    using plain snoc by (simp_all add: plain_realm_def)
  have "?t \<noteq> []"
    using transit_text_ne plain snoc by simp
  moreover have "from_utf8_lossy ?t = ?t"
    using is_ascii_transit_text [OF plain] by simp
  ultimately show ?thesis
    using commas from_realms_text [OF plain] transit_text_stable(1) [OF plain] st r
      emit_joined_plain [OF r(1) len lst] snoc
    by (simp add: realms_for_def expand_domain_x500_def)
qed

subsection \<open>Appending a realm adds one hop\<close>

lemma add_path_loop_append:
  "add_path_loop (a @ b) st = andthen (add_path_loop a st) (add_path_loop b)"
proof (induction a arbitrary: st)
  case (Cons c a)
  then show ?case
    by (cases "add_path_char c st") auto
qed simp

text \<open>Whether a text ends in the middle of an escape.\<close>

fun dangling :: "bool \<Rightarrow> string \<Rightarrow> bool" where
  "dangling e [] = e"
| "dangling e (c # cs) = dangling (\<not> e \<and> c = CHR 0x5C) cs"

lemma add_path_char_escaped:
  "add_path_char c st = Inr st' \<Longrightarrow> ap_escaped st' = (\<not> ap_escaped st \<and> c = CHR 0x5C)"
  by (auto simp: add_path_char_def add_path_push_def emit_add_path_field_def split: if_splits)

lemma add_path_loop_escaped:
  "add_path_loop s st = Inr st' \<Longrightarrow> ap_escaped st' = dangling (ap_escaped st) s"
proof (induction s arbitrary: st)
  case (Cons c s)
  then obtain st1 where "add_path_char c st = Inr st1" and "add_path_loop s st1 = Inr st'"
    by auto
  with Cons.IH add_path_char_escaped [of c st st1] show ?case
    by simp
qed simp

lemma add_path_loop_escape:
  assumes "\<not> ap_escaped st" and "length (ap_cur st) + length r < MAX_ADD_PATH_RAW"
  shows "add_path_loop (escape_transit_realm r) st = Inr (st\<lparr>ap_cur := ap_cur st @ r\<rparr>)"
  using assms
proof (induction r arbitrary: st)
  case (Cons c r)
  let ?st = "st\<lparr>ap_cur := ap_cur st @ [c]\<rparr>"
  have "add_path_loop (if c = CHR 0x5C \<or> c = CHR '','' then [CHR 0x5C, c] else [c]) st = Inr ?st"
    using Cons.prems by (auto simp: add_path_char_def add_path_push_def)
  then have "add_path_loop (escape_transit_realm (c # r)) st
      = add_path_loop (escape_transit_realm r) ?st"
    by (simp add: add_path_loop_append)
  also have "\<dots> = Inr (?st\<lparr>ap_cur := ap_cur ?st @ r\<rparr>)"
    by (rule Cons.IH) (use Cons.prems in auto)
  finally show ?case
    by simp
qed simp

text \<open>No more hops than octets.\<close>

definition pending :: "add_path_state \<Rightarrow> nat" where
  "pending st = length (ap_out st) + (if ap_cur st = [] then 0 else 1)"

lemma emit_add_path_pending:
  "emit_add_path_field st = Inr st' \<Longrightarrow> pending st' = pending st \<and> ap_cur st' = []"
  by (auto simp: emit_add_path_field_def pending_def push_hop_def split: if_splits)

lemma add_path_loop_pending:
  "add_path_loop s st = Inr st' \<Longrightarrow> pending st' \<le> pending st + length s"
proof (induction s arbitrary: st)
  case (Cons c s)
  then obtain st1 where step: "add_path_char c st = Inr st1" and "add_path_loop s st1 = Inr st'"
    by auto
  with Cons.IH have "pending st' \<le> pending st1 + length s"
    by blast
  moreover have "pending st1 \<le> Suc (pending st)"
    using step emit_add_path_pending [of st st1]
    by (auto simp: pending_def add_path_char_def add_path_push_def split: if_splits)
  ultimately show ?case
    by simp
qed simp

lemma emit_add_path_idem:
  "emit_add_path_field st = Inr st' \<Longrightarrow> emit_add_path_field st' = Inr st'"
  using emit_add_path_pending [of st st'] by (simp add: emit_add_path_field_def)

lemma emit_add_path_escaped:
  "emit_add_path_field st = Inr st' \<Longrightarrow> ap_escaped st' = ap_escaped st"
  by (auto simp: emit_add_path_field_def split: if_splits)

text \<open>The hops of a text are those of the text without its last unescaped comma.\<close>

lemma dangling_append: "dangling e (a @ b) = dangling (dangling e a) b"
  by (induction a arbitrary: e) auto

lemma dangling_trailing: "dangling False s \<longleftrightarrow> odd (trailing_bs s)"
proof (induction s rule: rev_induct)
  case (snoc c s)
  then show ?case
    by (auto simp: dangling_append)
qed simp

lemma add_path_drop_comma:
  assumes "\<not> dangling False raw"
    and "andthen (add_path_loop raw add_path_init) emit_add_path_field = Inr st"
  shows "andthen (add_path_loop (drop_trailing_unescaped_comma raw) add_path_init)
           emit_add_path_field = Inr st \<and> \<not> ap_escaped st"
proof -
  have esc: "\<not> ap_escaped st"
    using assms add_path_loop_escaped [of raw add_path_init] emit_add_path_escaped
    by (auto simp: add_path_init_def)
  show ?thesis
  proof (cases "drop_trailing_unescaped_comma raw = raw")
    case False
    then obtain xs where raw: "raw = xs @ [CHR '','']"
      by (cases raw rule: rev_cases)
        (auto simp: drop_trailing_unescaped_comma_def split: if_splits)
    with False have ev: "\<not> dangling False xs" and drop: "drop_trailing_unescaped_comma raw = xs"
      by (auto simp: drop_trailing_snoc dangling_trailing split: if_splits)
    obtain st1 st2 where st1: "add_path_loop xs add_path_init = Inr st1"
      and st2: "add_path_loop [CHR '',''] st1 = Inr st2" and st: "emit_add_path_field st2 = Inr st"
      using assms(2) by (auto simp: raw add_path_loop_append simp del: add_path_loop.simps)
    have "\<not> ap_escaped st1"
      using add_path_loop_escaped [OF st1] ev by (simp add: add_path_init_def)
    with st2 have "emit_add_path_field st1 = Inr st2"
      by (simp add: add_path_char_def)
    with st have "emit_add_path_field st1 = Inr st"
      using emit_add_path_idem by fastforce
    with st1 drop esc show ?thesis
      by simp
  qed (use assms(2) esc in simp)
qed

lemma emit_add_path_plain:
  assumes "plain_realm r" and "length (ap_out st) < MAX_TRANSIT_HOPS"
    and "ap_cur st = (if sp then '' '' else []) @ r" and "starts_with r ''/'' \<Longrightarrow> sp \<or> ap_last st = []"
  shows "emit_add_path_field st = Inr (st\<lparr>ap_out := ap_out st @ [r], ap_last := r, ap_cur := []\<rparr>)"
proof -
  have "\<not> ends_with r ''.''" "r \<noteq> []" "hd r \<noteq> CHR '' ''" "length r < MAX_ADD_PATH_RAW"
    using assms(1) by (auto simp: plain_realm_def ends_with_iff)
  moreover from this have "strip_prefix '' '' r = None"
    by (cases r) (auto simp: strip_prefix_def)
  moreover have "strip_prefix '' '' (CHR '' '' # r) = Some r"
    by (simp add: strip_prefix_def)
  ultimately have "add_path_join (ap_last st) (ap_cur st) = Inr r"
    using assms(3,4) by (auto simp: add_path_join_def starts_with_def)
  then show ?thesis
    using assms \<open>r \<noteq> []\<close> by (auto simp: emit_add_path_field_def push_hop_def)
qed

text \<open>The hops of a text, before the limits on the whole text.\<close>

definition hops_of :: "string \<Rightarrow> transit_error + add_path_state" where
  "hops_of t = andthen (add_path_loop t add_path_init) emit_add_path_field"

lemma expand_add_path_hops:
  assumes "is_ascii raw" and "raw \<noteq> []" and "strip_trailing_nul raw = raw"
    and "length (drop_trailing_unescaped_comma raw) < MAX_ADD_PATH_TOTAL"
  shows "expand_add_path raw = Inr hops \<longleftrightarrow> (\<exists>st. hops_of raw = Inr st \<and> ap_out st = hops)"
  using assms by (auto simp: expand_add_path_def hops_of_def Let_def)

lemma hops_of_encode_append:
  assumes plain: "plain_realm realm"
    and st: "hops_of t = Inr st" "\<not> ap_escaped st" and room: "length (ap_out st) < MAX_TRANSIT_HOPS"
    and nd: "\<not> dangling False t"
    and len: "length (t @ separator t realm @ escape_transit_realm realm) < MAX_ADD_PATH_TOTAL"
  shows "\<exists>st'. hops_of (t @ separator t realm @ escape_transit_realm realm) = Inr st' \<and>
           ap_out st' = ap_out st @ [realm]"
proof -
  let ?sp = "t \<noteq> [] \<and> starts_with realm ''/''"
  let ?st = "st\<lparr>ap_cur := (if ?sp then '' '' else [])\<rparr>"
  obtain st0 where st0: "add_path_loop t add_path_init = Inr st0" "emit_add_path_field st0 = Inr st"
    using st(1) by (auto simp: hops_of_def)
  have cur: "ap_cur st = []"
    using emit_add_path_pending [OF st0(2)] by simp
  have esc0: "\<not> ap_escaped st0"
    using add_path_loop_escaped [OF st0(1)] nd by (simp add: add_path_init_def)
  have t_Nil: "t = [] \<Longrightarrow> st = add_path_init \<and> st0 = st"
    using st0 by (auto simp: add_path_init_def emit_add_path_field_def)
  have sep: "add_path_loop (separator t realm) st0 = Inr ?st"
  proof (cases "t = []")
    case True
    with t_Nil show ?thesis
      by (simp add: separator_def add_path_init_def)
  next
    case False
    have "add_path_char (CHR '','') st0 = Inr st"
      using esc0 st0(2) by (simp add: add_path_char_def)
    with False cur st(2) show ?thesis
      by (simp add: separator_def add_path_char_def add_path_push_def)
  qed
  have "length realm \<le> length (escape_transit_realm realm)"
    by (induction realm) auto
  with len have "length (ap_cur ?st) + length realm < MAX_ADD_PATH_RAW"
    by (auto simp: separator_def split: if_splits)
  then have "add_path_loop (escape_transit_realm realm) ?st
      = Inr (?st\<lparr>ap_cur := ap_cur ?st @ realm\<rparr>)"
    using st(2) by (intro add_path_loop_escape) simp_all
  then have loop: "add_path_loop (t @ separator t realm @ escape_transit_realm realm) add_path_init
      = Inr (?st\<lparr>ap_cur := ap_cur ?st @ realm\<rparr>)"
    by (simp only: add_path_loop_append st0(1) sep andthen_simps)
  have "emit_add_path_field (?st\<lparr>ap_cur := ap_cur ?st @ realm\<rparr>)
      = Inr (?st\<lparr>ap_cur := [], ap_out := ap_out st @ [realm], ap_last := realm\<rparr>)"
    using emit_add_path_plain [OF plain, of "?st\<lparr>ap_cur := ap_cur ?st @ realm\<rparr>" ?sp] room t_Nil
    by (auto simp: add_path_init_def)
  with loop show ?thesis
    by (auto simp: hops_of_def)
qed

lemma append_realm_adds_hop:
  assumes plain: "plain_realm realm" and ascii: "is_ascii (tr_contents t)"
    and nd: "\<not> dangling False (strip_trailing_nul (tr_contents t))"
    and hops: "expand_add_path (tr_contents t) = Inr hops"
    and ap: "append_realm t realm crealm srealm = Inr t'"
  shows "(if realm \<in> set hops then t' = t
          else expand_add_path (tr_contents t') = Inr (hops @ [realm]))"
proof (cases "realm \<in> set hops")
  case True
  with hops ap show ?thesis
    by (simp add: append_realm_def)
next
  case False
  define raw where "raw = strip_trailing_nul (tr_contents t)"
  define tt where "tt = drop_trailing_unescaped_comma raw"
  define c where "c = tt @ separator tt realm @ escape_transit_realm realm"
  have t': "tr_contents t' = c" and len: "length c < MAX_ADD_PATH_TOTAL"
    using False hops ap
    by (auto simp: append_realm_def encode_append_alt Let_def c_def tt_def raw_def
        split: if_splits)
  have raw_ascii: "is_ascii raw"
    using ascii unfolding raw_def strip_trailing_nul_def is_ascii_def
    by (auto simp: list_all_iff dest: in_set_butlastD)
  have tt_ascii: "is_ascii tt"
    using raw_ascii unfolding tt_def drop_trailing_unescaped_comma_def is_ascii_def
    by (auto simp: list_all_iff dest: in_set_butlastD)
  have "\<exists>st. hops_of raw = Inr st \<and> ap_out st = hops"
  proof (cases "raw = []")
    case True
    with hops show ?thesis
      by (auto simp: expand_add_path_def raw_def [symmetric] Let_def hops_of_def add_path_init_def
          emit_add_path_field_def split: if_splits)
  next
    case False
    with hops raw_ascii show ?thesis
      by (auto simp: expand_add_path_def raw_def [symmetric] Let_def hops_of_def split: if_splits)
  qed
  then obtain st where raw_st: "hops_of raw = Inr st" and out: "ap_out st = hops"
    by blast
  from raw_st have st: "hops_of tt = Inr st" "\<not> ap_escaped st"
    using add_path_drop_comma [OF nd] unfolding hops_of_def raw_def tt_def by auto
  have nd': "\<not> dangling False tt"
    using nd unfolding tt_def raw_def [symmetric]
    by (cases raw rule: rev_cases) (auto simp: drop_trailing_unescaped_comma_def dangling_trailing
        count_bs_trailing split: if_splits)
  have "length hops < MAX_TRANSIT_HOPS"
  proof -
    obtain st0 where st0: "add_path_loop tt add_path_init = Inr st0" "emit_add_path_field st0 = Inr st"
      using st(1) by (auto simp: hops_of_def)
    have "pending st \<le> length tt"
      using add_path_loop_pending [OF st0(1)] emit_add_path_pending [OF st0(2)]
      by (simp add: pending_def add_path_init_def)
    with len out show ?thesis
      by (simp add: pending_def c_def split: if_splits)
  qed
  then obtain st' where st': "hops_of c = Inr st'" "ap_out st' = hops @ [realm]"
    using hops_of_encode_append [OF plain st _ nd' len [unfolded c_def]] out
    unfolding c_def by auto
  have "is_ascii c" "c \<noteq> []"
    using tt_ascii plain
    by (auto simp: c_def separator_def is_ascii_escape plain_realm_def ord_of_def)
  then have "expand_add_path c = Inr (hops @ [realm])"
    using st' len encode_append_stable [OF plain, of tt] expand_add_path_hops
    by (auto simp: c_def)
  with False t' show ?thesis
    by simp
qed

subsection \<open>The path between two realms\<close>

definition dot_suffixes :: "string \<Rightarrow> string list" where
  "dot_suffixes r = map (\<lambda>k. str_join ''.'' (drop k (split_on (CHR ''.'') r)))
     [0..<length (split_on (CHR ''.'') r)]"

lemma length_dot_suffixes [simp]: "length (dot_suffixes r) = length (split_on (CHR ''.'') r)"
  by (simp add: dot_suffixes_def)

lemma dot_suffixes_0: "dot_suffixes r ! 0 = r"
  by (simp add: dot_suffixes_def str_join_split_on)

lemma dot_suffixes_ne [simp]: "dot_suffixes r \<noteq> []"
  by (simp add: dot_suffixes_def)

lemma common_tail_le: "common_tail a b \<le> length a \<and> common_tail a b \<le> length b"
  by (induction a b rule: common_tail.induct) auto

lemma common_tail_take: "take (common_tail a b) a = take (common_tail a b) b"
  by (induction a b rule: common_tail.induct) auto

lemma hierarchical_walk_alt:
  assumes "length client < MAX_TRANSIT_RAW" and "length server < MAX_TRANSIT_RAW"
    and "client \<noteq> server"
  shows "hierarchical_walk_realms client server =
    (let n = common_tail (rev (split_on (CHR ''.'') client)) (rev (split_on (CHR ''.'') server)) in
     take (if n = 0 then length (dot_suffixes client) else length (dot_suffixes client) - n + 1)
       (dot_suffixes client) @
     rev (take (length (dot_suffixes server) - n) (dot_suffixes server)))"
  using assms by (simp add: hierarchical_walk_realms_def Let_def dot_suffixes_def)

lemma hierarchical_walk_ends:
  assumes "length client < MAX_TRANSIT_RAW" and "length server < MAX_TRANSIT_RAW"
    and "client \<noteq> server"
  shows "hierarchical_walk_realms client server \<noteq> []"
    and "hd (hierarchical_walk_realms client server) = client"
    and "last (hierarchical_walk_realms client server) = server"
proof -
  define c s where cs: "c = split_on (CHR ''.'') client" "s = split_on (CHR ''.'') server"
  define n where "n = common_tail (rev c) (rev s)"
  define up where "up = take (if n = 0 then length c else length c - n + 1) (dot_suffixes client)"
  define down where "down = rev (take (length s - n) (dot_suffixes server))"
  have walk: "hierarchical_walk_realms client server = up @ down"
    using hierarchical_walk_alt [OF assms]
    by (simp add: up_def down_def n_def cs Let_def)
  have n: "n \<le> length c" "n \<le> length s" "take n (rev c) = take n (rev s)"
    using common_tail_le [of "rev c" "rev s"] common_tail_take [of "rev c" "rev s"]
    by (simp_all add: n_def)
  have ne: "c \<noteq> []" "s \<noteq> []"
    by (simp_all add: cs)
  have up_hd: "up \<noteq> []" "hd up = client"
    using ne dot_suffixes_0 [of client]
    by (auto simp: up_def cs hd_conv_nth)
  then show "hierarchical_walk_realms client server \<noteq> []"
    and "hd (hierarchical_walk_realms client server) = client"
    by (simp_all add: walk)
  show "last (hierarchical_walk_realms client server) = server"
  proof (cases "n = length s")
    case True
    have "drop (length c - n) c = s"
    proof -
      have "rev (drop (length c - n) c) = take n (rev c)"
        by (simp add: rev_drop n(1))
      also have "\<dots> = rev s"
        using n(3) True by simp
      finally show ?thesis
        by simp
    qed
    moreover have "last up = dot_suffixes client ! (length c - n)"
    proof -
      have "up = take (Suc (length c - n)) (dot_suffixes client)"
        using True ne by (simp add: up_def)
      moreover have "length c - n < length (dot_suffixes client)"
        using True ne n by (simp add: cs [symmetric])
      ultimately show ?thesis
        by (simp add: take_Suc_conv_app_nth)
    qed
    moreover have "dot_suffixes client ! (length c - n) = str_join ''.'' (drop (length c - n) c)"
      using True ne n by (simp add: dot_suffixes_def cs [symmetric])
    ultimately have "last up = server"
      by (simp add: cs(2) str_join_split_on)
    with True show ?thesis
      by (simp add: walk down_def)
  next
    case False
    with n have "take (length s - n) (dot_suffixes server) \<noteq> []"
      by simp
    moreover from this have "hd (take (length s - n) (dot_suffixes server)) = server"
      using dot_suffixes_0 [of server] by (simp add: hd_conv_nth)
    ultimately show ?thesis
      by (simp add: walk down_def last_rev)
  qed
qed

subsection \<open>Realms as lists of labels\<close>

abbreviation (input) labels :: "string \<Rightarrow> string list" where "labels r \<equiv> split_on (CHR ''.'') r"

text \<open>\<open>above h r\<close>: the realm \<open>h\<close> is \<open>r\<close> or one of the domains \<open>r\<close> lies in.\<close>

definition above :: "string \<Rightarrow> string \<Rightarrow> bool" where
  "above h r \<longleftrightarrow> r = h \<or> suffix (CHR ''.'' # h) r"

lemma split_on_sep: "split_on d (p @ d # h) = split_on d p @ split_on d h"
proof (induction p)
  case (Cons c p)
  then show ?case
    by (cases "split_on d p") auto
qed simp

lemma str_join_append:
  "xs \<noteq> [] \<Longrightarrow> ys \<noteq> [] \<Longrightarrow> str_join sep (xs @ ys) = str_join sep xs @ sep @ str_join sep ys"
proof (induction xs)
  case (Cons x xs)
  then show ?case
    by (cases "xs = []") (simp_all add: str_join_Cons)
qed simp

lemma labels_inj: "labels a = labels b \<longleftrightarrow> a = b"
  by (metis str_join_split_on)

lemma above_labels: "above h r \<longleftrightarrow> suffix (labels h) (labels r)"
proof
  show "suffix (labels h) (labels r)" if "above h r"
    using that by (auto simp: above_def suffix_def split_on_sep)
next
  assume "suffix (labels h) (labels r)"
  then obtain xs where xs: "labels r = xs @ labels h"
    by (auto simp: suffix_def)
  have r: "r = str_join ''.'' (xs @ labels h)"
    using str_join_split_on [of "CHR ''.''" r] by (simp add: xs)
  show "above h r"
    using r by (cases "xs = []") (auto simp: above_def suffix_def str_join_append str_join_split_on)
qed

lemma labels_dot_suffix:
  assumes "k < length (labels r)"
  shows "labels (str_join ''.'' (drop k (labels r))) = drop k (labels r)"
  using assms by (intro split_on_join) (auto dest: in_set_dropD split_on_no_sep)

lemma prefix_common_tail:
  "prefix xs a \<and> prefix xs b \<longleftrightarrow> prefix xs a \<and> length xs \<le> common_tail a b"
proof (induction a b arbitrary: xs rule: common_tail.induct)
  case (1 c cs s ss)
  then show ?case
    by (cases xs) auto
qed auto

lemma suffix_common_tail:
  "suffix xs c \<and> suffix xs s \<longleftrightarrow> suffix xs c \<and> length xs \<le> common_tail (rev c) (rev s)"
  using prefix_common_tail [of "rev xs" "rev c" "rev s"] by (simp add: suffix_to_prefix)

lemma common_tail_sym: "common_tail a b = common_tail b a"
proof (induction a b rule: common_tail.induct)
  case (1 c cs s ss)
  then show ?case
    by auto
qed simp_all

lemma in_take_dot_suffixes:
  "h \<in> set (take m (dot_suffixes r)) \<longleftrightarrow> above h r \<and> length (labels r) < length (labels h) + m"
proof
  assume "h \<in> set (take m (dot_suffixes r))"
  then obtain k where k: "k < m" "k < length (labels r)" "h = str_join ''.'' (drop k (labels r))"
    by (auto simp: in_set_conv_nth dot_suffixes_def)
  then have "labels h = drop k (labels r)"
    by (simp add: labels_dot_suffix)
  with k show "above h r \<and> length (labels r) < length (labels h) + m"
    by (simp add: above_labels suffix_drop)
next
  assume h: "above h r \<and> length (labels r) < length (labels h) + m"
  define k where "k = length (labels r) - length (labels h)"
  have le: "length (labels h) \<le> length (labels r)"
    using h by (simp add: above_labels suffix_length_le)
  have k: "k < m" "k < length (labels r)"
    using h le by (auto simp: k_def)
  have "drop k (labels r) = labels h"
    using h by (auto simp: above_labels suffix_def k_def)
  then have "take m (dot_suffixes r) ! k = h"
    using k str_join_split_on [of "CHR ''.''" h] by (simp add: dot_suffixes_def)
  then show "h \<in> set (take m (dot_suffixes r))"
    using k by (auto simp: in_set_conv_nth)
qed

lemma distinct_dot_suffixes: "distinct (dot_suffixes r)"
proof -
  have "inj_on (\<lambda>k. str_join ''.'' (drop k (labels r))) {0..<length (labels r)}"
  proof (rule inj_onI)
    fix i j
    assume "i \<in> {0..<length (labels r)}" "j \<in> {0..<length (labels r)}"
      and eq: "str_join ''.'' (drop i (labels r)) = str_join ''.'' (drop j (labels r))"
    then have ij: "i < length (labels r)" "j < length (labels r)"
      by simp_all
    have "drop i (labels r) = drop j (labels r)"
      using arg_cong [OF eq, of "split_on (CHR ''.'')"] unfolding labels_dot_suffix [OF ij(1)] labels_dot_suffix [OF ij(2)] .
    then have "length (labels r) - i = length (labels r) - j"
      by (metis length_drop)
    with ij show "i = j"
      by simp
  qed
  then show ?thesis
    by (simp add: dot_suffixes_def distinct_map)
qed

text \<open>A realm is strictly above the lowest common one if some common realm lies in it.\<close>

definition past_common :: "string \<Rightarrow> string \<Rightarrow> string \<Rightarrow> bool" where
  "past_common client server h \<longleftrightarrow> (\<exists>a. above a client \<and> above a server \<and> above h a \<and> a \<noteq> h)"

lemma past_common_length:
  assumes "above h client \<or> above h server"
  shows "past_common client server h \<longleftrightarrow>
    length (labels h) < common_tail (rev (labels client)) (rev (labels server))"
proof -
  let ?c = "labels client" and ?s = "labels server"
  define n where "n = common_tail (rev ?c) (rev ?s)"
  have common: "above a client \<and> above a server \<longleftrightarrow> above a client \<and> length (labels a) \<le> n" for a
    using suffix_common_tail [of "labels a" ?c ?s] by (simp add: above_labels n_def)
  show ?thesis
    unfolding n_def [symmetric]
  proof
    assume "past_common client server h"
    then obtain a where a: "above a client" "above a server" "above h a" "a \<noteq> h"
      by (auto simp: past_common_def)
    have "length (labels h) < length (labels a)"
      using a(3,4) suffix_length_less [of "labels h" "labels a"]
      by (auto simp: above_labels strict_suffix_def labels_inj)
    with a(1,2) common [of a] show "length (labels h) < n"
      by simp
  next
    assume lt: "length (labels h) < n"
    define a where "a = str_join ''.'' (drop (length ?c - n) ?c)"
    have "n \<le> length ?c"
      using common_tail_le [of "rev ?c" "rev ?s"] by (simp add: n_def)
    then have la: "labels a = drop (length ?c - n) ?c" and len: "length (labels a) = n"
      using lt labels_dot_suffix [of "length ?c - n" client] by (auto simp: a_def)
    then have "above a client"
      by (simp add: above_labels suffix_drop)
    then have ab: "above a client" "above a server"
      using common [of a] len by simp_all
    have "above h a"
      using assms ab lt len suffix_length_suffix [of "labels h" _ "labels a"] by (auto simp: above_labels)
    then show "past_common client server h"
      using ab lt len by (auto simp: past_common_def)
  qed
qed

lemma hierarchical_walk_exact:
  assumes "length client < MAX_TRANSIT_RAW" and "length server < MAX_TRANSIT_RAW"
    and "client \<noteq> server"
  shows "distinct (hierarchical_walk_realms client server) \<and>
    set (hierarchical_walk_realms client server) =
      {h. (above h client \<or> above h server) \<and> \<not> past_common client server h}"
proof -
  let ?c = "labels client" and ?s = "labels server"
  define n where "n = common_tail (rev ?c) (rev ?s)"
  define up where "up = take (if n = 0 then length ?c else length ?c - n + 1) (dot_suffixes client)"
  define down where "down = take (length ?s - n) (dot_suffixes server)"
  have walk: "hierarchical_walk_realms client server = up @ rev down"
    using hierarchical_walk_alt [OF assms] by (simp add: up_def down_def n_def Let_def)
  have n: "n \<le> length ?c" "n \<le> length ?s"
    using common_tail_le [of "rev ?c" "rev ?s"] by (simp_all add: n_def)
  have common: "above a client \<and> above a server \<longleftrightarrow> above a client \<and> length (labels a) \<le> n" for a
    using suffix_common_tail [of "labels a" ?c ?s] by (simp add: above_labels n_def)
  have common': "above a client \<and> above a server \<longleftrightarrow> above a server \<and> length (labels a) \<le> n" for a
    using suffix_common_tail [of "labels a" ?s ?c] common_tail_sym [of "rev ?c" "rev ?s"]
    by (auto simp: above_labels n_def)
  have up: "h \<in> set up \<longleftrightarrow> above h client \<and> n \<le> length (labels h)" for h
    using n(1) by (auto simp: up_def in_take_dot_suffixes)
  have down: "h \<in> set down \<longleftrightarrow> above h server \<and> n < length (labels h)" for h
    using n(2) by (auto simp: down_def in_take_dot_suffixes)
  have "h \<notin> set up" if "h \<in> set down" for h
    using that common [of h] common' [of h] by (simp add: up down)
  then have "set up \<inter> set down = {}"
    by blast
  then have "distinct (up @ rev down)"
    using distinct_dot_suffixes by (simp add: up_def down_def distinct_take)
  moreover have "h \<in> set (up @ rev down) \<longleftrightarrow> (above h client \<or> above h server) \<and> \<not> past_common client server h" for h
  proof (cases "above h client \<or> above h server")
    case True
    then have "past_common client server h \<longleftrightarrow> length (labels h) < n"
      by (simp add: past_common_length n_def)
    with True common [of h] common' [of h] show ?thesis
      by (simp add: up down) linarith
  next
    case False
    then show ?thesis
      by (simp add: up down)
  qed
  ultimately show ?thesis
    unfolding walk by blast
qed

text \<open>The realms a ticket from one realm to another may have come through: with an entry in the capaths
  those it names and the client's; otherwise the domains that hold the client's or the server's realm, up to
  the lowest one that holds both, without the server's realm itself.\<close>

definition path_realm :: "capaths \<Rightarrow> string \<Rightarrow> string \<Rightarrow> string \<Rightarrow> bool" where
  "path_realm cap client server h \<longleftrightarrow>
     (case Option.bind (cap client) (\<lambda>m. m server) of
        Some vals \<Rightarrow> h = client \<or> h \<in> set vals \<and> h \<noteq> ''.''
      | None \<Rightarrow> length client < MAX_TRANSIT_RAW \<and> length server < MAX_TRANSIT_RAW \<and> h \<noteq> server \<and>
          (above h client \<or> above h server) \<and> \<not> past_common client server h)"

lemma set_butlast_distinct: "distinct xs \<Longrightarrow> xs \<noteq> [] \<Longrightarrow> set (butlast xs) = set xs - {last xs}"
  by (cases xs rule: rev_cases) auto

lemma walk_realm_tree_exact:
  assumes "client \<noteq> server"
  shows "h \<in> set (butlast (walk_realm_tree cap client server)) \<longleftrightarrow> path_realm cap client server h"
proof (cases "Option.bind (cap client) (\<lambda>m. m server)")
  case None
  then have walk: "walk_realm_tree cap client server = hierarchical_walk_realms client server"
    using assms by (simp add: walk_realm_tree_def)
  show ?thesis
  proof (cases "length client < MAX_TRANSIT_RAW \<and> length server < MAX_TRANSIT_RAW")
    case True
    then have len: "length client < MAX_TRANSIT_RAW" "length server < MAX_TRANSIT_RAW"
      by blast+
    show ?thesis
      using hierarchical_walk_exact [OF len assms] hierarchical_walk_ends [OF len assms] len None
      by (auto simp: walk path_realm_def set_butlast_distinct)
  next
    case False
    then show ?thesis
      using None by (auto simp: walk path_realm_def hierarchical_walk_realms_def not_less)
  qed
next
  case (Some vals)
  with assms show ?thesis
    by (auto simp: path_realm_def walk_realm_tree_def butlast_append)
qed

lemma transit_allowed_iff:
  assumes "client \<noteq> server"
  shows "transit_allowed cap client server hops \<longleftrightarrow> (\<forall>h \<in> set hops. path_realm cap client server h)"
  using walk_realm_tree_exact [OF assms]
  by (simp add: transit_allowed_def Let_def list_all_iff butlast_conv_take)

subsection \<open>Properties\<close>

text \<open>
  C20: The transited field carries the path.  For a list of realms with ASCII names that are not
  themselves compressed forms, with no more commas than the reader admits, \<open>realms_for\<close> reads
  from the field \<open>from_realms\<close> writes exactly these realms in this order, whatever commas,
  backslashes and X.500 names are among them and whatever the end realms are.
\<close>
theorem transited_roundtrip:
  assumes "list_all plain_realm rs"
    and "length (filter (\<lambda>b. b = CHR '','') (tr_contents (from_realms rs))) \<le> MAX_TRANSIT_REALMS"
  shows "realms_for (from_realms rs) crealm srealm = Inr rs"
  using assms by (rule realms_for_from_realms)

theorem transited_roundtrip_witness:
  "realms_for (from_realms [''A,B'', ''/C=US/O=X'', ''D.E'']) ''X'' ''Y''
     = Inr [''A,B'', ''/C=US/O=X'', ''D.E'']"
  by (rule transited_roundtrip; code_simp)

text \<open>
  C21: Adding a realm to the path.  When \<open>append_realm\<close> accepts, the new field holds the hops of the
  old one, and the realm as one more hop at the end unless it was already there, in which case the
  field is unchanged; so a KDC never drops or alters an earlier hop.  The old field must not end
  within an escape.
\<close>
theorem append_realm_hops:
  assumes "plain_realm realm" and "is_ascii (tr_contents t)"
    and "\<not> dangling False (strip_trailing_nul (tr_contents t))"
    and "expand_add_path (tr_contents t) = Inr hops"
    and "append_realm t realm crealm srealm = Inr t'"
  shows "(if realm \<in> set hops then t' = t
          else expand_add_path (tr_contents t') = Inr (hops @ [realm]))"
  using assms by (rule append_realm_adds_hop)

theorem append_realm_hops_witness:
  "expand_add_path (tr_contents \<lparr>tr_type = 1, tr_contents = ''A.B,C.,D''\<rparr>) = Inr [''A.B'', ''C.A.B'', ''D'']
   \<and> expand_add_path ''A.B,C.,D,E'' = Inr [''A.B'', ''C.A.B'', ''D'', ''E'']"
proof -
  have "(if ''E'' \<in> set [''A.B'', ''C.A.B'', ''D'']
      then \<lparr>tr_type = 1, tr_contents = ''A.B,C.,D,E''\<rparr> = \<lparr>tr_type = 1, tr_contents = ''A.B,C.,D''\<rparr>
      else expand_add_path (tr_contents \<lparr>tr_type = 1, tr_contents = ''A.B,C.,D,E''\<rparr>)
        = Inr ([''A.B'', ''C.A.B'', ''D''] @ [''E'']))"
    by (rule append_realm_hops [where t = "\<lparr>tr_type = 1, tr_contents = ''A.B,C.,D''\<rparr>"
        and crealm = "''X''" and srealm = "''Y''"]; code_simp)
  then show ?thesis
    by (simp, code_simp)
qed

text \<open>
  C8: The transit check.  \<open>check_transited\<close> accepts a ticket exactly if it was already checked by the issuing
  KDC, names no transited realm, belongs to an anonymous client, or has a client realm other than the
  server's, a field that can be read, and all its hops on the path between the two realms: with an
  entry for the pair in the capaths, the client's realm or one the entry names; otherwise a domain that
  holds the client's or the server's realm, but none above the lowest domain that holds both, and not the
  server's realm.
\<close>
theorem check_transited_exact:
  "check_transited part srealm cap = Inr () \<longleftrightarrow>
     flag (tk_flags part) BIT_TRANSITED_POLICY_CHECKED \<or>
     tr_contents (tk_transited part) = [] \<or> hd (tr_contents (tk_transited part)) = CHR 0x00 \<or>
     from_utf8_lossy (tk_crealm part) = ''WELLKNOWN:ANONYMOUS'' \<or>
     from_utf8_lossy (tk_crealm part) \<noteq> srealm \<and>
       (\<exists>hops. realms_for (tk_transited part) (from_utf8_lossy (tk_crealm part)) srealm = Inr hops \<and>
          (\<forall>h \<in> set hops. path_realm cap (from_utf8_lossy (tk_crealm part)) srealm h))"
  by (auto simp: check_transited_def Let_def transit_allowed_iff map_err_eq_Inr split: if_splits)

definition example_transited :: "string \<Rightarrow> enc_ticket_part" where
  "example_transited hops = \<lparr>tk_flags = flags_none, tk_key = \<lparr>keytype = 18, keyvalue = []\<rparr>, tk_crealm = ''A.X.ORG'',
    tk_cname = \<lparr>name_type = 1, name_string = [''u'']\<rparr>,
    tk_transited = \<lparr>tr_type = 1, tr_contents = hops\<rparr>, tk_authtime = 0,
    tk_starttime = None, tk_endtime = 10, tk_renew_till = None, tk_caddr = None,
    tk_authorization_data = None\<rparr>"

theorem check_transited_exact_witness:
  "path_realm (\<lambda>_. None) ''A.X.ORG'' ''B.Y.ORG'' ''ORG'' \<and> \<not> path_realm (\<lambda>_. None) ''A.X.ORG'' ''B.X.ORG'' ''ORG''"
proof -
  have ok: "check_transited (example_transited ''X.ORG,ORG'') ''B.Y.ORG'' (\<lambda>_. None) = Inr ()"
    and bad: "check_transited (example_transited ''ORG'') ''B.X.ORG'' (\<lambda>_. None) \<noteq> Inr ()"
    and hops: "realms_for (tk_transited (example_transited ''X.ORG,ORG'')) ''A.X.ORG'' ''B.Y.ORG'' = Inr [''X.ORG'', ''ORG'']"
      "realms_for (tk_transited (example_transited ''ORG'')) ''A.X.ORG'' ''B.X.ORG'' = Inr [''ORG'']"
    and tkt: "from_utf8_lossy (tk_crealm (example_transited h)) = ''A.X.ORG''"
      "\<not> flag (tk_flags (example_transited h)) BIT_TRANSITED_POLICY_CHECKED"
      "tr_contents (tk_transited (example_transited h)) = h" for h
    by (code_simp | simp add: example_transited_def)+
  show ?thesis
    using ok bad unfolding check_transited_exact by (simp add: hops tkt)
qed

end
