(* ===== verification/KdcUtil.thy ===== *)
theory KdcUtil
  imports Lockout Transit
begin

text \<open>
  The request policy of the KDC (\<open>crates/krb5-kdc/src/issue/kdc_util.rs\<close>): the checks on an AS request,
  the flags, lifetime and renewable lifetime of the ticket to issue, and the choice of the session key's
  encryption type.  \<open>now\<close> is the clock's value, \<open>chrono_add\<close> the checked time addition of the
  \<open>chrono\<close> crate (see theory \<open>KTime\<close>).
\<close>

subsection \<open>Checks on an AS request\<close>

definition anonymous_principal_name :: principal_name where
  "anonymous_principal_name =
     \<lparr>name_type = NT_WELLKNOWN, name_string = [''WELLKNOWN'', ''ANONYMOUS'']\<rparr>"

definition is_anonymous_principal :: "principal_name \<Rightarrow> bool" where
  "is_anonymous_principal name = components_eq name anonymous_principal_name"

definition check_anon :: "store \<Rightarrow> principal_name \<Rightarrow> principal_name \<Rightarrow> kdc_error + unit" where
  "check_anon s client server =
     (if po_restrict_anon (s_policy s) \<and> is_anonymous_principal client
         \<and> \<not> is_local_tgs_principal server (s_realm s)
      then Inl (proto ERR_POLICY STATUS_ANONYMOUS_NOT_ALLOWED) else Inr ())"

definition check_db_times :: "u32 \<Rightarrow> principal option \<Rightarrow> principal \<Rightarrow> kdc_error + unit" where
  "check_db_times now client server =
     (let pwchange_svc = p_attributes server AND KDB_PWCHANGE_SERVICE \<noteq> 0 in
      if (case client of None \<Rightarrow> False | Some c \<Rightarrow> p_expiration c \<noteq> 0 \<and> now > p_expiration c)
      then Inl (proto ERR_NAME_EXP STATUS_CLIENT_EXPIRED)
      else if (case client of None \<Rightarrow> False
               | Some c \<Rightarrow> p_pw_expire c \<noteq> 0 \<and> now > p_pw_expire c \<and> \<not> pwchange_svc)
      then Inl (proto ERR_KEY_EXPIRED STATUS_CLIENT_KEY_EXPIRED)
      else if p_expiration server \<noteq> 0 \<and> now > p_expiration server
      then Inl (proto ERR_SERVICE_EXP STATUS_SERVICE_EXPIRED)
      else if (case client of None \<Rightarrow> False | Some c \<Rightarrow> attr c KDB_REQUIRES_PWCHANGE \<and> \<not> pwchange_svc)
      then Inl (proto ERR_KEY_EXPIRED STATUS_REQUIRED_PWCHANGE)
      else Inr ())"

text \<open>\<open>None\<close> is the panic of \<open>PrincipalName::krbtgt\<close> on a realm that is not ASCII.\<close>

definition validate_as_request ::
  "store \<Rightarrow> principal \<Rightarrow> principal \<Rightarrow> kdc_req_body \<Rightarrow> u32 \<Rightarrow> (kdc_error + unit) option" where
  "validate_as_request s client server body now =
     (let opts = rb_kdc_options body;
          pwchange_svc = attr server KDB_PWCHANGE_SERVICE in
      if as_invalid_bits opts \<noteq> 0 then Some (Inl (proto ERR_BADOPTION STATUS_INVALID_AS_OPTIONS))
      else if p_expiration client \<noteq> 0 \<and> now > p_expiration client
      then Some (Inl (proto ERR_NAME_EXP STATUS_CLIENT_EXPIRED))
      else if p_pw_expire client \<noteq> 0 \<and> now > p_pw_expire client \<and> \<not> pwchange_svc
      then Some (Inl (proto ERR_KEY_EXPIRED STATUS_CLIENT_KEY_EXPIRED))
      else if p_expiration server \<noteq> 0 \<and> now > p_expiration server
      then Some (Inl (proto ERR_SERVICE_EXP STATUS_SERVICE_EXPIRED))
      else if attr client KDB_REQUIRES_PWCHANGE \<and> \<not> pwchange_svc
      then Some (Inl (proto ERR_KEY_EXPIRED STATUS_REQUIRED_PWCHANGE))
      else if (flag opts BIT_MAY_POSTDATE \<or> flag opts BIT_POSTDATED)
              \<and> (attr client KDB_DISALLOW_POSTDATED \<or> attr server KDB_DISALLOW_POSTDATED)
      then Some (Inl (proto ERR_CANNOT_POSTDATE STATUS_POSTDATE_NOT_ALLOWED))
      else if attr client KDB_DISALLOW_ALL_TIX
      then Some (Inl (proto ERR_CLIENT_REVOKED STATUS_CLIENT_LOCKED_OUT))
      else if attr server KDB_DISALLOW_ALL_TIX
      then Some (Inl (proto ERR_S_PRINCIPAL_UNKNOWN STATUS_SERVICE_LOCKED_OUT))
      else if attr server KDB_DISALLOW_SVR
      then Some (Inl (proto ERR_MUST_USE_USER2USER STATUS_SERVICE_NOT_ALLOWED))
      else
        case (case rb_sname body of Some n \<Rightarrow> Some n | None \<Rightarrow> krbtgt (s_realm s)) of
          None \<Rightarrow> None
        | Some req_server \<Rightarrow>
            Some (andthen (check_anon s (p_name client) req_server)
                    (\<lambda>_. lockout_check_policy s client now)))"

subsection \<open>Flags\<close>

definition copy_header_flags :: "kerberos_flags \<Rightarrow> kerberos_flags \<Rightarrow> kerberos_flags" where
  "copy_header_flags h flags =
     fold (\<lambda>b fl. if flag h b then with_bit fl b True else fl)
       [BIT_FORWARDED, BIT_PROXY, BIT_PRE_AUTHENT, BIT_HW_AUTHENT, BIT_ANONYMOUS] flags"

definition requested_flags :: "kerberos_flags \<Rightarrow> kerberos_flags" where
  "requested_flags req =
     (let flags = with_bit flags_none BIT_FORWARDABLE (flag req BIT_FORWARDABLE);
          flags = with_bit flags BIT_FORWARDED (flag req BIT_FORWARDED);
          flags = with_bit flags BIT_PROXIABLE (flag req BIT_PROXIABLE);
          flags = with_bit flags BIT_PROXY (flag req BIT_PROXY);
          flags = with_bit flags BIT_MAY_POSTDATE (flag req BIT_MAY_POSTDATE);
          flags = with_bit flags BIT_POSTDATED (flag req BIT_POSTDATED);
          flags = with_bit flags BIT_ANONYMOUS (flag req BIT_ANONYMOUS);
          flags = with_bit flags BIT_ENC_PA_REP True
      in if flag req BIT_POSTDATED then with_bit flags BIT_INVALID True else flags)"

definition apply_header :: "principal \<Rightarrow> kerberos_flags \<Rightarrow> kerberos_flags \<Rightarrow> kerberos_flags" where
  "apply_header server h flags =
     (let fl = copy_header_flags h flags;
          fl = (if attr server KDB_OK_AS_DELEGATE then with_bit fl BIT_OK_AS_DELEGATE True else fl);
          fl = (if \<not> flag h BIT_PROXIABLE then with_bit fl BIT_PROXIABLE False else fl);
          fl = (if \<not> flag h BIT_FORWARDABLE then with_bit fl BIT_FORWARDABLE False else fl)
      in if \<not> flag h BIT_ANONYMOUS then with_bit fl BIT_ANONYMOUS False else fl)"

definition drop_disallowed :: "principal option \<Rightarrow> principal \<Rightarrow> kerberos_flags \<Rightarrow> kerberos_flags" where
  "drop_disallowed client server flags =
     (let flags =
        (if attr server KDB_DISALLOW_PROXIABLE
            \<or> (case client of None \<Rightarrow> False | Some c \<Rightarrow> attr c KDB_DISALLOW_PROXIABLE)
         then with_bit flags BIT_PROXIABLE False else flags)
      in if attr server KDB_DISALLOW_FORWARDABLE
            \<or> (case client of None \<Rightarrow> False | Some c \<Rightarrow> attr c KDB_DISALLOW_FORWARDABLE)
         then with_bit flags BIT_FORWARDABLE False else flags)"

definition get_ticket_flags ::
  "kerberos_flags \<Rightarrow> principal option \<Rightarrow> principal \<Rightarrow> kerberos_flags option \<Rightarrow> kerberos_flags" where
  "get_ticket_flags req client server header =
     (if header \<noteq> None \<and> (flag req BIT_VALIDATE \<or> flag req BIT_RENEW)
      then with_bit (the header) BIT_INVALID False
      else drop_disallowed client server
             (case header of
                Some h \<Rightarrow> apply_header server h (requested_flags req)
              | None \<Rightarrow> with_bit (requested_flags req) BIT_INITIAL True))"

definition s4u2self_forwardable :: "principal \<Rightarrow> kerberos_flags \<Rightarrow> kerberos_flags" where
  "s4u2self_forwardable server flags =
     (if attr server KDB_OK_TO_AUTH_AS_DELEGATE \<or> p_s4u_allowed_to server = [] then flags
      else with_bit flags BIT_FORWARDABLE False)"

subsection \<open>Lifetimes\<close>

definition omit_start_if_auth :: "ktime \<Rightarrow> ktime \<Rightarrow> ktime option" where
  "omit_start_if_auth start auth =
     (let s = unix_seconds start in
      if s \<noteq> 0 \<and> s \<noteq> unix_seconds auth then Some start else None)"

text \<open>\<open>i64::try_from(v).unwrap_or(i64::MAX)\<close>.\<close>

definition as_i64 :: "u64 \<Rightarrow> int" where
  "as_i64 v = min (uint v) i64_max"

definition limit_life :: "u64 \<Rightarrow> int \<Rightarrow> int" where
  "limit_life max_life life = (if max_life > 0 then min life (as_i64 max_life) else life)"

definition kdc_get_ticket_endtime ::
  "(ktime \<Rightarrow> int \<Rightarrow> ktime option) \<Rightarrow> policy \<Rightarrow> ktime \<Rightarrow> ktime option \<Rightarrow> ktime \<Rightarrow> principal option \<Rightarrow>
   principal \<Rightarrow> kdc_error + ktime" where
  "kdc_get_ticket_endtime chrono_add pol starttime header_end till client server =
     (let start = unix_seconds starttime;
          till_s = unix_seconds till;
          header_s = map_option unix_seconds header_end;
          until = (if till_s = 0 then (case header_s of None \<Rightarrow> - 1 | Some h \<Rightarrow> h)
                   else (case header_s of None \<Rightarrow> till_s | Some h \<Rightarrow> min till_s h));
          life = sint (until - start);
          life = (if until > start \<and> life < 0 then 2 ^ 31 - 1 else life);
          life = (case client of None \<Rightarrow> life | Some c \<Rightarrow> limit_life (p_max_life c) life);
          life = limit_life (p_max_life server) life;
          life = limit_life (po_max_life pol) life
      in case add_seconds chrono_add starttime life of
           Inr e \<Rightarrow> Inr e
         | Inl _ \<Rightarrow> map_err (\<lambda>_. proto ERR_NEVER_VALID STATUS_UNKNOWN_REASON)
                     (add_hours chrono_add starttime 10))"

definition renew_asked :: "kdc_req_body \<Rightarrow> ktime \<Rightarrow> ktime option" where
  "renew_asked body endtime =
     (if flag (rb_kdc_options body) BIT_RENEWABLE
      then Some (case rb_rtime body of Some r \<Rightarrow> r | None \<Rightarrow> from_unix_seconds (- 1))
      else if flag (rb_kdc_options body) BIT_RENEWABLE_OK
              \<and> unix_seconds (rb_till body) > unix_seconds endtime
      then Some (rb_till body) else None)"

definition max_rlife :: "policy \<Rightarrow> principal option \<Rightarrow> principal \<Rightarrow> u64" where
  "max_rlife pol client server =
     (let m = min (p_max_renewable_life server) (po_realm_max_renewable_life pol) in
      case client of None \<Rightarrow> m | Some c \<Rightarrow> min m (p_max_renewable_life c))"

definition renew_limited ::
  "(ktime \<Rightarrow> int \<Rightarrow> ktime option) \<Rightarrow> policy \<Rightarrow> enc_ticket_part option \<Rightarrow> principal option \<Rightarrow> principal \<Rightarrow>
   ktime \<Rightarrow> u32 \<Rightarrow> u32" where
  "renew_limited chrono_add pol header client server starttime rsec =
     (let rsec = (case header of
                    None \<Rightarrow> rsec
                  | Some h \<Rightarrow> (case tk_renew_till h of
                                 None \<Rightarrow> rsec | Some till \<Rightarrow> min rsec (unix_seconds till)))
      in case add_seconds chrono_add starttime (as_i64 (max_rlife pol client server)) of
           Inr cap \<Rightarrow> min rsec (unix_seconds cap) | Inl _ \<Rightarrow> rsec)"

definition kdc_get_ticket_renewtime ::
  "(ktime \<Rightarrow> int \<Rightarrow> ktime option) \<Rightarrow> policy \<Rightarrow> kdc_req_body \<Rightarrow> enc_ticket_part option \<Rightarrow>
   principal option \<Rightarrow> principal \<Rightarrow> kerberos_flags \<Rightarrow> ktime \<Rightarrow> ktime \<Rightarrow> kerberos_flags \<times> ktime option" where
  "kdc_get_ticket_renewtime chrono_add pol body header client server flags starttime endtime =
     (let flags = with_bit flags BIT_RENEWABLE False in
      if attr server KDB_DISALLOW_RENEWABLE
         \<or> (case client of None \<Rightarrow> False | Some c \<Rightarrow> attr c KDB_DISALLOW_RENEWABLE)
      then (flags, None)
      else if (case header of None \<Rightarrow> False | Some h \<Rightarrow> \<not> flag (tk_flags h) BIT_RENEWABLE)
      then (flags, None)
      else
        case renew_asked body endtime of
          None \<Rightarrow> (flags, None)
        | Some rtime \<Rightarrow>
            (let rsec = renew_limited chrono_add pol header client server starttime
                          (unix_seconds rtime)
             in if \<not> flag (rb_kdc_options body) BIT_RENEWABLE \<and> rsec \<le> unix_seconds endtime
                then (flags, None)
                else (with_bit flags BIT_RENEWABLE True, Some (from_unix_seconds rsec))))"

subsection \<open>Session keys, addresses, authorization data\<close>

definition dbentry_supports_enctype :: "policy \<Rightarrow> principal \<Rightarrow> enctype \<Rightarrow> bool" where
  "dbentry_supports_enctype pol server e =
     (let listed =
        (case find (\<lambda>kv. fst kv = ''session_enctypes'') (p_string_attrs server) of
           None \<Rightarrow> None
         | Some (_, raw) \<Rightarrow>
             if raw = [] then None else parse_enctype_list raw (po_allow_weak_crypto pol))
      in case listed of
           Some l \<Rightarrow> e \<in> set l
         | None \<Rightarrow> e = Aes256CtsHmacSha196 \<or> is_ok (policy_find_enctype pol server (Some e) 0))"

definition session_etype_allowed :: "policy \<Rightarrow> principal \<Rightarrow> enctype \<Rightarrow> bool" where
  "session_etype_allowed pol server e =
     (if \<not> etype_permitted pol e then False
      else if e = Des3CbcSha1 \<and> \<not> po_allow_des3 pol then False
      else if e = Rc4Hmac \<and> \<not> po_allow_rc4 pol then False
      else dbentry_supports_enctype pol server e)"

fun select_session_keytype :: "principal \<Rightarrow> int list \<Rightarrow> policy \<Rightarrow> kdc_error + enctype" where
  "select_session_keytype server [] pol = Inl (proto ERR_ETYPE_NOSUPP STATUS_BAD_ENCRYPTION_TYPE)"
| "select_session_keytype server (n # ns) pol =
     (case known n of
        Inl _ \<Rightarrow> select_session_keytype server ns pol
      | Inr e \<Rightarrow>
          if session_etype_allowed pol server e then Inr e
          else select_session_keytype server ns pol)"

definition enctype_requires_etype_info_2 :: "int \<Rightarrow> bool" where
  "enctype_requires_etype_info_2 n =
     (case known n of Inl _ \<Rightarrow> False | Inr e \<Rightarrow> e \<noteq> Des3CbcSha1 \<and> e \<noteq> Rc4Hmac)"

definition address_search :: "host_address \<Rightarrow> host_address list option \<Rightarrow> bool" where
  "address_search addr al =
     (case al of
        None \<Rightarrow> True
      | Some l \<Rightarrow>
          if length l = 1 \<and> addr_type (l ! 0) = ADDRTYPE_NETBIOS then True
          else addr \<in> set l)"

text \<open>\<open>decode_pac_request\<close> is the DER decoder's reading of \<open>PaPacRequest\<close>: its flag, or nothing.\<close>

definition include_pac_p :: "(bytes \<Rightarrow> bool option) \<Rightarrow> pa_data list option \<Rightarrow> bool" where
  "include_pac_p decode_pac_request padata =
     (case Option.bind padata (find (\<lambda>p. padata_type p = PA_PAC_REQUEST)) of
        None \<Rightarrow> True
      | Some p \<Rightarrow> (case decode_pac_request (padata_value p) of None \<Rightarrow> True | Some b \<Rightarrow> b))"

definition include_pac_for_reply ::
  "(bytes \<Rightarrow> bool option) \<Rightarrow> store \<Rightarrow> principal \<Rightarrow> pa_data list option \<Rightarrow> bool \<Rightarrow> bool \<Rightarrow> bool \<Rightarrow> bool" where
  "include_pac_for_reply decode_pac_request s server padata is_as_req subject_had_pac anonymous =
     (if attr server KDB_NO_AUTH_DATA_REQUIRED then False
      else if po_disable_pac (s_policy s) \<or> anonymous then False
      else if is_as_req then include_pac_p decode_pac_request padata
      else subject_had_pac)"

subsection \<open>Flags of an issued ticket\<close>

lemma flag_if: "flag (if c then a else b) n = (if c then flag a n else flag b n)"
  by simp

lemma length_flags_if: "length (if c then a else b) = (if c then length a else length b)"
  by simp

lemma length_copy_header [simp]: "length (copy_header_flags h fl) = length fl"
  by (simp add: copy_header_flags_def length_flags_if)

lemma flag_copy_header:
  "length fl = 32 \<Longrightarrow> flag (copy_header_flags h fl) n
     = (flag fl n \<or> n \<in> {BIT_FORWARDED, BIT_PROXY, BIT_PRE_AUTHENT, BIT_HW_AUTHENT, BIT_ANONYMOUS} \<and> flag h n)"
  by (auto simp: copy_header_flags_def flag_if flag_with_bit length_flags_if)

lemma length_requested [simp]: "length (requested_flags req) = 32"
  by (simp add: requested_flags_def Let_def length_flags_if)

lemma flag_requested:
  "flag (requested_flags req) n =
     (n = BIT_ENC_PA_REP \<or> n = BIT_INVALID \<and> flag req BIT_POSTDATED
      \<or> n \<in> {BIT_FORWARDABLE, BIT_FORWARDED, BIT_PROXIABLE, BIT_PROXY, BIT_MAY_POSTDATE, BIT_POSTDATED,
             BIT_ANONYMOUS} \<and> flag req n)"
  by (auto simp: requested_flags_def Let_def flag_if flag_with_bit length_flags_if)

lemma length_apply_header [simp]: "length (apply_header srv h fl) = length fl"
  by (simp add: apply_header_def Let_def length_flags_if)

lemma flag_apply_header:
  assumes "length fl = 32"
  shows "flag (apply_header srv h fl) n =
    (if n = BIT_PROXIABLE \<or> n = BIT_FORWARDABLE then flag fl n \<and> flag h n
     else if n = BIT_ANONYMOUS then flag h n
     else flag fl n \<or> n = BIT_OK_AS_DELEGATE \<and> attr srv KDB_OK_AS_DELEGATE
          \<or> n \<in> {BIT_FORWARDED, BIT_PROXY, BIT_PRE_AUTHENT, BIT_HW_AUTHENT} \<and> flag h n)"
  using assms by (simp add: apply_header_def Let_def flag_if flag_with_bit length_flags_if
      flag_copy_header)

definition disallowed :: "principal option \<Rightarrow> principal \<Rightarrow> u32 \<Rightarrow> bool" where
  "disallowed client server b \<longleftrightarrow> attr server b \<or> (\<exists>c. client = Some c \<and> attr c b)"

lemma flag_drop_disallowed:
  assumes "length fl = 32"
  shows "flag (drop_disallowed c srv fl) n =
    (flag fl n \<and> \<not> (n = BIT_PROXIABLE \<and> disallowed c srv KDB_DISALLOW_PROXIABLE)
               \<and> \<not> (n = BIT_FORWARDABLE \<and> disallowed c srv KDB_DISALLOW_FORWARDABLE))"
  using assms by (cases c) (auto simp: drop_disallowed_def Let_def flag_if flag_with_bit
      length_flags_if disallowed_def)

lemma flag_tgs_ticket:
  assumes "\<not> flag req BIT_VALIDATE" and "\<not> flag req BIT_RENEW"
  shows "flag (get_ticket_flags req c srv (Some h)) n =
    (flag (apply_header srv h (requested_flags req)) n
     \<and> \<not> (n = BIT_PROXIABLE \<and> disallowed c srv KDB_DISALLOW_PROXIABLE)
     \<and> \<not> (n = BIT_FORWARDABLE \<and> disallowed c srv KDB_DISALLOW_FORWARDABLE))"
  using assms by (simp add: get_ticket_flags_def flag_drop_disallowed)

lemma flag_as_ticket:
  "flag (get_ticket_flags req c srv None) n =
    ((n = BIT_INITIAL \<or> flag (requested_flags req) n)
     \<and> \<not> (n = BIT_PROXIABLE \<and> disallowed c srv KDB_DISALLOW_PROXIABLE)
     \<and> \<not> (n = BIT_FORWARDABLE \<and> disallowed c srv KDB_DISALLOW_FORWARDABLE))"
  by (auto simp: get_ticket_flags_def flag_drop_disallowed flag_with_bit)

subsection \<open>End times\<close>

text \<open>What is relied on of \<open>chrono\<close>: a sum it returns is the sum, and it returns one for every time
  from 1901 to 2242.\<close>

definition chrono_ok :: "(ktime \<Rightarrow> int \<Rightarrow> ktime option) \<Rightarrow> bool" where
  "chrono_ok ca \<longleftrightarrow> (\<forall>t s r. ca t s = Some r \<longrightarrow> r = t + s) \<and>
     (\<forall>t s. - (2 ^ 31) \<le> t + s \<and> t + s < 2 ^ 33 \<longrightarrow> ca t s \<noteq> None)"

lemma chrono_ok_add:
  assumes "chrono_ok ca" and "- (2 ^ 31) \<le> t + s" and "t + s < 2 ^ 33"
  shows "add_seconds ca t s = Inr (t + s)"
  using assms by (fastforce simp: chrono_ok_def add_seconds_def)

lemma word_minus_of_int: "(u :: u32) - s = word_of_int (uint u - uint s)"
  by (rule word_sub_wi)

lemma sint_minus_small:
  assumes "uint s \<le> uint u + 2 ^ 31" and "uint u < uint s + 2 ^ 31"
  shows "sint ((u :: u32) - s) = uint u - uint s"
  unfolding word_minus_of_int sint_sbintrunc' using assms by (simp add: signed_take_bit_int_eq_self)

lemma sint_minus_large:
  assumes "uint s + 2 ^ 31 \<le> uint (u :: u32)"
  shows "sint (u - s) < 0"
proof -
  have "uint u < 4294967296"
    using uint_lt2p [of u] by simp
  then have "uint u - uint s < 4294967296"
    using uint_ge_0 [of s] by linarith
  moreover have "signed_take_bit 31 (uint u - uint s) \<le> uint u - uint s - 4294967296"
    using signed_take_bit_int_less_eq [of 31 "uint u - uint s"] assms by simp
  ultimately have "signed_take_bit 31 (uint u - uint s) < 0"
    by linarith
  then show ?thesis
    unfolding word_minus_of_int sint_sbintrunc' by simp
qed

lemma clamp_life:
  assumes "uint s \<le> uint u + 2 ^ 31"
  shows "(if (u :: u32) > s \<and> sint (u - s) < 0 then 2 ^ 31 - 1 else sint (u - s))
    = min (uint u - uint s) (2 ^ 31 - 1)"
proof (cases "uint u < uint s + 2 ^ 31")
  case True
  then show ?thesis
    using sint_minus_small [OF assms True] by (auto simp: word_less_def)
next
  case False
  then have "sint (u - s) < 0"
    by (intro sint_minus_large) simp
  moreover have "s < u"
    using False by (simp add: word_less_def)
  ultimately show ?thesis
    using False by simp
qed

text \<open>The end time asked for, and the lifetimes that limit a ticket.\<close>

definition until_of :: "ktime \<Rightarrow> ktime option \<Rightarrow> int" where
  "until_of till header_end =
     (if unix_seconds till = 0
      then (case header_end of None \<Rightarrow> 2 ^ 32 - 1 | Some h \<Rightarrow> uint (unix_seconds h))
      else (case header_end of None \<Rightarrow> uint (unix_seconds till)
            | Some h \<Rightarrow> min (uint (unix_seconds till)) (uint (unix_seconds h))))"

definition life_limits :: "principal option \<Rightarrow> principal \<Rightarrow> policy \<Rightarrow> int set" where
  "life_limits client server pol =
     as_i64 ` {m \<in> {p_max_life server, po_max_life pol} \<union> (case client of None \<Rightarrow> {} | Some c \<Rightarrow> {p_max_life c}).
               0 < m}"

lemma uint_max_u32: "uint (- 1 :: u32) = 2 ^ 32 - 1"
  by (simp add: unsigned_minus_1_eq_mask mask_eq_exp_minus_1)

lemma uint_min_word: "uint (min a (b :: u32)) = min (uint a) (uint b)"
  by (auto simp: min_def word_le_def)

lemma limit_lives:
  "limit_life a (limit_life b x) = Min (insert x (as_i64 ` {m \<in> {a, b}. 0 < m}))"
proof -
  have "{m \<in> {a, b}. 0 < m} = (if 0 < a then {a} else {}) \<union> (if 0 < b then {b} else {})"
    by auto
  then show ?thesis
    by (auto simp: limit_life_def min.commute min.left_commute)
qed

lemma all_limits:
  "limit_life (po_max_life pol) (limit_life (p_max_life server)
     (case client of None \<Rightarrow> x | Some c \<Rightarrow> limit_life (p_max_life c) x))
   = Min (insert x (life_limits client server pol))"
proof (cases client)
  case None
  then show ?thesis
    by (simp add: limit_lives life_limits_def insert_commute)
next
  case (Some c)
  have "{m \<in> {a, b} \<union> {d}. 0 < m} = (if 0 < a then {a} else {}) \<union> (if 0 < b then {b} else {}) \<union>
      (if 0 < d then {d} else {})" for a b d :: u64
    by auto
  then show ?thesis
    by (auto simp: Some life_limits_def limit_life_def min.commute min.left_commute)
qed

lemma as_i64_nonneg: "0 \<le> as_i64 v"
  by (simp add: as_i64_def i64_max_def)

lemma finite_life_limits [simp]: "finite (life_limits client server pol)"
  by (cases client) (simp_all add: life_limits_def)

lemma kdc_endtime_exact:
  assumes "chrono_ok ca" and "0 \<le> start" and "start < 2 ^ 32"
    and "start \<le> until_of till header_end + 2 ^ 31"
  shows "kdc_get_ticket_endtime ca pol start header_end till client server
    = Inr (start + Min (insert (min (until_of till header_end - start) (2 ^ 31 - 1))
                          (life_limits client server pol)))"
proof -
  let ?h = "map_option unix_seconds header_end"
  let ?t = "unix_seconds till"
  define u :: u32 where "u = (if ?t = 0 then (case ?h of None \<Rightarrow> - 1 | Some h \<Rightarrow> h)
    else (case ?h of None \<Rightarrow> ?t | Some h \<Rightarrow> min ?t h))"
  define x where "x = min (uint u - start) (2 ^ 31 - 1)"
  have u: "uint u = until_of till header_end"
    by (cases header_end) (simp_all add: u_def until_of_def uint_max_u32 uint_min_word)
  have st: "uint (unix_seconds start) = start"
    using assms(2,3) by (simp add: uint_unix_seconds)
  have "uint (unix_seconds start) \<le> uint u + 2 ^ 31"
    using assms(4) by (simp add: st u)
  note cl = clamp_life [OF this]
  define m where "m = Min (insert x (life_limits client server pol))"
  have "x \<le> 2147483647"
    by (simp add: x_def)
  then have ub: "m \<le> 2147483647"
    by (simp add: m_def Min_le_iff)
  have "- 2147483648 \<le> x"
    using assms(4) by (simp add: x_def u)
  moreover have "- 2147483648 \<le> as_i64 v" for v
    using as_i64_nonneg [of v] by linarith
  ultimately have lb: "- 2147483648 \<le> m"
    by (auto simp: m_def life_limits_def)
  have "start + m < 2 ^ 33" "- (2 ^ 31) \<le> start + m"
    using ub lb assms(2,3) by simp_all
  then have "add_seconds ca start m = Inr (start + m)"
    using assms(1) by (intro chrono_ok_add)
  then show ?thesis
    unfolding kdc_get_ticket_endtime_def Let_def u_def [symmetric] all_limits cl st u [symmetric]
      x_def [symmetric] m_def [symmetric]
    by simp
qed

subsection \<open>Renewable tickets\<close>

lemma renew_limited_le:
  "renew_limited ca pol header client server start r \<le> r"
  "header = Some h \<Longrightarrow> tk_renew_till h = Some till \<Longrightarrow>
     renew_limited ca pol header client server start r \<le> unix_seconds till"
  by (auto simp: renew_limited_def Let_def min.coboundedI1 split: option.splits sum.splits)

lemma renewtime_result:
  assumes "kdc_get_ticket_renewtime ca pol body header client server flags start endt = (fl, r)"
    and "length flags = 32"
  shows "flag fl n = (if n = BIT_RENEWABLE then r \<noteq> None else flag flags n)"
    and "r = Some t \<Longrightarrow> \<not> disallowed client server KDB_DISALLOW_RENEWABLE"
    and "r = Some t \<Longrightarrow> header = Some h \<Longrightarrow> flag (tk_flags h) BIT_RENEWABLE"
    and "r = Some t \<Longrightarrow> \<exists>rt. renew_asked body endt = Some rt \<and>
           t = uint (renew_limited ca pol header client server start (unix_seconds rt)) \<and>
           (flag (rb_kdc_options body) BIT_RENEWABLE \<or> uint (unix_seconds endt) < t)"
  using assms
  by (auto simp: kdc_get_ticket_renewtime_def Let_def flag_with_bit disallowed_def
      from_unix_seconds_def word_le_def not_le split: if_splits option.splits)

lemma as_i64_min: "as_i64 (min a b) = min (as_i64 a) (as_i64 b)"
  by (auto simp: as_i64_def min_def word_le_def)

text \<open>What limits the renew-till time: the time asked for (or, when the ticket is made renewable to reach the end
  time asked for, that end time), the header's renew-till time, and the start plus each renewable
  lifetime.\<close>

definition renew_limits ::
  "policy \<Rightarrow> kdc_req_body \<Rightarrow> enc_ticket_part option \<Rightarrow> principal option \<Rightarrow> principal \<Rightarrow> ktime \<Rightarrow> int set" where
  "renew_limits pol body header client server start =
     {if flag (rb_kdc_options body) BIT_RENEWABLE
      then (case rb_rtime body of None \<Rightarrow> 2 ^ 32 - 1 | Some r \<Rightarrow> uint (unix_seconds r))
      else uint (unix_seconds (rb_till body))} \<union>
     (\<lambda>till. uint (unix_seconds till)) ` set_option (Option.bind header tk_renew_till) \<union>
     (\<lambda>life. start + as_i64 life) `
       ({p_max_renewable_life server, po_realm_max_renewable_life pol} \<union> p_max_renewable_life ` set_option client)"

lemma renew_cap:
  assumes "chrono_ok ca" and "0 \<le> start"
  shows "uint (case add_seconds ca start (as_i64 l) of Inr cap \<Rightarrow> min r (unix_seconds cap) | Inl _ \<Rightarrow> r)
    = min (uint r) (start + as_i64 l)"
proof -
  have r: "uint r < 2 ^ 32"
    using uint_lt2p [of r] by simp
  have nonneg: "0 \<le> start + as_i64 l"
    using assms(2) as_i64_nonneg [of l] by simp
  show ?thesis
  proof (cases "ca start (as_i64 l)")
    case None
    then have "\<not> (- (2 ^ 31) \<le> start + as_i64 l \<and> start + as_i64 l < 2 ^ 33)"
      using assms(1) unfolding chrono_ok_def by blast
    with nonneg r None show ?thesis
      by (simp add: add_seconds_def)
  next
    case (Some cap)
    then have "cap = start + as_i64 l"
      using assms(1) by (auto simp: chrono_ok_def)
    with Some nonneg r show ?thesis
      by (auto simp: add_seconds_def uint_min_word uint_unix_seconds)
  qed
qed

lemma renew_limited_exact:
  assumes "chrono_ok ca" and "0 \<le> start" and "renew_asked body endt = Some rt"
  shows "uint (renew_limited ca pol header client server start (unix_seconds rt))
    = Min (renew_limits pol body header client server start)"
proof -
  have rt: "uint (unix_seconds rt) = (if flag (rb_kdc_options body) BIT_RENEWABLE
      then (case rb_rtime body of None \<Rightarrow> 2 ^ 32 - 1 | Some r \<Rightarrow> uint (unix_seconds r))
      else uint (unix_seconds (rb_till body)))"
    using assms(3)
    by (auto simp: renew_asked_def from_unix_seconds_def uint_unix_seconds uint_max_u32 split: if_splits option.splits)
  define r where "r = (case Option.bind header tk_renew_till of None \<Rightarrow> unix_seconds rt
    | Some till \<Rightarrow> min (unix_seconds rt) (unix_seconds till))"
  have "uint (renew_limited ca pol header client server start (unix_seconds rt))
      = min (uint r) (start + as_i64 (max_rlife pol client server))"
    unfolding renew_limited_def Let_def r_def renew_cap [OF assms(1,2)]
    by (cases header) (auto split: option.splits)
  also have "\<dots> = Min (renew_limits pol body header client server start)"
    unfolding renew_limits_def rt [symmetric]
    by (cases "Option.bind header tk_renew_till"; cases client)
      (simp_all add: r_def max_rlife_def Let_def as_i64_min uint_min_word min_add_distrib_right ac_simps)
  finally show ?thesis .
qed

lemma renewtime_exact:
  assumes "chrono_ok ca" and "0 \<le> start" and "length flags = 32"
  shows "(let opts = rb_kdc_options body; t = Min (renew_limits pol body header client server start);
      renewable = (\<not> disallowed client server KDB_DISALLOW_RENEWABLE \<and>
        (\<forall>h. header = Some h \<longrightarrow> flag (tk_flags h) BIT_RENEWABLE) \<and>
        (flag opts BIT_RENEWABLE \<or>
         flag opts BIT_RENEWABLE_OK \<and> unix_seconds endt < unix_seconds (rb_till body) \<and> uint (unix_seconds endt) < t));
      (fl, r) = kdc_get_ticket_renewtime ca pol body header client server flags start endt
    in r = (if renewable then Some t else None) \<and>
       (\<forall>n. flag fl n = (if n = BIT_RENEWABLE then renewable else flag flags n)))"
proof -
  obtain fl r where e: "kdc_get_ticket_renewtime ca pol body header client server flags start endt = (fl, r)"
    by (cases "kdc_get_ticket_renewtime ca pol body header client server flags start endt")
  define t where "t = Min (renew_limits pol body header client server start)"
  define renewable where "renewable \<longleftrightarrow> \<not> disallowed client server KDB_DISALLOW_RENEWABLE \<and>
      (\<forall>h. header = Some h \<longrightarrow> flag (tk_flags h) BIT_RENEWABLE) \<and>
      (flag (rb_kdc_options body) BIT_RENEWABLE \<or>
       flag (rb_kdc_options body) BIT_RENEWABLE_OK \<and> unix_seconds endt < unix_seconds (rb_till body) \<and> uint (unix_seconds endt) < t)"
  have r: "r = (if renewable then Some t else None)"
  proof (cases "renew_asked body endt")
    case None
    then have "\<not> renewable" "r = None"
      using e by (auto simp: renewable_def renew_asked_def kdc_get_ticket_renewtime_def Let_def split: if_splits)
    then show ?thesis
      by simp
  next
    case (Some rt)
    note lim = renew_limited_exact [OF assms(1,2) Some, of pol header client server, folded t_def]
    have asked: "flag (rb_kdc_options body) BIT_RENEWABLE \<or>
        flag (rb_kdc_options body) BIT_RENEWABLE_OK \<and> unix_seconds endt < unix_seconds (rb_till body)"
      using Some by (auto simp: renew_asked_def split: if_splits)
    show ?thesis
      using e asked lim unfolding renewable_def
      by (cases header; cases client)
        (auto simp: kdc_get_ticket_renewtime_def Let_def Some disallowed_def from_unix_seconds_def word_le_def split: if_splits)
  qed
  then show ?thesis
    using renewtime_result(1) [OF e assms(3)] unfolding e Let_def t_def [symmetric] renewable_def [symmetric] by simp
qed

subsection \<open>Session keys\<close>

lemma select_session_first:
  "select_session_keytype server ns pol =
     (case filter (session_etype_allowed pol server) (concat (map (\<lambda>n. case known n of Inl _ \<Rightarrow> [] | Inr e \<Rightarrow> [e]) ns)) of
        [] \<Rightarrow> Inl (proto ERR_ETYPE_NOSUPP STATUS_BAD_ENCRYPTION_TYPE)
      | e # _ \<Rightarrow> Inr e)"
  by (induction ns) (auto split: sum.split)

subsection \<open>Accepted AS requests\<close>

text \<open>
  \<open>validate_as_request\<close> accepts exactly the requests with none of the
  six TGS-only options, for a client and a server that have not expired, a password that has neither
  expired nor to be changed (unless the service is the password changing one), no postdating that the
  client or the server forbids, a client and a server that are not locked, a server that may be a
  server, a realm with a restriction on anonymous clients only for its own ticket-granting service,
  and a client the lockout policy does not hold.
\<close>
lemma validate_as_request_accepts:
  "validate_as_request s client server body now = Some (Inr ()) \<longleftrightarrow>
     (let opts = rb_kdc_options body in
      (\<forall>b \<in> {BIT_FORWARDED, BIT_PROXY, BIT_RENEW, BIT_VALIDATE, BIT_ENC_TKT_IN_SKEY, BIT_CNAME_IN_ADDL_TKT}.
         \<not> flag opts b) \<and>
      (\<forall>p \<in> {client, server}. p_expiration p = 0 \<or> now \<le> p_expiration p) \<and>
      (attr server KDB_PWCHANGE_SERVICE \<or>
         (p_pw_expire client = 0 \<or> now \<le> p_pw_expire client) \<and> \<not> attr client KDB_REQUIRES_PWCHANGE) \<and>
      (flag opts BIT_MAY_POSTDATE \<or> flag opts BIT_POSTDATED \<longrightarrow>
         \<not> attr client KDB_DISALLOW_POSTDATED \<and> \<not> attr server KDB_DISALLOW_POSTDATED) \<and>
      \<not> attr client KDB_DISALLOW_ALL_TIX \<and> \<not> attr server KDB_DISALLOW_ALL_TIX \<and>
      \<not> attr server KDB_DISALLOW_SVR \<and>
      (\<exists>srv. (case rb_sname body of None \<Rightarrow> krbtgt (s_realm s) | n \<Rightarrow> n) = Some srv \<and>
         \<not> (po_restrict_anon (s_policy s) \<and> is_anonymous_principal (p_name client) \<and>
            \<not> is_local_tgs_principal srv (s_realm s))) \<and>
      lockout_check_policy s client now = Inr ())"
proof -
  have guard: "(if c then Some (Inl e) else r) = Some (Inr ()) \<longleftrightarrow> \<not> c \<and> r = Some (Inr ())"
    for c and e :: kdc_error and r :: "(kdc_error + unit) option"
    by simp
  show ?thesis
    unfolding validate_as_request_def Let_def guard as_invalid_bits_iff not_not
    by (auto simp: check_anon_def not_less split: option.splits if_splits)
qed

subsection \<open>Properties\<close>

text \<open>
  C29: The end time of a ticket.  For a start time in the range of a timestamp that is at most 2^31
  seconds after the end time asked for, the ticket ends exactly at the earliest of: the end time asked for
  (that of the request and of the header ticket), the start plus each lifetime limit that is set for the
  client, the server and the realm, and the start plus 2^31 - 1 seconds.
\<close>
theorem ticket_endtime_exact:
  assumes "chrono_ok ca" and "0 \<le> start" and "start < 2 ^ 32"
    and "start \<le> until_of till header_end + 2 ^ 31"
  shows "kdc_get_ticket_endtime ca pol start header_end till client server
    = Inr (Min ({until_of till header_end, start + (2 ^ 31 - 1)} \<union>
                (\<lambda>life. start + life) ` life_limits client server pol))"
proof -
  have "start + Min (insert (min a b) S) = Min ({start + a, start + b} \<union> (\<lambda>x. start + x) ` S)"
    if "finite S" for a b :: int and S
  proof -
    have "start + Min (insert (min a b) S) = Min ((\<lambda>x. start + x) ` insert a (insert b S))"
    proof -
      have "Min (insert (min a b) S) = Min (insert a (insert b S))"
        using that by (cases "S = {}") (simp_all add: min.assoc)
      also have "start + \<dots> = Min ((\<lambda>x. start + x) ` insert a (insert b S))"
        using that by (intro mono_Min_commute) (auto simp: mono_def)
      finally show ?thesis .
    qed
    then show ?thesis
      by simp
  qed
  from this [of "life_limits client server pol" "until_of till header_end - start" "2 ^ 31 - 1"]
  show ?thesis
    unfolding kdc_endtime_exact [OF assms] by simp
qed

lemma chrono_ok_plus: "chrono_ok (\<lambda>t s. Some (t + s))"
  by (simp add: chrono_ok_def)

theorem ticket_endtime_exact_witness:
  "kdc_get_ticket_endtime (\<lambda>t s. Some (t + s)) policy_default 1700000000 (Some 1700050000) 1800000000 None
     ((example_principal 0 [])\<lparr>p_max_life := 3600\<rparr>) = Inr 1700003600"
proof -
  have "life_limits None ((example_principal 0 [])\<lparr>p_max_life := 3600\<rparr>) policy_default = {3600, 86400}"
  proof -
    have "{m \<in> {3600, 86400 :: u64} \<union> {}. 0 < m} = {3600, 86400}"
      by auto
    then show ?thesis
      by (simp add: life_limits_def policy_default_def as_i64_def i64_max_def)
  qed
  moreover have "until_of 1800000000 (Some 1700050000) = 1700050000"
    by (simp add: until_of_def unix_seconds_def)
  ultimately show ?thesis
    using ticket_endtime_exact [OF chrono_ok_plus, of 1700000000 1800000000 "Some 1700050000"
        policy_default None "(example_principal 0 [])\<lparr>p_max_life := 3600\<rparr>"]
    by simp
qed

text \<open>
  C30: The renewable lifetime.  A ticket gets a renew-till time and the \<open>RENEWABLE\<close> flag exactly if neither the
  client nor the server forbids it, the header ticket, if any, is renewable, and the request asks for
  it, or accepts it (\<open>RENEWABLE-OK\<close>) and an end time after the one of the ticket that the renew-till time
  goes beyond too.  The renew-till time is then exactly the least of the time asked for (none asked for: the last
  one; not asked for: the end time of the request), the header's renew-till time, and the start plus the renewable
  lifetimes of the server, the realm and the client.  No other flag changes.
\<close>
theorem ticket_renewtime_exact:
  assumes "chrono_ok ca" and "0 \<le> start" and "length flags = 32"
  shows "(let opts = rb_kdc_options body; t = Min (renew_limits pol body header client server start);
      renewable = (\<not> disallowed client server KDB_DISALLOW_RENEWABLE \<and>
        (\<forall>h. header = Some h \<longrightarrow> flag (tk_flags h) BIT_RENEWABLE) \<and>
        (flag opts BIT_RENEWABLE \<or>
         flag opts BIT_RENEWABLE_OK \<and> unix_seconds endt < unix_seconds (rb_till body) \<and> uint (unix_seconds endt) < t));
      (fl, r) = kdc_get_ticket_renewtime ca pol body header client server flags start endt
    in r = (if renewable then Some t else None) \<and>
       (\<forall>n. flag fl n = (if n = BIT_RENEWABLE then renewable else flag flags n)))"
  using assms by (rule renewtime_exact)

definition example_body :: kdc_req_body where
  "example_body =
     \<lparr>rb_kdc_options = with_bit flags_none BIT_RENEWABLE True, rb_cname = None, rb_realm = ''R'',
      rb_sname = None, rb_from = None, rb_till = 2000, rb_rtime = Some 9000, rb_nonce = 1,
      rb_etype = [18], rb_addresses = None, rb_enc_authorization_data = None,
      rb_additional_tickets = None\<rparr>"

theorem ticket_renewtime_exact_witness:
  "snd (kdc_get_ticket_renewtime (\<lambda>t s. Some (t + s)) policy_default example_body None None
     ((example_principal 0 [])\<lparr>p_max_renewable_life := 500\<rparr>) flags_none 1000 1200) = Some 1500 \<and>
   snd (kdc_get_ticket_renewtime (\<lambda>t s. Some (t + s)) policy_default (example_body\<lparr>rb_rtime := Some 1400\<rparr>) None None
     ((example_principal 0 [])\<lparr>p_max_renewable_life := 500\<rparr>) flags_none 1000 1200) = Some 1400"
proof -
  let ?p = "(example_principal 0 [])\<lparr>p_max_renewable_life := 500\<rparr>"
  have "renew_limits policy_default (example_body\<lparr>rb_rtime := Some t\<rparr>) None None ?p 1000
      = {uint (unix_seconds t), 1500, 1000 + as_i64 (po_realm_max_renewable_life policy_default)}" for t
    by (auto simp: renew_limits_def example_body_def flag_with_bit as_i64_def i64_max_def)
  moreover have "po_realm_max_renewable_life policy_default \<ge> 500"
    by (simp add: policy_default_def)
  then have "1500 \<le> 1000 + as_i64 (po_realm_max_renewable_life policy_default)"
    by (simp add: as_i64_def i64_max_def word_le_def)
  ultimately have "Min (renew_limits policy_default (example_body\<lparr>rb_rtime := Some t\<rparr>) None None ?p 1000)
      = min (uint (unix_seconds t)) 1500" for t
    by simp
  moreover have "\<not> disallowed None ?p KDB_DISALLOW_RENEWABLE"
    by (simp add: disallowed_def attr_def example_principal_def)
  moreover have "flag (rb_kdc_options (example_body\<lparr>rb_rtime := r\<rparr>)) BIT_RENEWABLE" for r
    by (simp add: example_body_def flag_with_bit)
  ultimately have "snd (kdc_get_ticket_renewtime (\<lambda>t s. Some (t + s)) policy_default (example_body\<lparr>rb_rtime := Some t\<rparr>)
      None None ?p flags_none 1000 1200) = Some (min (uint (unix_seconds t)) 1500)" for t
    using ticket_renewtime_exact [OF chrono_ok_plus, where start = 1000 and flags = flags_none and pol = policy_default
        and body = "example_body\<lparr>rb_rtime := Some t\<rparr>" and header = None and client = None and server = ?p and endt = 1200]
    by (simp add: Let_def split_beta)
  from this [of 9000] this [of 1400] show ?thesis
    by (simp add: example_body_def unix_seconds_def)
qed

text \<open>
  C31: The session key's encryption type.  It is the first one of the client's list that is known,
  permitted by the realm, not a deprecated one the realm has not allowed, and supported by the server; when
  there is none the request fails with \<open>ETYPE_NOSUPP\<close>.
\<close>
theorem session_keytype_first:
  "select_session_keytype server ns pol =
     (case filter (\<lambda>e. etype_permitted pol e \<and> (e = Des3CbcSha1 \<longrightarrow> po_allow_des3 pol) \<and>
                      (e = Rc4Hmac \<longrightarrow> po_allow_rc4 pol) \<and> dbentry_supports_enctype pol server e)
             (concat (map (\<lambda>n. case known n of Inl _ \<Rightarrow> [] | Inr e \<Rightarrow> [e]) ns)) of
        [] \<Rightarrow> Inl (proto ERR_ETYPE_NOSUPP STATUS_BAD_ENCRYPTION_TYPE)
      | e # _ \<Rightarrow> Inr e)"
proof -
  have "session_etype_allowed pol server = (\<lambda>e. etype_permitted pol e \<and> (e = Des3CbcSha1 \<longrightarrow> po_allow_des3 pol) \<and>
      (e = Rc4Hmac \<longrightarrow> po_allow_rc4 pol) \<and> dbentry_supports_enctype pol server e)"
    by (auto simp: fun_eq_iff session_etype_allowed_def)
  then show ?thesis
    by (simp add: select_session_first)
qed

theorem session_keytype_first_witness:
  "select_session_keytype (example_principal 0 []) [23, 99, 18] policy_default = Inr Aes256CtsHmacSha196"
  by (subst session_keytype_first)
    (simp add: known_def etype_permitted_def policy_default_def dbentry_supports_enctype_def
      example_principal_def)

end
