(* ===== verification/Authdata.thy ===== *)
theory Authdata
  imports KdcUtil
begin

text \<open>
  Authorization data of tickets and authenticators: the search through nested \<open>AD-IF-RELEVANT\<close>
  containers (\<open>find_authdata\<close> in \<open>crates/krb5-kdc/src/ad.rs\<close>) and the encryption type negotiation of
  RFC 4537 (\<open>negotiate_ap_req_etypes\<close> in \<open>crates/krb5-protocol/src/auth_con.rs\<close>).  The DER decoders are
  arguments: \<open>dec\<close> decodes an \<open>AuthorizationData\<close> and fails with a text, \<open>dec_list\<close> decodes a list of
  integers.
\<close>

abbreviation (input) AD_IF_RELEVANT :: int where "AD_IF_RELEVANT \<equiv> 1"
abbreviation (input) AD_KDC_ISSUED :: int where "AD_KDC_ISSUED \<equiv> 4"
abbreviation (input) AD_FX_ARMOR :: int where "AD_FX_ARMOR \<equiv> 71"
abbreviation (input) AD_CAMMAC :: int where "AD_CAMMAC \<equiv> 96"
abbreviation (input) AD_AUTH_INDICATOR :: int where "AD_AUTH_INDICATOR \<equiv> 97"
abbreviation (input) AD_WIN2K_PAC :: int where "AD_WIN2K_PAC \<equiv> 128"
abbreviation (input) AD_ETYPE_NEGOTIATION :: int where "AD_ETYPE_NEGOTIATION \<equiv> 129"
abbreviation (input) AD_SIGNTICKET :: int where "AD_SIGNTICKET \<equiv> 512"

type_synonym authdata = "authorization_data_value list"
type_synonym ad_decoder = "bytes \<Rightarrow> (int \<times> string) + authdata"

subsection \<open>Search\<close>

definition kdc_only :: "int \<Rightarrow> bool" where
  "kdc_only ty =
     (ty \<in> {AD_SIGNTICKET, AD_KDC_ISSUED, AD_WIN2K_PAC, AD_CAMMAC, AD_AUTH_INDICATOR})"

text \<open>A value that is not a container: skipped, refused as the 257th match, or pushed.\<close>

definition match_authdata ::
  "int \<Rightarrow> bool \<Rightarrow> authorization_data_value \<Rightarrow> authdata \<Rightarrow> (int \<times> string) + authdata" where
  "match_authdata ty from_ap_req ad out =
     (if from_ap_req \<and> kdc_only (ad_type ad) then Inr out
      else if ad_type ad = ty then
        (if length out = 256 then Inl (ERR_GENERIC, ''More than 256 authdata matched a query'')
         else Inr (out @ [ad]))
      else Inr out)"

text \<open>The loop over the values; the recursive call is on what the decoder returns.  \<open>None\<close>: the search
  does not return.\<close>

partial_function (option) find_authdata_1 ::
  "ad_decoder \<Rightarrow> int \<Rightarrow> bool \<Rightarrow> authdata \<Rightarrow> authdata \<Rightarrow> ((int \<times> string) + authdata) option" where
  "find_authdata_1 dec ty from_ap_req in_ad out =
     (case in_ad of
        [] \<Rightarrow> Some (Inr out)
      | ad # rest \<Rightarrow>
          Option.bind
            (if ad_type ad = AD_IF_RELEVANT then
               (case dec (ad_data ad) of
                  Inl e \<Rightarrow> Some (Inl e)
                | Inr inner \<Rightarrow> find_authdata_1 dec ty from_ap_req inner out)
             else Some (match_authdata ty from_ap_req ad out))
            (\<lambda>r. case r of
                   Inl e \<Rightarrow> Some (Inl e)
                 | Inr out' \<Rightarrow> find_authdata_1 dec ty from_ap_req rest out'))"

definition find_authdata ::
  "ad_decoder \<Rightarrow> authdata option \<Rightarrow> authdata option \<Rightarrow> int \<Rightarrow> ((int \<times> string) + authdata) option" where
  "find_authdata dec ticket_ad ap_req_ad ty =
     Option.bind
       (case ticket_ad of None \<Rightarrow> Some (Inr []) | Some ad \<Rightarrow> find_authdata_1 dec ty False ad [])
       (\<lambda>r. case r of
              Inl e \<Rightarrow> Some (Inl e)
            | Inr out \<Rightarrow>
                (case ap_req_ad of
                   None \<Rightarrow> Some (Inr out)
                 | Some ad \<Rightarrow> find_authdata_1 dec ty True ad out))"

subsection \<open>Negotiation of the encryption type\<close>

datatype proto_error = NopermEtype string | Asn1Failure string

fun decode_etype_list ::
  "(bytes \<Rightarrow> 'e + authdata) \<Rightarrow> (bytes \<Rightarrow> string + int list) \<Rightarrow> authdata \<Rightarrow> proto_error + int list option" where
  "decode_etype_list dec dec_list [] = Inr None"
| "decode_etype_list dec dec_list (el # ad) =
     (let found =
        (if ad_type el = AD_IF_RELEVANT then
           (case dec (ad_data el) of
              Inl _ \<Rightarrow> None
            | Inr inner \<Rightarrow> find (\<lambda>e. ad_type e = AD_ETYPE_NEGOTIATION) inner)
         else if ad_type el = AD_ETYPE_NEGOTIATION then Some el else None)
      in case found of
           Some e \<Rightarrow> andthen (map_err Asn1Failure (dec_list (ad_data e))) (\<lambda>l. Inr (Some l))
         | None \<Rightarrow> decode_etype_list dec dec_list ad)"

definition NOPERM_ETYPE :: string where
  "NOPERM_ETYPE = ''Encryption type not permitted''"

definition negotiate_etype :: "int list \<Rightarrow> nat \<Rightarrow> enctype list \<Rightarrow> proto_error + enctype" where
  "negotiate_etype desired mandatory permitted =
     (case find (\<lambda>d. d \<notin> set (map to_iana permitted)) (drop mandatory desired) of
        Some d \<Rightarrow>
          Inl (NopermEtype
            (case known d of
               Inl _ \<Rightarrow> NOPERM_ETYPE
             | Inr e \<Rightarrow> ''Encryption type '' @ to_mit_name e @ '' not permitted''))
      | None \<Rightarrow> ok_or (NopermEtype NOPERM_ETYPE) (find (\<lambda>p. to_iana p \<in> set desired) permitted))"

definition negotiate_ap_req_etypes ::
  "(bytes \<Rightarrow> 'e + authdata) \<Rightarrow> (bytes \<Rightarrow> string + int list) \<Rightarrow> authenticator \<Rightarrow> int \<Rightarrow> enctype list \<Rightarrow>
   proto_error + enctype" where
  "negotiate_ap_req_etypes dec dec_list auth session_etype permitted =
     andthen (case au_authorization_data auth of
                None \<Rightarrow> Inr None | Some ad \<Rightarrow> decode_etype_list dec dec_list ad)
       (\<lambda>l. let desired = (case l of None \<Rightarrow> [] | Some d \<Rightarrow> d);
                rfc4537_len = length desired;
                desired = (case au_subkey auth of None \<Rightarrow> desired | Some sk \<Rightarrow> desired @ [keytype sk]);
                desired = desired @ [session_etype]
            in negotiate_etype desired rfc4537_len permitted)"

subsection \<open>What a search returns\<close>

definition added :: "int \<Rightarrow> bool \<Rightarrow> authdata \<Rightarrow> 'e + authdata \<Rightarrow> bool" where
  "added ty ap out r \<longleftrightarrow>
     (\<forall>out'. r = Inr out' \<longrightarrow>
        (\<exists>add. out' = out @ add \<and> (\<forall>a \<in> set add. ad_type a = ty \<and> \<not> (ap \<and> kdc_only ty))) \<and>
        (length out \<le> 256 \<longrightarrow> length out' \<le> 256))"

lemma added_refl [simp]: "added ty ap out (Inr out)"
  by (simp add: added_def)

lemma added_error [simp]: "added ty ap out (Inl e)"
  by (simp add: added_def)

lemma added_trans: "added ty ap out (Inr mid) \<Longrightarrow> added ty ap mid r \<Longrightarrow> added ty ap out r"
  unfolding added_def by fastforce

lemma match_authdata_added: "added ty ap out (match_authdata ty ap ad out)"
  by (auto simp: added_def match_authdata_def split: if_splits)

lemma find_authdata_1_added:
  assumes "find_authdata_1 dec ty ap in_ad out = Some r"
  shows "added ty ap out r"
proof (rule find_authdata_1.raw_induct [where P = "\<lambda>dec ty ap in_ad out r. added ty ap out r", OF _ assms])
  fix f :: "ad_decoder \<Rightarrow> int \<Rightarrow> bool \<Rightarrow> authdata \<Rightarrow> authdata \<Rightarrow> ((int \<times> string) + authdata) option"
    and dec ty ap in_ad out r
  assume ih: "\<And>dec ty ap in_ad out r. f dec ty ap in_ad out = Some r \<Longrightarrow> added ty ap out r"
    and eq: "(case in_ad of [] \<Rightarrow> Some (Inr out)
      | ad # rest \<Rightarrow> Option.bind
          (if ad_type ad = AD_IF_RELEVANT then
             (case dec (ad_data ad) of Inl e \<Rightarrow> Some (Inl e) | Inr inner \<Rightarrow> f dec ty ap inner out)
           else Some (match_authdata ty ap ad out))
          (\<lambda>r. case r of Inl e \<Rightarrow> Some (Inl e) | Inr out' \<Rightarrow> f dec ty ap rest out')) = Some r"
  show "added ty ap out r"
  proof (cases in_ad)
    case Nil
    then show ?thesis using eq by auto
  next
    case (Cons ad rest)
    let ?first = "if ad_type ad = AD_IF_RELEVANT then
        (case dec (ad_data ad) of Inl e \<Rightarrow> Some (Inl e) | Inr inner \<Rightarrow> f dec ty ap inner out)
      else Some (match_authdata ty ap ad out)"
    obtain m where m: "?first = Some m"
      and r: "(case m of Inl e \<Rightarrow> Some (Inl e) | Inr out' \<Rightarrow> f dec ty ap rest out') = Some r"
      using eq Cons by (auto simp: bind_eq_Some_conv)
    have am: "added ty ap out m"
    proof (cases "ad_type ad = AD_IF_RELEVANT")
      case True
      then show ?thesis
        using m ih by (cases "dec (ad_data ad)") auto
    next
      case False
      then show ?thesis
        using m match_authdata_added by auto
    qed
    show ?thesis
    proof (cases m)
      case (Inl e)
      then show ?thesis using r by auto
    next
      case (Inr mid)
      then have "added ty ap mid r"
        using r ih by simp
      then show ?thesis
        using am Inr added_trans by blast
    qed
  qed
qed

subsection \<open>A search returns\<close>

definition weight :: "authdata \<Rightarrow> nat" where
  "weight ads = sum_list (map (\<lambda>a. Suc (length (ad_data a))) ads)"

text \<open>Documented behaviour of DER: the elements are inside the octets decoded, each behind a tag.\<close>

definition decoder_shrinks :: "ad_decoder \<Rightarrow> bool" where
  "decoder_shrinks dec \<longleftrightarrow> (\<forall>b inner. dec b = Inr inner \<longrightarrow> weight inner \<le> length b)"

lemma find_authdata_1_returns:
  assumes "decoder_shrinks dec"
  shows "\<exists>r. find_authdata_1 dec ty ap in_ad out = Some r"
proof (induction "weight in_ad" arbitrary: in_ad out rule: less_induct)
  case less
  show ?case
  proof (cases in_ad)
    case Nil
    then show ?thesis by (simp add: find_authdata_1.simps)
  next
    case (Cons ad rest)
    have "weight rest < weight in_ad"
      by (simp add: Cons weight_def)
    then have rest: "\<exists>r. find_authdata_1 dec ty ap rest out' = Some r" for out'
      by (rule less)
    have inner: "\<exists>r. find_authdata_1 dec ty ap inner out = Some r" if "dec (ad_data ad) = Inr inner" for inner
    proof (rule less)
      have "weight inner \<le> length (ad_data ad)"
        using assms that by (simp add: decoder_shrinks_def)
      then show "weight inner < weight in_ad"
        by (simp add: Cons weight_def)
    qed
    let ?first = "if ad_type ad = AD_IF_RELEVANT then
        (case dec (ad_data ad) of Inl e \<Rightarrow> Some (Inl e) | Inr inner \<Rightarrow> find_authdata_1 dec ty ap inner out)
      else Some (match_authdata ty ap ad out)"
    have "\<exists>m. ?first = Some m"
      using inner by (cases "dec (ad_data ad)") auto
    then obtain m where m: "?first = Some m" ..
    have "find_authdata_1 dec ty ap in_ad out = (case m of Inl e \<Rightarrow> Some (Inl e)
        | Inr out' \<Rightarrow> find_authdata_1 dec ty ap rest out')"
      by (subst find_authdata_1.simps) (simp add: Cons m)
    then show ?thesis
      using rest by (cases m) auto
  qed
qed

lemma find_authdata_returns:
  assumes "decoder_shrinks dec"
  shows "\<exists>r. find_authdata dec tkt ap ty = Some r"
proof -
  have "\<exists>r. (case tkt of None \<Rightarrow> Some (Inr []) | Some ad \<Rightarrow> find_authdata_1 dec ty False ad []) = Some r"
    using find_authdata_1_returns [OF assms] by (cases tkt) auto
  then obtain r where r: "(case tkt of None \<Rightarrow> Some (Inr []) | Some ad \<Rightarrow> find_authdata_1 dec ty False ad []) = Some r"
    by blast
  show ?thesis
    using find_authdata_1_returns [OF assms] by (cases r; cases ap) (auto simp: find_authdata_def r)
qed

lemma find_authdata_found:
  assumes "find_authdata dec tkt ap ty = Some (Inr out)"
  shows "(\<forall>a \<in> set out. ad_type a = ty) \<and> length out \<le> 256 \<and>
    (kdc_only ty \<longrightarrow> find_authdata dec tkt None ty = Some (Inr out))"
proof -
  obtain mid where mid: "(case tkt of None \<Rightarrow> Some (Inr []) | Some ad \<Rightarrow> find_authdata_1 dec ty False ad [])
      = Some (Inr mid)"
  proof -
    obtain m where "(case tkt of None \<Rightarrow> Some (Inr []) | Some ad \<Rightarrow> find_authdata_1 dec ty False ad []) = Some m"
      "(case m of Inl e \<Rightarrow> Some (Inl e) | Inr out \<Rightarrow>
          (case ap of None \<Rightarrow> Some (Inr out) | Some ad \<Rightarrow> find_authdata_1 dec ty True ad out)) = Some (Inr out)"
      using assms by (auto simp: find_authdata_def bind_eq_Some_conv)
    with that show thesis by (cases m) auto
  qed
  have m: "added ty False [] (Inr mid :: (int \<times> string) + authdata)"
    using mid find_authdata_1_added [of dec ty False _ "[]" "Inr mid"] by (cases tkt) auto
  have o: "added ty True mid (Inr out :: (int \<times> string) + authdata)"
    using assms mid find_authdata_1_added [of dec ty True _ mid "Inr out"]
    by (cases ap) (auto simp: find_authdata_def)
  obtain add1 where 1: "mid = add1" "\<forall>a \<in> set add1. ad_type a = ty" "length mid \<le> 256"
    using m by (auto simp: added_def)
  obtain add2 where 2: "out = mid @ add2" "\<forall>a \<in> set add2. ad_type a = ty \<and> \<not> kdc_only ty" "length out \<le> 256"
    using o 1(3) by (auto simp: added_def)
  have "out = mid" if "kdc_only ty"
    using 2 that by (cases add2) auto
  then show ?thesis
    using 1 2 mid by (auto simp: find_authdata_def)
qed

subsection \<open>Properties\<close>

text \<open>
  C32: Authorization data only the KDC may issue is never taken from an authenticator.  A search that
  succeeds returns values of the type asked for, at most 256 of them, and for the types reserved to the
  KDC (PAC, CAMMAC, signed tickets, authentication indicators, KDC-issued data) the result is that of
  the ticket alone, whatever the client has put into the authenticator, nested to any depth.
\<close>
theorem find_authdata_not_forged:
  assumes "find_authdata dec ticket_ad ap_req_ad ty = Some (Inr out)"
  shows "(\<forall>a \<in> set out. ad_type a = ty) \<and> length out \<le> 256 \<and>
    (kdc_only ty \<longrightarrow> find_authdata dec ticket_ad None ty = Some (Inr out))"
  using assms by (rule find_authdata_found)

theorem find_authdata_not_forged_witness:
  "find_authdata (\<lambda>_. Inl (0, [])) (Some [\<lparr>ad_type = 128, ad_data = [1]\<rparr>])
     (Some [\<lparr>ad_type = 128, ad_data = [2]\<rparr>]) 128 = Some (Inr [\<lparr>ad_type = 128, ad_data = [1]\<rparr>])
   \<and> find_authdata (\<lambda>_. Inl (0, [])) (Some [\<lparr>ad_type = 128, ad_data = [1]\<rparr>]) None 128
     = Some (Inr [\<lparr>ad_type = 128, ad_data = [1]\<rparr>])"
proof -
  have *: "find_authdata (\<lambda>_. Inl (0, [])) (Some [\<lparr>ad_type = 128, ad_data = [1]\<rparr>])
     (Some [\<lparr>ad_type = 128, ad_data = [2]\<rparr>]) 128 = Some (Inr [\<lparr>ad_type = 128, ad_data = [1]\<rparr>])"
    by (simp add: find_authdata_def find_authdata_1.simps match_authdata_def kdc_only_def)
  from find_authdata_not_forged [OF *] * show ?thesis
    by (simp add: kdc_only_def)
qed

text \<open>
  C33: The search through nested authorization data returns, for every ticket and authenticator, when the
  decoder only returns elements that are inside the octets it decodes.
\<close>
theorem find_authdata_terminates:
  assumes "decoder_shrinks dec"
  shows "\<exists>r. find_authdata dec ticket_ad ap_req_ad ty = Some r"
  using assms by (rule find_authdata_returns)

theorem find_authdata_terminates_witness:
  "\<exists>r. find_authdata (\<lambda>b. if 3 \<le> length b then Inr [\<lparr>ad_type = 1, ad_data = drop 3 b\<rparr>] else Inr [])
     (Some [\<lparr>ad_type = 1, ad_data = replicate 9 0\<rparr>]) None 128 = Some r"
  by (rule find_authdata_terminates) (auto simp: decoder_shrinks_def weight_def)

end
