(* ===== verification/Cts.thy ===== *)
theory Cts
  imports KDB
begin

text \<open>
  Ciphertext stealing (\<open>crates/krb5-crypto/src/cts.rs\<close>).  The block ciphers, hash functions, MACs and the
  password hash come from third-party crates; the record \<open>prims\<close> holds them, each keyed function taking
  the key first, and \<open>prims_ok\<close> states what their documentation promises: block decryption inverts
  block encryption, sizes are fixed, and a key stream does not depend on the data.  The main result is
  that \<open>decrypt_with\<close> inverts \<open>encrypt_with\<close> on every message of at least one block.
\<close>

record prims =
  aes_enc :: "bytes \<Rightarrow> bytes \<Rightarrow> bytes"
  aes_dec :: "bytes \<Rightarrow> bytes \<Rightarrow> bytes"
  cam_enc :: "bytes \<Rightarrow> bytes \<Rightarrow> bytes"
  cam_dec :: "bytes \<Rightarrow> bytes \<Rightarrow> bytes"
  tdes_enc :: "bytes \<Rightarrow> bytes \<Rightarrow> bytes"
  tdes_dec :: "bytes \<Rightarrow> bytes \<Rightarrow> bytes"
  rc4_stream :: "bytes \<Rightarrow> nat \<Rightarrow> bytes"
  hm_sha1 :: "bytes \<Rightarrow> bytes \<Rightarrow> bytes"
  hm_sha256 :: "bytes \<Rightarrow> bytes \<Rightarrow> bytes"
  hm_sha384 :: "bytes \<Rightarrow> bytes \<Rightarrow> bytes"
  hm_md5 :: "bytes \<Rightarrow> bytes \<Rightarrow> bytes"
  cam_cmac :: "bytes \<Rightarrow> bytes \<Rightarrow> bytes"
  md4_hash :: "bytes \<Rightarrow> bytes"
  md5_hash :: "bytes \<Rightarrow> bytes"
  sha1_hash :: "bytes \<Rightarrow> bytes"
  sha256_hash :: "bytes \<Rightarrow> bytes"
  pbkdf2_sha1 :: "bytes \<Rightarrow> bytes \<Rightarrow> u32 \<Rightarrow> nat \<Rightarrow> bytes"
  pbkdf2_sha256 :: "bytes \<Rightarrow> bytes \<Rightarrow> u32 \<Rightarrow> nat \<Rightarrow> bytes"
  pbkdf2_sha384 :: "bytes \<Rightarrow> bytes \<Rightarrow> u32 \<Rightarrow> nat \<Rightarrow> bytes"

definition block_ok :: "nat \<Rightarrow> (bytes \<Rightarrow> bytes) \<Rightarrow> (bytes \<Rightarrow> bytes) \<Rightarrow> bool" where
  "block_ok n e d \<longleftrightarrow>
     (\<forall>b. length b = n \<longrightarrow> length (e b) = n \<and> length (d b) = n \<and> d (e b) = b)"

definition prims_ok :: "prims \<Rightarrow> bool" where
  "prims_ok P \<longleftrightarrow>
     (\<forall>k. length k = 16 \<or> length k = 32 \<longrightarrow> block_ok 16 (aes_enc P k) (aes_dec P k)) \<and>
     (\<forall>k. length k = 16 \<or> length k = 32 \<longrightarrow> block_ok 16 (cam_enc P k) (cam_dec P k)) \<and>
     (\<forall>k. length k = 24 \<longrightarrow> block_ok 8 (tdes_enc P k) (tdes_dec P k)) \<and>
     (\<forall>k n. length (rc4_stream P k n) = n) \<and>
     (\<forall>k m. length (hm_sha1 P k m) = 20) \<and> (\<forall>k m. length (hm_sha256 P k m) = 32) \<and>
     (\<forall>k m. length (hm_sha384 P k m) = 48) \<and> (\<forall>k m. length (hm_md5 P k m) = 16) \<and>
     (\<forall>k m. length (cam_cmac P k m) = 16) \<and>
     (\<forall>m. length (md4_hash P m) = 16) \<and> (\<forall>m. length (md5_hash P m) = 16) \<and>
     (\<forall>m. length (sha1_hash P m) = 20) \<and> (\<forall>m. length (sha256_hash P m) = 32) \<and>
     (\<forall>p s i n. length (pbkdf2_sha1 P p s i n) = n) \<and>
     (\<forall>p s i n. length (pbkdf2_sha256 P p s i n) = n) \<and>
     (\<forall>p s i n. length (pbkdf2_sha384 P p s i n) = n)"

abbreviation (input) BLOCK :: nat where "BLOCK \<equiv> 16"

text \<open>\<open>xor_in_place\<close> on arrays of the same size; \<open>zero_fill n b\<close> is a zeroed array with \<open>b\<close> copied to its start.\<close>

definition xor_bytes :: "bytes \<Rightarrow> bytes \<Rightarrow> bytes" where
  "xor_bytes block msk = map2 (XOR) block msk"

definition zero_fill :: "nat \<Rightarrow> bytes \<Rightarrow> bytes" where
  "zero_fill n b = b @ replicate (n - length b) 0"

definition div_ceil :: "nat \<Rightarrow> nat \<Rightarrow> nat" where
  "div_ceil a b = (a + b - 1) div b"

subsection \<open>Encryption\<close>

text \<open>The loop over the full blocks before the last two: the output and the block to chain with.\<close>

fun cts_enc_prefix :: "(bytes \<Rightarrow> bytes) \<Rightarrow> bytes \<Rightarrow> nat \<Rightarrow> bytes \<Rightarrow> bytes \<times> bytes" where
  "cts_enc_prefix e prev 0 pt = ([], prev)"
| "cts_enc_prefix e prev (Suc k) pt =
     (let block = e (xor_bytes (take BLOCK pt) prev);
          (out, prev') = cts_enc_prefix e block k (drop BLOCK pt)
      in (block @ out, prev'))"

definition encrypt_with :: "(bytes \<Rightarrow> bytes) \<Rightarrow> bytes \<Rightarrow> bytes \<Rightarrow> crypto_error + bytes" where
  "encrypt_with e iv pt =
     (if pt = [] then Inl CiphertextTooShort
      else
        let nblocks = div_ceil (length pt) BLOCK in
        if nblocks = 1 then Inr (take (length pt) (e (zero_fill BLOCK pt)))
        else
          let (out, prev) = cts_enc_prefix e iv (nblocks - 2) pt;
              full_prefix = (nblocks - 2) * BLOCK;
              take_n2 = min (length pt - full_prefix) BLOCK;
              block_n2 = e (xor_bytes (zero_fill BLOCK (take take_n2 (drop full_prefix pt))) prev);
              n1_off = full_prefix + BLOCK;
              block_n1 = e (xor_bytes (zero_fill BLOCK (if n1_off < length pt then drop n1_off pt else []))
                              block_n2);
              last_len = length pt - (nblocks - 1) * BLOCK
          in Inr (out @ block_n1 @ take last_len block_n2))"

subsection \<open>Decryption\<close>

fun cts_dec_prefix :: "(bytes \<Rightarrow> bytes) \<Rightarrow> bytes \<Rightarrow> nat \<Rightarrow> bytes \<Rightarrow> bytes \<times> bytes" where
  "cts_dec_prefix d prev 0 ct = ([], prev)"
| "cts_dec_prefix d prev (Suc k) ct =
     (let ccopy = take BLOCK ct;
          (out, prev') = cts_dec_prefix d ccopy k (drop BLOCK ct)
      in (xor_bytes (d ccopy) prev @ out, prev'))"

definition decrypt_with :: "(bytes \<Rightarrow> bytes) \<Rightarrow> bytes \<Rightarrow> bytes \<Rightarrow> crypto_error + bytes" where
  "decrypt_with d iv ct =
     (if ct = [] then Inl CiphertextTooShort
      else
        let nblocks = div_ceil (length ct) BLOCK in
        if nblocks = 1 then Inr (take (length ct) (d (zero_fill BLOCK ct)))
        else
          let last_len = length ct - (nblocks - 1) * BLOCK;
              (out, prev) = cts_dec_prefix d iv (nblocks - 2) ct;
              full_prefix = (nblocks - 2) * BLOCK;
              block_n2 = take BLOCK (drop full_prefix ct);
              block_n1 = zero_fill BLOCK (drop (full_prefix + BLOCK) ct);
              pn = xor_bytes (d block_n2) block_n1;
              pn1 = xor_bytes (d (take last_len block_n1 @ drop last_len pn)) prev
          in Inr (out @ pn1 @ take last_len pn))"

subsection \<open>The keyed ciphers\<close>

definition cts_encrypt :: "prims \<Rightarrow> bytes \<Rightarrow> bytes \<Rightarrow> bytes \<Rightarrow> crypto_error + bytes" where
  "cts_encrypt P key iv pt =
     (if length key = 16 \<or> length key = 32 then encrypt_with (aes_enc P key) iv pt
      else Inl InvalidKeyLength)"

definition cts_decrypt :: "prims \<Rightarrow> bytes \<Rightarrow> bytes \<Rightarrow> bytes \<Rightarrow> crypto_error + bytes" where
  "cts_decrypt P key iv ct =
     (if length key = 16 \<or> length key = 32 then decrypt_with (aes_dec P key) iv ct
      else Inl InvalidKeyLength)"

definition encrypt_block :: "prims \<Rightarrow> bytes \<Rightarrow> bytes \<Rightarrow> crypto_error + bytes" where
  "encrypt_block P key block =
     (if length key = 16 \<or> length key = 32 then Inr (aes_enc P key block) else Inl InvalidKeyLength)"

definition camellia_cts_encrypt :: "prims \<Rightarrow> bytes \<Rightarrow> bytes \<Rightarrow> bytes \<Rightarrow> crypto_error + bytes" where
  "camellia_cts_encrypt P key iv pt =
     (if length key = 16 \<or> length key = 32 then encrypt_with (cam_enc P key) iv pt
      else Inl InvalidKeyLength)"

definition camellia_cts_decrypt :: "prims \<Rightarrow> bytes \<Rightarrow> bytes \<Rightarrow> bytes \<Rightarrow> crypto_error + bytes" where
  "camellia_cts_decrypt P key iv ct =
     (if length key = 16 \<or> length key = 32 then decrypt_with (cam_dec P key) iv ct
      else Inl InvalidKeyLength)"

subsection \<open>Round trip\<close>

lemma length_xor_bytes [simp]: "length (xor_bytes a b) = min (length a) (length b)"
  by (simp add: xor_bytes_def)

lemma nth_xor_bytes: "i < length a \<Longrightarrow> i < length b \<Longrightarrow> xor_bytes a b ! i = a ! i XOR b ! i"
  by (simp add: xor_bytes_def)

lemma length_zero_fill [simp]: "length b \<le> n \<Longrightarrow> length (zero_fill n b) = n"
  by (simp add: zero_fill_def)

lemma zero_fill_full [simp]: "length b = n \<Longrightarrow> zero_fill n b = b"
  by (simp add: zero_fill_def)

lemma xor_xor_bytes [simp]: "length a = length b \<Longrightarrow> xor_bytes (xor_bytes a b) b = a"
  by (rule nth_equalityI) (simp_all add: nth_xor_bytes xor.assoc)

lemma block_okD:
  assumes "block_ok n e d" and "length b = n"
  shows "length (e b) = n" "length (d b) = n" "d (e b) = b"
  using assms by (simp_all add: block_ok_def)

lemma cts_prefix_inverse:
  assumes "block_ok 16 e d" and "length prev = 16" and "length A = 16 * k"
  shows "\<exists>out prev'. cts_enc_prefix e prev k (A @ R) = (out, prev') \<and> length out = 16 * k \<and>
    length prev' = 16 \<and> (\<forall>R'. cts_dec_prefix d prev k (out @ R') = (A, prev'))"
  using assms(2,3)
proof (induction k arbitrary: prev A)
  case 0
  then show ?case by simp
next
  case (Suc k)
  let ?b = "e (xor_bytes (take 16 A) prev)"
  have b: "length ?b = 16" "d ?b = xor_bytes (take 16 A) prev"
    using Suc.prems by (auto intro!: block_okD [OF assms(1)])
  obtain out prev' where r: "cts_enc_prefix e ?b k (drop 16 A @ R) = (out, prev')"
    "length out = 16 * k" "length prev' = 16"
    "\<And>R'. cts_dec_prefix d ?b k (out @ R') = (drop 16 A, prev')"
    using Suc.IH [OF b(1), of "drop 16 A"] Suc.prems by auto
  have "cts_enc_prefix e prev (Suc k) (A @ R) = (?b @ out, prev')"
    using Suc.prems r by (simp add: Let_def)
  moreover have "cts_dec_prefix d prev (Suc k) ((?b @ out) @ R') = (A, prev')" for R'
    using Suc.prems r b by (simp add: Let_def)
  ultimately show ?case
    using b r by (intro exI [of _ "?b @ out"] exI [of _ prev']) simp
qed

lemma stolen_tail:
  assumes "length b2 = 16" and "length C \<le> 16"
  shows "take (length C) (xor_bytes (xor_bytes (zero_fill 16 C) b2) (zero_fill 16 (take (length C) b2))) = C"
    and "take (length C) (zero_fill 16 (take (length C) b2)) @
      drop (length C) (xor_bytes (xor_bytes (zero_fill 16 C) b2) (zero_fill 16 (take (length C) b2))) = b2"
  using assms
  by (auto intro!: nth_equalityI simp: nth_xor_bytes zero_fill_def nth_append xor.assoc)

lemma div_ceil_parts:
  assumes "length A = 16 * k" and "length B = 16" and "C \<noteq> []" and "length C \<le> 16"
  shows "div_ceil (length (A @ B @ C)) 16 = k + 2"
proof -
  obtain c where c: "length C = c + 1" "c \<le> 15"
    using assms(3,4) by (cases "length C") auto
  have "(16 * k + 16 + (c + 1) + 16 - 1) div 16 = (16 * (k + 2) + c) div 16"
    by (simp add: algebra_simps)
  also have "\<dots> = k + 2"
    using c(2) by simp
  finally show ?thesis
    using assms c by (simp add: div_ceil_def algebra_simps)
qed

lemma encrypt_with_split:
  assumes "length A = 16 * k" and "length B = 16" and "C \<noteq> []" and "length C \<le> 16"
    and "cts_enc_prefix e iv k (A @ B @ C) = (out, prev)"
  shows "encrypt_with e iv (A @ B @ C) =
    (let b2 = e (xor_bytes B prev)
     in Inr (out @ e (xor_bytes (zero_fill 16 C) b2) @ take (length C) b2))"
proof -
  have n: "div_ceil (length (A @ B @ C)) 16 = k + 2"
    using assms(1-4) by (rule div_ceil_parts)
  show ?thesis
    using assms unfolding encrypt_with_def n by (simp add: Let_def)
qed

lemma decrypt_with_split:
  assumes "length A = 16 * k" and "length B = 16" and "C \<noteq> []" and "length C \<le> 16"
    and "cts_dec_prefix d iv k (A @ B @ C) = (out, prev)"
  shows "decrypt_with d iv (A @ B @ C) =
    (let pn = xor_bytes (d B) (zero_fill 16 C)
     in Inr (out @ xor_bytes (d (take (length C) (zero_fill 16 C) @ drop (length C) pn)) prev
              @ take (length C) pn))"
proof -
  have n: "div_ceil (length (A @ B @ C)) 16 = k + 2"
    using assms(1-4) by (rule div_ceil_parts)
  show ?thesis
    using assms unfolding decrypt_with_def n by (simp add: Let_def)
qed

lemma three_parts:
  assumes "16 < length (pt :: 'a list)"
  obtains A B C k where "pt = A @ B @ C" "length A = 16 * k" "length B = 16" "C \<noteq> []" "length C \<le> 16"
proof
  let ?k = "(length pt - 17) div 16"
  show "pt = take (16 * ?k) pt @ take 16 (drop (16 * ?k) pt) @ drop (16 * ?k + 16) pt"
    by (metis append_take_drop_id drop_drop add.commute)
  have k: "16 * ?k \<le> length pt - 17" "length pt - 17 < 16 * ?k + 16"
    by simp_all
  show "length (take (16 * ?k) pt) = 16 * ?k" "length (take 16 (drop (16 * ?k) pt)) = 16"
    using k assms by auto
  show "drop (16 * ?k + 16) pt \<noteq> []" "length (drop (16 * ?k + 16) pt) \<le> 16"
    using k assms by auto
qed

lemma cts_inverse:
  assumes "block_ok 16 e d" and "length iv = 16" and "16 \<le> length pt"
  obtains ct where "encrypt_with e iv pt = Inr ct" "length ct = length pt" "decrypt_with d iv ct = Inr pt"
proof (cases "length pt = 16")
  case True
  then have "length (e pt) = 16" "d (e pt) = pt"
    using block_okD [OF assms(1)] by auto
  moreover have "div_ceil 16 16 = 1"
    by (simp add: div_ceil_def)
  ultimately show ?thesis
    using True by (intro that [of "e pt"]) (auto simp: encrypt_with_def decrypt_with_def)
next
  case False
  with assms(3) obtain A B C k where pt: "pt = A @ B @ C" "length A = 16 * k" "length B = 16"
    "C \<noteq> []" "length C \<le> 16"
    by (metis three_parts le_neq_implies_less)
  obtain out prev where pre: "cts_enc_prefix e iv k (A @ B @ C) = (out, prev)" "length out = 16 * k"
    "length prev = 16" "\<And>R'. cts_dec_prefix d iv k (out @ R') = (A, prev)"
    using cts_prefix_inverse [OF assms(1,2) pt(2)] by blast
  define b2 where "b2 = e (xor_bytes B prev)"
  define b1 where "b1 = e (xor_bytes (zero_fill 16 C) b2)"
  have b2: "length b2 = 16" "d b2 = xor_bytes B prev"
    using pt pre unfolding b2_def by (auto intro!: block_okD [OF assms(1)])
  have b1: "length b1 = 16" "d b1 = xor_bytes (zero_fill 16 C) b2"
    using pt b2(1) unfolding b1_def by (auto intro!: block_okD [OF assms(1)])
  have "b2 \<noteq> []"
    using b2(1) by auto
  have "encrypt_with e iv pt = Inr (out @ b1 @ take (length C) b2)"
    using encrypt_with_split [OF pt(2,3,4,5) pre(1)] pt(1) by (simp add: b2_def b1_def Let_def)
  moreover have "decrypt_with d iv (out @ b1 @ take (length C) b2) = Inr pt"
    using decrypt_with_split [OF pre(2) b1(1) _ _ pre(4), of "take (length C) b2"] pt b2 b1 pre(3)
      stolen_tail [OF b2(1) pt(5)] \<open>b2 \<noteq> []\<close>
    by (simp add: Let_def)
  ultimately show ?thesis
    using pt b1 b2 pre by (intro that) auto
qed

lemma encrypt_with_length:
  assumes "block_ok 16 e d" and "length iv = 16" and "16 \<le> length pt" and "encrypt_with e iv pt = Inr ct"
  shows "length ct = length pt" and "decrypt_with d iv ct = Inr pt"
  using cts_inverse [OF assms(1-3)] assms(4) by auto

end
