(* ===== verification/Nfold.thy ===== *)
theory Nfold
  imports Etypes
begin

text \<open>
  The n-fold function of RFC 3961 (\<open>crates/krb5-crypto/src/nfold.rs\<close>): \<open>nfold\<close> is the loop of the code,
  which reads the octets of the rotated copies straight from the input and adds them with an
  end-around carry; \<open>nfold_bits\<close> and \<open>nfold_sum\<close> are the definition of the RFC, the concatenation of
  the copies rotated by multiples of 13 bits, cut into blocks that are added.  The lemmas show that
  both agree in the arithmetic of the ones' complement.  The running octet sum is a \<open>nat\<close>: it never
  exceeds 511.
\<close>

fun nfold_gcd :: "nat \<Rightarrow> nat \<Rightarrow> nat" where
  "nfold_gcd a b = (if b = 0 then a else nfold_gcd b (a mod b))"

definition nfold_msbit :: "nat \<Rightarrow> nat \<Rightarrow> nat" where
  "nfold_msbit inlen i =
     (let inbits_bits = inlen * 8 in
      ((inbits_bits - 1) + (inbits_bits + 13) * (i div inlen) + (inlen - i mod inlen) * 8)
        mod inbits_bits)"

definition nfold_octet :: "bytes \<Rightarrow> nat \<Rightarrow> nat" where
  "nfold_octet input i =
     (let inlen = length input;
          msbit = nfold_msbit inlen i;
          hi = input ! (((inlen - 1) - msbit div 8) mod inlen);
          lo = input ! ((inlen - msbit div 8) mod inlen)
      in unat (drop_bit (msbit mod 8 + 1) (push_bit 8 (ucast hi) OR ucast lo :: u16) AND 0xff))"

text \<open>The loop \<open>for i in (0..lcm).rev()\<close>, and the one that adds the last carry.\<close>

fun nfold_loop :: "bytes \<Rightarrow> nat \<Rightarrow> nat \<Rightarrow> bytes \<Rightarrow> nat \<Rightarrow> bytes \<times> nat" where
  "nfold_loop input n 0 out byte = (out, byte)"
| "nfold_loop input n (Suc i) out byte =
     (let byte = byte + nfold_octet input i + unat (out ! (i mod n))
      in nfold_loop input n i (out[i mod n := of_nat (byte mod 256)]) (byte div 256))"

fun nfold_carry :: "nat \<Rightarrow> bytes \<Rightarrow> nat \<Rightarrow> bytes" where
  "nfold_carry 0 out byte = out"
| "nfold_carry (Suc i) out byte =
     (let byte = byte + unat (out ! i)
      in nfold_carry i (out[i := of_nat (byte mod 256)]) (byte div 256))"

definition nfold :: "bytes \<Rightarrow> nat \<Rightarrow> crypto_error + bytes" where
  "nfold input out_len =
     (if input = [] \<or> out_len = 0 then Inl InvalidParams
      else
        let a = nfold_gcd out_len (length input);
            lcm = out_len * length input div a;
            (out, byte) = nfold_loop input out_len lcm (replicate out_len 0) 0
        in Inr (if byte \<noteq> 0 then nfold_carry out_len out byte else out))"

subsection \<open>The definition of RFC 3961\<close>

definition byte_bits :: "u8 \<Rightarrow> bool list" where
  "byte_bits b = map (bit b) (rev [0..<8])"

definition bits_of :: "bytes \<Rightarrow> bool list" where
  "bits_of bs = concat (map byte_bits bs)"

definition rotate_right :: "nat \<Rightarrow> 'a list \<Rightarrow> 'a list" where
  "rotate_right r xs = rotate (length xs - r mod length xs) xs"

definition nfold_bits :: "bytes \<Rightarrow> nat \<Rightarrow> bool list" where
  "nfold_bits input n =
     concat (map (\<lambda>j. rotate_right (13 * j) (bits_of input)) [0..<lcm n (length input) div length input])"

definition bits_val :: "bool list \<Rightarrow> nat" where
  "bits_val bs = foldl (\<lambda>a b. 2 * a + of_bool b) 0 bs"

definition nfold_sum :: "bytes \<Rightarrow> nat \<Rightarrow> nat" where
  "nfold_sum input n =
     (\<Sum>k < lcm n (length input) div n. bits_val (take (8 * n) (drop (8 * n * k) (nfold_bits input n))))"

subsection \<open>Bits\<close>

lemma length_byte_bits [simp]: "length (byte_bits b) = 8"
  by (simp add: byte_bits_def)

lemma nth_byte_bits: "k < 8 \<Longrightarrow> byte_bits b ! k = bit b (7 - k)"
  by (simp add: byte_bits_def rev_nth)

lemma bits_val_append: "bits_val (xs @ ys) = bits_val xs * 2 ^ length ys + bits_val ys"
proof (induction ys rule: rev_induct)
  case Nil
  then show ?case by (simp add: bits_val_def)
next
  case (snoc y ys)
  then show ?case by (simp add: bits_val_def algebra_simps)
qed

lemma bits_val_byte: "bits_val (byte_bits b) = unat b"
proof -
  have "unat b = take_bit 8 (unat b)"
    using unat_less_pow [of b] by (simp add: take_bit_nat_eq_self)
  also have "\<dots> = horner_sum of_bool 2 (map (bit (unat b)) [0..<8])"
    by (simp add: horner_sum_bit_eq_take_bit)
  also have "\<dots> = horner_sum of_bool 2 (map (bit b) [0..<8])"
    by (rule arg_cong [of _ _ "horner_sum of_bool 2"]) (simp add: bit_unsigned_iff)
  also have "\<dots> = bits_val (byte_bits b)"
    by (simp add: upt_rec bits_val_def byte_bits_def algebra_simps)
  finally show ?thesis by simp
qed

lemma length_concat_map: "(\<And>x. x \<in> set xs \<Longrightarrow> length (f x) = l) \<Longrightarrow> length (concat (map f xs)) = length xs * l"
  by (induction xs) auto

lemma nth_concat_map:
  "(\<And>x. x \<in> set xs \<Longrightarrow> length (f x) = l) \<Longrightarrow> j < length xs \<Longrightarrow> t < l \<Longrightarrow>
   concat (map f xs) ! (j * l + t) = f (xs ! j) ! t"
proof (induction xs arbitrary: j)
  case Nil
  then show ?case by simp
next
  case (Cons x xs)
  then show ?case
    by (cases j) (auto simp: nth_append algebra_simps)
qed

lemma length_bits_of [simp]: "length (bits_of bs) = 8 * length bs"
  by (simp add: bits_of_def length_concat_map [of _ _ 8])

lemma nth_bits_of:
  assumes "p < 8 * length bs"
  shows "bits_of bs ! p = bit (bs ! (p div 8)) (7 - p mod 8)"
proof -
  have "p div 8 < length bs"
    using assms by (simp add: less_mult_imp_div_less mult.commute)
  then have "bits_of bs ! (p div 8 * 8 + p mod 8) = byte_bits (bs ! (p div 8)) ! (p mod 8)"
    unfolding bits_of_def by (intro nth_concat_map) simp_all
  then show ?thesis
    by (simp add: nth_byte_bits)
qed

lemma nth_rotate_right:
  assumes "k < length xs"
  shows "rotate_right r xs ! k = xs ! ((k + (length xs - r mod length xs)) mod length xs)"
  using assms by (simp add: rotate_right_def nth_rotate add.commute)

lemma length_rotate_right [simp]: "length (rotate_right r xs) = length xs"
  by (simp add: rotate_right_def)

subsection \<open>The octets the loop reads\<close>

lemma add_up_to_multiple:
  assumes "(x + y + 1) mod l = 0" and "0 < (l :: nat)"
  shows "x mod l + y mod l + 1 = l"
proof -
  have "(x mod l + y mod l + 1) mod l = 0"
    using assms(1) by (metis mod_add_left_eq mod_add_right_eq)
  then obtain q where q: "x mod l + y mod l + 1 = l * q"
    by (metis mod_eq_0_iff_dvd dvdE)
  have "0 < l * q" "l * q < l * 2"
    using q mod_less_divisor [OF assms(2), of x] mod_less_divisor [OF assms(2), of y] by linarith+
  then have "q = 1"
    by auto
  with q show ?thesis by simp
qed

lemma nfold_msbit_position:
  assumes "0 < inlen"
  shows "nfold_msbit inlen i +
    (8 * (i mod inlen) + (8 * inlen - 13 * (i div inlen) mod (8 * inlen))) mod (8 * inlen) + 1 = 8 * inlen"
proof -
  let ?l = "8 * inlen"
  define j t where "j = i div inlen" and "t = i mod inlen"
  define r q where "r = 13 * j mod ?l" and "q = 13 * j div ?l"
  have j: "13 * j = ?l * q + r"
    unfolding q_def r_def by simp
  have "r < ?l" and "t \<le> inlen"
    using assms by (simp_all add: r_def t_def less_imp_le)
  then obtain w v where w: "inlen = t + w" and v: "?l = r + v"
    using le_Suc_ex less_imp_le by meson
  have "(inlen * 8 - 1) + (inlen * 8 + 13) * j + (inlen - t) * 8 + (8 * t + (?l - r)) + 1
      = ?l + (?l * j + 13 * j) + (8 * w + 8 * t) + v"
    using v w assms by (cases "t + w") (simp_all add: algebra_simps)
  also have "\<dots> = ?l * (j + q + 3)"
    using v w j by (simp add: algebra_simps)
  finally have "((inlen * 8 - 1) + (inlen * 8 + 13) * j + (inlen - t) * 8 + (8 * t + (?l - r)) + 1) mod ?l = 0"
    by simp
  from add_up_to_multiple [OF this] assms show ?thesis
    by (simp add: nfold_msbit_def Let_def r_def mult.commute j_def t_def)
qed

lemma bit_window:
  fixes hi lo :: u8
  assumes "b < 8" and "s < 8"
  shows "bit (ucast (drop_bit (s + 1) (push_bit 8 (ucast hi) OR ucast lo :: u16)) :: u8) (7 - b) =
    (if b \<le> s then bit hi (s - b) else bit lo (8 + s - b))"
proof -
  have "\<not> bit lo n" if "8 \<le> n" for n
    using that bit_imp_le_length [of lo n] by auto
  moreover have "Suc (s + (7 - b)) = 8 + s - b"
    using assms by simp
  ultimately show ?thesis
    using assms by (cases "b \<le> s") (auto simp: bit_simps)
qed

lemma octet_of_window: "unat ((w :: u16) AND 0xff) = unat (ucast w :: u8)"
proof -
  have "(0xff :: u16) = mask 8"
    by (simp add: mask_eq_exp_minus_1)
  then have "w AND 0xff = take_bit 8 w"
    by (simp only: take_bit_eq_mask)
  then have "unat (w AND 0xff) = take_bit 8 (unat w)"
    by (simp only: unsigned_take_bit_eq)
  also have "\<dots> = unat (ucast w :: u8)"
    by (simp add: unsigned_ucast_eq)
  finally show ?thesis .
qed

lemma window_bits:
  assumes "input \<noteq> []" and "msbit + p + 1 = 8 * length input" and "b < 8"
  shows "bits_of input ! ((p + b) mod (8 * length input)) =
    (if b \<le> msbit mod 8
     then bit (input ! (((length input - 1) - msbit div 8) mod length input)) (msbit mod 8 - b)
     else bit (input ! ((length input - msbit div 8) mod length input)) (8 + msbit mod 8 - b))"
proof -
  define n q s where "n = length input" and "q = msbit div 8" and "s = msbit mod 8"
  have n: "0 < n"
    using assms(1) by (simp add: n_def)
  have m: "msbit = 8 * q + s" "s < 8"
    by (simp_all add: q_def s_def)
  have q: "q < n"
    using assms(2) m by (simp add: n_def)
  then obtain u where u: "n = q + 1 + u"
    by (metis Suc_eq_plus1 add.commute add_Suc_right less_iff_Suc_add)
  have p: "p = 8 * u + (7 - s)"
    using assms(2) m u by (simp add: n_def [symmetric])
  have hi: "(n - 1 - q) mod n = u"
    using u by simp
  show ?thesis
  proof (cases "b \<le> s")
    case True
    define c where "c = 7 - s + b"
    have c: "p + b = 8 * u + c" "c < 8" "7 - c = s - b"
      using p m(2) True by (auto simp: c_def)
    then have "p + b < 8 * n"
      using u by simp
    then have "(p + b) mod (8 * n) = 8 * u + c"
      using c(1) by simp
    then show ?thesis
      using True hi c u nth_bits_of [of "8 * u + c" input]
      by (simp add: n_def [symmetric] q_def [symmetric] s_def [symmetric])
  next
    case False
    define c where "c = b - s - 1"
    have c: "p + b = 8 * (u + 1) + c" "c < 8" "7 - c = 8 + s - b"
      using p m(2) assms(3) False by (auto simp: c_def)
    have d: "(p + b) mod (8 * n) = 8 * ((u + 1) mod n) + c"
    proof (cases "q = 0")
      case True
      then show ?thesis
        using u c by simp
    next
      case False
      then have "u + 1 < n"
        using u by simp
      then show ?thesis
        using c by simp
    qed
    have lo: "(n - q) mod n = (u + 1) mod n"
      using u by simp
    have "(u + 1) mod n < n"
      using n by simp
    then have "8 * ((u + 1) mod n) + c < 8 * length input"
      using c(2) by (simp add: n_def)
    then show ?thesis
      using False d lo c nth_bits_of [of "8 * ((u + 1) mod n) + c" input]
      by (simp add: n_def [symmetric] q_def [symmetric] s_def [symmetric])
  qed
qed

definition copies :: "bytes \<Rightarrow> nat \<Rightarrow> bool list" where
  "copies input m = concat (map (\<lambda>j. rotate_right (13 * j) (bits_of input)) [0..<m])"

lemma length_copies [simp]: "length (copies input m) = m * (8 * length input)"
  by (simp add: copies_def length_concat_map [of _ _ "8 * length input"])

lemma nth_copies:
  assumes "input \<noteq> []" and "i < m * length input" and "b < 8"
  shows "copies input m ! (8 * i + b) =
    bits_of input ! ((8 * (i mod length input) +
      (8 * length input - 13 * (i div length input) mod (8 * length input)) + b) mod (8 * length input))"
proof -
  let ?n = "length input" and ?j = "i div length input" and ?t = "i mod length input"
  have n: "0 < ?n"
    using assms(1) by simp
  then have "?j < m" "?t < ?n"
    using assms(2) by (simp_all add: less_mult_imp_div_less)
  then have t: "8 * ?t + b < 8 * ?n"
    using assms(3) by simp
  have "8 * (?j * ?n + ?t) + b = ?j * (8 * ?n) + (8 * ?t + b)"
    by (simp only: distrib_left mult.left_commute add.assoc)
  then have "8 * i + b = ?j * (8 * ?n) + (8 * ?t + b)"
    by (simp only: div_mult_mod_eq)
  moreover have "copies input m ! (?j * (8 * ?n) + (8 * ?t + b)) =
      rotate_right (13 * ([0..<m] ! ?j)) (bits_of input) ! (8 * ?t + b)"
    unfolding copies_def using \<open>?j < m\<close> t by (intro nth_concat_map) simp_all
  ultimately have "copies input m ! (8 * i + b) = rotate_right (13 * ?j) (bits_of input) ! (8 * ?t + b)"
    using \<open>?j < m\<close> by (simp add: add.assoc)
  also have "\<dots> = bits_of input ! ((8 * ?t + b + (8 * ?n - 13 * ?j mod (8 * ?n))) mod (8 * ?n))"
    using t by (simp add: nth_rotate_right)
  also have "8 * ?t + b + (8 * ?n - 13 * ?j mod (8 * ?n)) = 8 * ?t + (8 * ?n - 13 * ?j mod (8 * ?n)) + b"
    by simp
  finally show ?thesis .
qed

lemma nfold_octet_eq:
  assumes "input \<noteq> []" and "i < m * length input"
  shows "nfold_octet input i = bits_val (take 8 (drop (8 * i) (copies input m)))"
proof -
  let ?n = "length input"
  define p where "p = (8 * (i mod ?n) + (8 * ?n - 13 * (i div ?n) mod (8 * ?n))) mod (8 * ?n)"
  define ms where "ms = nfold_msbit ?n i"
  define w :: u8 where "w = ucast (drop_bit (ms mod 8 + 1)
    (push_bit 8 (ucast (input ! (((?n - 1) - ms div 8) mod ?n))) OR ucast (input ! ((?n - ms div 8) mod ?n)) :: u16))"
  have pos: "ms + p + 1 = 8 * ?n"
    using nfold_msbit_position [of ?n i] assms(1) by (simp add: ms_def p_def)
  have len: "8 * i + 8 \<le> length (copies input m)"
    using assms(2) by (simp add: algebra_simps)
  have "take 8 (drop (8 * i) (copies input m)) = byte_bits w"
  proof (rule nth_equalityI)
    show "length (take 8 (drop (8 * i) (copies input m))) = length (byte_bits w)"
      using len by simp
    fix b
    assume "b < length (take 8 (drop (8 * i) (copies input m)))"
    then have b: "b < 8"
      by simp
    have "take 8 (drop (8 * i) (copies input m)) ! b = copies input m ! (8 * i + b)"
      using b len by simp
    also have "\<dots> = bits_of input ! ((p + b) mod (8 * ?n))"
      using nth_copies [OF assms b] by (simp add: p_def mod_add_left_eq)
    also have "\<dots> = bit w (7 - b)"
      unfolding window_bits [OF assms(1) pos b] w_def by (rule bit_window [symmetric]) (use b in auto)
    finally show "take 8 (drop (8 * i) (copies input m)) ! b = byte_bits w ! b"
      using b by (simp add: nth_byte_bits)
  qed
  then show ?thesis
    by (simp add: bits_val_byte nfold_octet_def Let_def ms_def [symmetric] octet_of_window w_def)
qed

subsection \<open>Addition with an end-around carry\<close>

text \<open>The number with the base-256 digits \<open>f 0 \<dots> f (n - 1)\<close>, most significant first.\<close>

fun digits_val :: "(nat \<Rightarrow> nat) \<Rightarrow> nat \<Rightarrow> nat" where
  "digits_val f 0 = 0"
| "digits_val f (Suc n) = digits_val f n * 256 + f n"

lemma digits_val_cong: "(\<And>r. r < n \<Longrightarrow> f r = g r) \<Longrightarrow> digits_val f n = digits_val g n"
  by (induction n) auto

lemma bits_val_octets:
  "8 * n \<le> length xs \<Longrightarrow> bits_val (take (8 * n) xs) = digits_val (\<lambda>r. bits_val (take 8 (drop (8 * r) xs))) n"
proof (induction n)
  case 0
  then show ?case by (simp add: bits_val_def)
next
  case (Suc n)
  have "take (8 * Suc n) xs = take (8 * n) xs @ take 8 (drop (8 * n) xs)"
    by (simp add: take_add add.commute [of 8])
  with Suc show ?case
    by (simp add: bits_val_append)
qed

lemma be_val_take_Suc:
  "r < length out \<Longrightarrow> be_val (take (Suc r) out) = be_val (take r out) * 256 + unat (out ! r)"
  by (simp add: take_Suc_conv_app_nth)

lemma div_mod_256: "byte * 256 ^ r + v = x + y + b div 256 \<Longrightarrow>
  byte * 256 ^ Suc r + (v * 256 + b mod 256) = x * 256 + y * 256 + (b :: nat)"
proof -
  assume "byte * 256 ^ r + v = x + y + b div 256"
  then have "(byte * 256 ^ r + v) * 256 + b mod 256 = (x + y + b div 256) * 256 + b mod 256"
    by simp
  then show ?thesis
    by (simp add: algebra_simps)
qed

lemma nfold_loop_block:
  assumes "length out = n" and "r \<le> n"
  shows "\<exists>out' byte'. nfold_loop input n (k * n + r) out byte = nfold_loop input n (k * n) out' byte' \<and>
    length out' = n \<and> drop r out' = drop r out \<and>
    byte' * 256 ^ r + be_val (take r out') =
      be_val (take r out) + digits_val (\<lambda>r. nfold_octet input (k * n + r)) r + byte"
  using assms
proof (induction r arbitrary: out byte)
  case 0
  then show ?case by auto
next
  case (Suc r)
  define b where "b = byte + nfold_octet input (k * n + r) + unat (out ! r)"
  define out1 where "out1 = out[r := of_nat (b mod 256)]"
  have r: "(k * n + r) mod n = r" "length out1 = n" "r \<le> n" "r < length out"
    using Suc.prems by (simp_all add: out1_def)
  obtain out' byte' where ih: "nfold_loop input n (k * n + r) out1 (b div 256) = nfold_loop input n (k * n) out' byte'"
    "length out' = n" "drop r out' = drop r out1"
    "byte' * 256 ^ r + be_val (take r out') =
      be_val (take r out1) + digits_val (\<lambda>r. nfold_octet input (k * n + r)) r + b div 256"
    using Suc.IH [OF r(2,3)] by blast
  have "out' ! r = out1 ! r"
    using ih(2,3) r(2,4) Suc.prems by (metis hd_drop_conv_nth)
  then have digit: "unat (out' ! r) = b mod 256"
    using r(4) by (simp add: out1_def unat_of_nat_byte)
  have "nfold_loop input n (k * n + Suc r) out byte = nfold_loop input n (k * n) out' byte'"
    using ih(1) r(1) by (simp add: b_def out1_def)
  moreover have "drop (Suc r) out' = drop (Suc r) out"
    using ih(3) unfolding out1_def by (metis drop_Suc drop_update_cancel lessI tl_drop)
  moreover have "byte' * 256 ^ Suc r + be_val (take (Suc r) out') =
      be_val (take (Suc r) out) + digits_val (\<lambda>r. nfold_octet input (k * n + r)) (Suc r) + byte"
    using div_mod_256 [OF ih(4)] digit r ih(2) by (simp add: be_val_take_Suc b_def out1_def)
  ultimately show ?case
    using ih(2) by blast
qed

lemma digits_val_less: "(\<And>r. r < n \<Longrightarrow> f r < 256) \<Longrightarrow> digits_val f n < 256 ^ n"
proof (induction n)
  case 0
  then show ?case by simp
next
  case (Suc n)
  then have "digits_val f n + 1 \<le> 256 ^ n" "f n < 256"
    by (simp_all add: Suc_le_eq)
  then show ?case
    by simp
qed

lemma nfold_octet_less: "nfold_octet input i < 256"
  using unat_less_pow [where ?'a = 8] by (simp add: nfold_octet_def Let_def octet_of_window)

lemma end_around:
  assumes "byte' * N + out' = out + chunk + byte" and "byte + out < N" and "chunk < (N :: nat)" and "2 \<le> N"
    and "out' < N"
  shows "byte' + out' < N"
    and "(byte' + out') mod (N - 1) = (byte + out + chunk) mod (N - 1)"
    and "byte' + out' = 0 \<longleftrightarrow> byte + out + chunk = 0"
proof -
  have "byte' * N < 2 * N"
    using assms by linarith
  then have "byte' = 0 \<or> byte' = 1"
    by auto
  then show "byte' + out' < N"
    using assms by auto
  have "byte' * N + out' = byte' * (N - 1) + (byte' + out')"
    using assms(4) by (cases N) simp_all
  then show "(byte' + out') mod (N - 1) = (byte + out + chunk) mod (N - 1)"
    using assms(1) by (metis add.commute add.left_commute mod_mult_self3)
  show "byte' + out' = 0 \<longleftrightarrow> byte + out + chunk = 0"
    using assms(1,4) by auto
qed

definition chunk :: "bytes \<Rightarrow> nat \<Rightarrow> nat \<Rightarrow> nat" where
  "chunk input n k = digits_val (\<lambda>r. nfold_octet input (k * n + r)) n"

lemma nfold_loop_blocks:
  assumes "0 < n" and "length out = n" and "byte + be_val out < 256 ^ n"
  shows "\<exists>out' byte'. nfold_loop input n (k * n) out byte = (out', byte') \<and> length out' = n \<and>
    byte' + be_val out' < 256 ^ n \<and>
    (byte' + be_val out') mod (256 ^ n - 1) = (byte + be_val out + (\<Sum>j<k. chunk input n j)) mod (256 ^ n - 1) \<and>
    (byte' + be_val out' = 0 \<longleftrightarrow> byte + be_val out + (\<Sum>j<k. chunk input n j) = 0)"
  using assms(2,3)
proof (induction k arbitrary: out byte)
  case 0
  then show ?case by simp
next
  case (Suc k)
  have N: "2 \<le> (256 :: nat) ^ n"
    using self_le_power [of "256 :: nat" n] assms(1) by simp
  obtain out1 byte1 where b: "nfold_loop input n (k * n + n) out byte = nfold_loop input n (k * n) out1 byte1"
    "length out1 = n" "byte1 * 256 ^ n + be_val out1 = be_val out + chunk input n k + byte"
    using nfold_loop_block [OF Suc.prems(1) order_refl] Suc.prems(1) unfolding chunk_def by force
  have c: "chunk input n k < 256 ^ n"
    unfolding chunk_def by (rule digits_val_less) (rule nfold_octet_less)
  have "be_val out1 < 256 ^ n"
    using be_val_bound [of out1] b(2) by simp
  note e = end_around [OF b(3) Suc.prems(2) c N this]
  obtain out' byte' where ih: "nfold_loop input n (k * n) out1 byte1 = (out', byte')" "length out' = n"
    "byte' + be_val out' < 256 ^ n"
    "(byte' + be_val out') mod (256 ^ n - 1) = (byte1 + be_val out1 + (\<Sum>j<k. chunk input n j)) mod (256 ^ n - 1)"
    "byte' + be_val out' = 0 \<longleftrightarrow> byte1 + be_val out1 + (\<Sum>j<k. chunk input n j) = 0"
    using Suc.IH [OF b(2) e(1)] by (elim exE conjE) (rule that; assumption)
  have "(byte1 + be_val out1 + (\<Sum>j<k. chunk input n j)) mod (256 ^ n - 1) =
      (byte + be_val out + chunk input n k + (\<Sum>j<k. chunk input n j)) mod (256 ^ n - 1)"
    using e(2) by (rule mod_add_cong) simp
  moreover have "byte1 + be_val out1 + (\<Sum>j<k. chunk input n j) = 0 \<longleftrightarrow>
      byte + be_val out + chunk input n k + (\<Sum>j<k. chunk input n j) = 0"
    using e(3) by simp
  ultimately show ?case
    using b(1) ih by (simp add: algebra_simps)
qed

lemma nfold_carry_val:
  assumes "length out = n" and "r \<le> n"
  shows "length (nfold_carry r out byte) = n \<and> drop r (nfold_carry r out byte) = drop r out \<and>
    (\<exists>c. c * 256 ^ r + be_val (take r (nfold_carry r out byte)) = be_val (take r out) + byte)"
  using assms
proof (induction r arbitrary: out byte)
  case 0
  then show ?case by auto
next
  case (Suc r)
  define b where "b = byte + unat (out ! r)"
  define out1 where "out1 = out[r := of_nat (b mod 256)]"
  let ?o = "nfold_carry r out1 (b div 256)"
  have r: "length out1 = n" "r \<le> n" "r < length out"
    using Suc.prems by (simp_all add: out1_def)
  obtain c where ih: "length ?o = n" "drop r ?o = drop r out1"
    "c * 256 ^ r + be_val (take r ?o) = be_val (take r out1) + 0 + b div 256"
    using Suc.IH [OF r(1,2)] by auto
  have "?o ! r = out1 ! r"
    using ih(1,2) r(1,3) Suc.prems by (metis hd_drop_conv_nth)
  then have digit: "unat (?o ! r) = b mod 256"
    using r(3) by (simp add: out1_def unat_of_nat_byte)
  have "drop (Suc r) ?o = drop (Suc r) out"
    using ih(2) unfolding out1_def by (metis drop_Suc drop_update_cancel lessI tl_drop)
  moreover have "c * 256 ^ Suc r + be_val (take (Suc r) ?o) = be_val (take (Suc r) out) + byte"
    using div_mod_256 [OF ih(3)] digit r ih(1) by (simp add: be_val_take_Suc b_def out1_def)
  moreover have "nfold_carry (Suc r) out byte = ?o"
    by (simp add: b_def out1_def Let_def)
  ultimately show ?case
    using ih(1) by auto
qed

lemma nfold_carry_exact:
  assumes "length out = n" and "byte + be_val out < 256 ^ n"
  shows "length (nfold_carry n out byte) = n \<and> be_val (nfold_carry n out byte) = byte + be_val out"
proof -
  obtain c where c: "length (nfold_carry n out byte) = n"
    "c * 256 ^ n + be_val (nfold_carry n out byte) = be_val out + byte"
    using nfold_carry_val [OF assms(1) order_refl, of byte] assms(1) by auto
  then have "c * 256 ^ n < 1 * 256 ^ n"
    using assms(2) by linarith
  then have "c = 0"
    by simp
  with c show ?thesis by simp
qed

declare nfold_gcd.simps [simp del]

lemma nfold_gcd_eq: "nfold_gcd a b = gcd a b"
proof (induction a b rule: nfold_gcd.induct)
  case (1 a b)
  then show ?case
    using nfold_gcd.simps [of a b] gcd_red_nat [of a b] by (cases "b = 0") simp_all
qed

lemma chunk_sum:
  assumes "input \<noteq> []" and "0 < n"
  shows "(\<Sum>k < lcm n (length input) div n. chunk input n k) = nfold_sum input n"
  unfolding nfold_sum_def
proof (rule sum.cong [OF refl])
  fix k
  let ?m = "lcm n (length input) div length input"
  assume "k \<in> {..<lcm n (length input) div n}"
  then have "(k + 1) * n \<le> lcm n (length input) div n * n"
    by (intro mult_le_mono1) simp
  then have k: "k * n + n \<le> ?m * length input"
    by simp
  have S: "nfold_bits input n = copies input ?m"
    by (simp add: nfold_bits_def copies_def)
  have "chunk input n k = digits_val (\<lambda>r. bits_val (take 8 (drop (8 * (k * n + r)) (copies input ?m)))) n"
    unfolding chunk_def
  proof (rule digits_val_cong)
    fix r
    assume "r < n"
    then show "nfold_octet input (k * n + r) = bits_val (take 8 (drop (8 * (k * n + r)) (copies input ?m)))"
      using assms(1) k by (intro nfold_octet_eq) linarith+
  qed
  also have "\<dots> = digits_val (\<lambda>r. bits_val (take 8 (drop (8 * r) (drop (8 * n * k) (copies input ?m))))) n"
    by (simp add: algebra_simps)
  also have "\<dots> = bits_val (take (8 * n) (drop (8 * n * k) (copies input ?m)))"
  proof (rule bits_val_octets [symmetric])
    have "length (copies input ?m) = 8 * (?m * length input)" "8 * n * k = 8 * (k * n)"
      by (simp_all only: length_copies mult.left_commute mult.assoc mult.commute)
    then show "8 * n \<le> length (drop (8 * n * k) (copies input ?m))"
      unfolding length_drop using k by linarith
  qed
  finally show "chunk input n k = bits_val (take (8 * n) (drop (8 * n * k) (nfold_bits input n)))"
    unfolding S .
qed

lemma nfold_result:
  assumes "input \<noteq> []" and "0 < n"
  shows "\<exists>out. nfold input n = Inr out \<and> length out = n \<and>
    be_val out mod (256 ^ n - 1) = nfold_sum input n mod (256 ^ n - 1) \<and>
    (be_val out = 0 \<longleftrightarrow> nfold_sum input n = 0)"
proof -
  have z: "be_val (replicate q 0) = 0" for q
  proof (induction q)
    case (Suc q)
    have "replicate (Suc q) (0 :: u8) = replicate q 0 @ [0]"
      by (simp add: replicate_append_same)
    with Suc show ?case
      by (simp del: replicate.simps)
  qed simp
  have start: "0 + be_val (replicate n 0) < 256 ^ n"
    by (simp add: z)
  have "n * length input div nfold_gcd n (length input) = lcm n (length input) div n * n"
    by (simp add: nfold_gcd_eq lcm_nat_def [symmetric])
  moreover obtain out byte where r:
    "nfold_loop input n (lcm n (length input) div n * n) (replicate n 0) 0 = (out, byte)" "length out = n"
    "byte + be_val out < 256 ^ n"
    "(byte + be_val out) mod (256 ^ n - 1) = nfold_sum input n mod (256 ^ n - 1)"
    "byte + be_val out = 0 \<longleftrightarrow> nfold_sum input n = 0"
    using nfold_loop_blocks [OF assms(2) length_replicate start, of input "lcm n (length input) div n"]
    unfolding chunk_sum [OF assms] z add_0 by (elim exE conjE) (rule that; assumption)
  ultimately have "nfold input n = Inr (if byte \<noteq> 0 then nfold_carry n out byte else out)"
    using assms by (simp add: nfold_def)
  then show ?thesis
    using nfold_carry_exact [OF r(2,3)] r by auto
qed

text \<open>
  C34: \<open>nfold\<close> computes the n-fold of RFC 3961.  For a nonempty input and a positive output length it
  returns that many octets, and as a number they are the ones' complement sum of the blocks into which
  the concatenated copies of the input, the \<open>j\<close>-th rotated right by \<open>13 * j\<close> bits, are cut: equal to the
  sum modulo \<open>256 ^ n - 1\<close>, and zero only if the sum is (the ones' complement sum writes the other
  multiples of the modulus with all bits set).
\<close>
theorem nfold_is_rfc3961:
  assumes "input \<noteq> []" and "0 < n"
  shows "\<exists>out. nfold input n = Inr out \<and> length out = n \<and>
    be_val out mod (256 ^ n - 1) = nfold_sum input n mod (256 ^ n - 1) \<and>
    (be_val out = 0 \<longleftrightarrow> nfold_sum input n = 0)"
  using assms by (rule nfold_result)

theorem nfold_is_rfc3961_witness:
  "nfold [0x30, 0x31, 0x32, 0x33, 0x34, 0x35] 8 = Inr [0xbe, 0x07, 0x26, 0x31, 0x27, 0x6b, 0x19, 0x55] \<and>
   nfold_sum [0x30, 0x31, 0x32, 0x33, 0x34, 0x35] 8 mod (256 ^ 8 - 1) = 0xbe072631276b1955"
proof -
  have "nfold [0x30, 0x31, 0x32, 0x33, 0x34, 0x35] 8 = Inr [0xbe, 0x07, 0x26, 0x31, 0x27, 0x6b, 0x19, 0x55]"
    by code_simp
  with nfold_is_rfc3961 [of "[0x30, 0x31, 0x32, 0x33, 0x34, 0x35]" 8] show ?thesis
    by (simp add: be_val_def)
qed

end
