(* ===== verification/Derive.thy ===== *)
theory Derive
  imports Cts Nfold Rust_Num
begin

text \<open>
  Key derivation and the MACs (\<open>crates/krb5-crypto/src/derive.rs\<close>) and the primitives of the older
  encryption types (\<open>crates/krb5-crypto/src/weak.rs\<close>: arcfour, triple DES, Camellia), over the record
  \<open>prims\<close> of third-party functions.  The wiping of buffers is not modelled.  The lemmas give the sizes
  of derived keys and the round trip of triple DES, and that the keys made from random octets have
  the parity the key schedule asks for.
\<close>

definition key_from_bytes :: "enctype \<Rightarrow> bytes \<Rightarrow> crypto_error + protocol_key" where
  "key_from_bytes e b =
     (if length b \<noteq> key_len e then Inl InvalidKeyLength else Inr \<lparr>pk_etype = e, pk_bytes = b\<rparr>)"

subsection \<open>HMAC and the key derivation of RFC 3961 and RFC 8009\<close>

definition bits_u32 :: "nat \<Rightarrow> u32" where
  "bits_u32 nbytes = (if nbytes * 8 < 2 ^ 32 then of_nat (nbytes * 8) else - 1)"

text \<open>The loop of \<open>dk_rfc3961\<close>; \<open>left\<close> is what is missing of the \<open>k\<close> octets.\<close>

function dk_loop :: "prims \<Rightarrow> bytes \<Rightarrow> bytes \<Rightarrow> nat \<Rightarrow> crypto_error + bytes" where
  "dk_loop P key block left =
     (if left = 0 then Inr []
      else andthen (encrypt_block P key block) (\<lambda>block.
        let need = min left BLOCK in
        andthen (dk_loop P key block (left - need)) (\<lambda>out. Inr (take need block @ out))))"
  by auto
termination by (relation "measure (\<lambda>(_, _, _, left). left)") auto

declare dk_loop.simps [simp del]

definition dk_rfc3961 :: "prims \<Rightarrow> bytes \<Rightarrow> bytes \<Rightarrow> crypto_error + bytes" where
  "dk_rfc3961 P key constnt =
     andthen (if length constnt = BLOCK then Inr constnt else nfold constnt BLOCK)
       (\<lambda>folded. dk_loop P key folded (length key))"

fun hmac_digest :: "prims \<Rightarrow> enctype \<Rightarrow> bytes \<Rightarrow> bytes \<Rightarrow> crypto_error + bytes" where
  "hmac_digest P Aes128CtsHmacSha196 key d = Inr (hm_sha1 P key d)"
| "hmac_digest P Aes256CtsHmacSha196 key d = Inr (hm_sha1 P key d)"
| "hmac_digest P Aes128CtsHmacSha256128 key d = Inr (hm_sha256 P key d)"
| "hmac_digest P Aes256CtsHmacSha384192 key d = Inr (hm_sha384 P key d)"
| "hmac_digest P e key d = Inl (UnsupportedEtype (to_iana e))"

definition truncated :: "nat \<Rightarrow> bytes \<Rightarrow> bytes" where
  "truncated n mac = (if length mac > n then take n mac else mac)"

definition kdf_hmac_sha2 ::
  "prims \<Rightarrow> enctype \<Rightarrow> bytes \<Rightarrow> bytes \<Rightarrow> bytes option \<Rightarrow> u32 \<Rightarrow> crypto_error + bytes" where
  "kdf_hmac_sha2 P e key label ctx k_bits =
     (let k_len = unat (k_bits div 8);
          msg = be32 1 @ label @ [0] @ (case ctx of None \<Rightarrow> [] | Some c \<Rightarrow> c) @ be32 k_bits
      in andthen (hmac_digest P e key msg) (\<lambda>mac. Inr (truncated k_len mac)))"

definition hmac_truncated :: "prims \<Rightarrow> enctype \<Rightarrow> bytes \<Rightarrow> bytes \<Rightarrow> crypto_error + bytes" where
  "hmac_truncated P e key d =
     andthen (hmac_digest P e key d) (\<lambda>mac. Inr (truncated (hmac_output_len e) mac))"

definition mac_verify :: "bytes \<Rightarrow> bytes \<Rightarrow> crypto_error + unit" where
  "mac_verify got expected =
     (if length got \<noteq> length expected \<or> got \<noteq> expected then Inl Integrity else Inr ())"

subsection \<open>Arcfour\<close>

definition arcfour_translate_usage :: "u32 \<Rightarrow> u32" where
  "arcfour_translate_usage u = (if u = 3 then 8 else if u = 9 then 9 else if u = 23 then 13 else u)"

definition apply_rc4 :: "prims \<Rightarrow> bytes \<Rightarrow> bytes \<Rightarrow> crypto_error + bytes" where
  "apply_rc4 P key d =
     (if length key \<noteq> 16 then Inl InvalidKeyLength
      else Inr (xor_bytes d (rc4_stream P key (length d))))"

definition rc4_encrypt_with_conf ::
  "prims \<Rightarrow> protocol_key \<Rightarrow> u32 \<Rightarrow> bytes \<Rightarrow> bytes \<Rightarrow> crypto_error + bytes" where
  "rc4_encrypt_with_conf P key usage conf pt =
     (if length conf \<noteq> 8 then Inl InvalidConfounder
      else
        let kusage = hm_md5 P (pk_bytes key) (le32 (arcfour_translate_usage usage));
            d = conf @ pt;
            cks = hm_md5 P kusage d;
            kcrypt = hm_md5 P kusage cks
        in andthen (apply_rc4 P kcrypt d) (\<lambda>ed. Inr (cks @ ed)))"

definition rc4_decrypt :: "prims \<Rightarrow> protocol_key \<Rightarrow> u32 \<Rightarrow> bytes \<Rightarrow> crypto_error + bytes" where
  "rc4_decrypt P key usage ct =
     (if length ct < 16 + 8 then Inl CiphertextTooShort
      else
        let cks = take 16 ct;
            kusage = hm_md5 P (pk_bytes key) (le32 (arcfour_translate_usage usage));
            kcrypt = hm_md5 P kusage cks
        in andthen (apply_rc4 P kcrypt (drop 16 ct)) (\<lambda>d.
             andthen (mac_verify cks (hm_md5 P kusage d)) (\<lambda>_.
               if length d < 8 then Inl CiphertextTooShort else Inr (drop 8 d))))"

subsection \<open>Triple DES\<close>

definition WEAK_DES_KEYS :: "bytes list" where
  "WEAK_DES_KEYS =
    [[0x01, 0x01, 0x01, 0x01, 0x01, 0x01, 0x01, 0x01], [0xfe, 0xfe, 0xfe, 0xfe, 0xfe, 0xfe, 0xfe, 0xfe],
     [0x1f, 0x1f, 0x1f, 0x1f, 0x0e, 0x0e, 0x0e, 0x0e], [0xe0, 0xe0, 0xe0, 0xe0, 0xf1, 0xf1, 0xf1, 0xf1],
     [0x01, 0xfe, 0x01, 0xfe, 0x01, 0xfe, 0x01, 0xfe], [0xfe, 0x01, 0xfe, 0x01, 0xfe, 0x01, 0xfe, 0x01],
     [0x1f, 0xe0, 0x1f, 0xe0, 0x0e, 0xf1, 0x0e, 0xf1], [0xe0, 0x1f, 0xe0, 0x1f, 0xf1, 0x0e, 0xf1, 0x0e],
     [0x01, 0xe0, 0x01, 0xe0, 0x01, 0xf1, 0x01, 0xf1], [0xe0, 0x01, 0xe0, 0x01, 0xf1, 0x01, 0xf1, 0x01],
     [0x1f, 0xfe, 0x1f, 0xfe, 0x0e, 0xfe, 0x0e, 0xfe], [0xfe, 0x1f, 0xfe, 0x1f, 0xfe, 0x0e, 0xfe, 0x0e],
     [0x01, 0x1f, 0x01, 0x1f, 0x01, 0x0e, 0x01, 0x0e], [0x1f, 0x01, 0x1f, 0x01, 0x0e, 0x01, 0x0e, 0x01],
     [0xe0, 0xfe, 0xe0, 0xfe, 0xf1, 0xfe, 0xf1, 0xfe], [0xfe, 0xe0, 0xfe, 0xe0, 0xfe, 0xf1, 0xfe, 0xf1]]"

definition count_ones :: "u8 \<Rightarrow> nat" where
  "count_ones b = length (filter (bit b) [0..<8])"

definition des_check_key_parity :: "bytes \<Rightarrow> bool" where
  "des_check_key_parity k = list_all (\<lambda>b. count_ones b mod 2 = 1) k"

definition des_is_weak_key :: "bytes \<Rightarrow> bool" where
  "des_is_weak_key k = (k \<in> set WEAK_DES_KEYS)"

fun des_check_keys :: "bytes list \<Rightarrow> crypto_error + unit" where
  "des_check_keys [] = Inr ()"
| "des_check_keys (k # ks) =
     (if \<not> des_check_key_parity k then Inl DesBadParity
      else if des_is_weak_key k then Inl DesWeakKey
      else des_check_keys ks)"

definition des3_key_sched :: "bytes \<Rightarrow> crypto_error + unit" where
  "des3_key_sched key =
     (if length key \<noteq> 24 then Inl InvalidKeyLength
      else des_check_keys [take 8 key, take 8 (drop 8 key), drop 16 key])"

abbreviation (input) DES_BLOCK :: nat where "DES_BLOCK \<equiv> 8"

fun des_cbc_enc :: "(bytes \<Rightarrow> bytes) \<Rightarrow> bytes \<Rightarrow> nat \<Rightarrow> bytes \<Rightarrow> bytes" where
  "des_cbc_enc e prev 0 pt = []"
| "des_cbc_enc e prev (Suc k) pt =
     (let block = e (xor_bytes (take DES_BLOCK pt) prev)
      in block @ des_cbc_enc e block k (drop DES_BLOCK pt))"

fun des_cbc_dec :: "(bytes \<Rightarrow> bytes) \<Rightarrow> bytes \<Rightarrow> nat \<Rightarrow> bytes \<Rightarrow> bytes" where
  "des_cbc_dec d prev 0 ct = []"
| "des_cbc_dec d prev (Suc k) ct =
     (let saved = take DES_BLOCK ct
      in xor_bytes (d saved) prev @ des_cbc_dec d saved k (drop DES_BLOCK ct))"

definition des3_cbc_encrypt :: "prims \<Rightarrow> bytes \<Rightarrow> bytes \<Rightarrow> bytes \<Rightarrow> crypto_error + bytes" where
  "des3_cbc_encrypt P key iv plain =
     (if length key \<noteq> 24 \<or> length plain mod DES_BLOCK \<noteq> 0 then Inl InvalidKeyLength
      else andthen (des3_key_sched key) (\<lambda>_.
        Inr (des_cbc_enc (tdes_enc P key) iv (length plain div DES_BLOCK) plain)))"

definition des3_cbc_decrypt :: "prims \<Rightarrow> bytes \<Rightarrow> bytes \<Rightarrow> bytes \<Rightarrow> crypto_error + bytes" where
  "des3_cbc_decrypt P key iv ct =
     (if length key \<noteq> 24 \<or> length ct mod DES_BLOCK \<noteq> 0 then Inl InvalidKeyLength
      else andthen (des3_key_sched key) (\<lambda>_.
        Inr (des_cbc_dec (tdes_dec P key) iv (length ct div DES_BLOCK) ct)))"

definition hmac_sha1_trunc :: "prims \<Rightarrow> bytes \<Rightarrow> bytes \<Rightarrow> nat \<Rightarrow> crypto_error + bytes" where
  "hmac_sha1_trunc P key d n = Inr (take n (hm_sha1 P key d))"

text \<open>Seven octets and the eighth made of their low bits, with odd parity everywhere.\<close>

definition eighth_byte :: "bytes \<Rightarrow> u8" where
  "eighth_byte b =
     push_bit 1 (b ! 0 AND 1) OR push_bit 2 (b ! 1 AND 1) OR push_bit 3 (b ! 2 AND 1) OR
     push_bit 4 (b ! 3 AND 1) OR push_bit 5 (b ! 4 AND 1) OR push_bit 6 (b ! 5 AND 1) OR
     push_bit 7 (b ! 6 AND 1)"

definition fixup_parity :: "u8 \<Rightarrow> u8" where
  "fixup_parity b = (let x = b AND 0xfe in if count_ones x mod 2 = 0 then x OR 1 else x)"

definition fixup_key_parity :: "bytes \<Rightarrow> bytes" where
  "fixup_key_parity key = map fixup_parity key"

definition des_key_of_seven :: "bytes \<Rightarrow> bytes" where
  "des_key_of_seven seven = fixup_key_parity (seven @ [eighth_byte seven])"

definition des3_random_to_key :: "bytes \<Rightarrow> bytes" where
  "des3_random_to_key raw21 =
     concat (map des_key_of_seven [take 7 raw21, take 7 (drop 7 raw21), take 7 (drop 14 raw21)])"

text \<open>The loop of \<open>dk_des3\<close> on the octets made so far.\<close>

function dr_loop :: "prims \<Rightarrow> bytes \<Rightarrow> bytes \<Rightarrow> bytes \<Rightarrow> crypto_error + bytes" where
  "dr_loop P key block dr =
     (if length dr < 21 then
        andthen (des3_cbc_encrypt P key (replicate DES_BLOCK 0) block) (\<lambda>c.
          if length c \<noteq> DES_BLOCK then Inl InvalidKeyLength else dr_loop P key c (dr @ c))
      else Inr dr)"
  by auto
termination by (relation "measure (\<lambda>(_, _, _, dr). 21 - length dr)") auto

declare dr_loop.simps [simp del]

definition dk_des3 :: "prims \<Rightarrow> bytes \<Rightarrow> bytes \<Rightarrow> crypto_error + bytes" where
  "dk_des3 P key constnt =
     andthen (nfold constnt DES_BLOCK) (\<lambda>folded.
       andthen (dr_loop P key folded []) (\<lambda>dr. Inr (des3_random_to_key (take 21 dr))))"

text \<open>\<open>rng n\<close> is what \<open>getrandom\<close> fills a buffer of \<open>n\<close> octets with, if it succeeds.\<close>

definition des3_encrypt ::
  "prims \<Rightarrow> (nat \<Rightarrow> bytes option) \<Rightarrow> protocol_key \<Rightarrow> u32 \<Rightarrow> bytes \<Rightarrow> crypto_error + bytes" where
  "des3_encrypt P rng key usage pt =
     andthen (ok_or Rng (rng DES_BLOCK)) (\<lambda>conf.
     andthen (dk_des3 P (pk_bytes key) (derivation_constant usage 0xAA)) (\<lambda>derived.
     andthen (dk_des3 P (pk_bytes key) (derivation_constant usage 0x55)) (\<lambda>ki.
       let padded = div_ceil (DES_BLOCK + length pt) DES_BLOCK * DES_BLOCK;
           d = zero_fill padded (conf @ pt)
       in andthen (des3_cbc_encrypt P derived (replicate DES_BLOCK 0) d) (\<lambda>c.
          andthen (hmac_sha1_trunc P ki d 20) (\<lambda>h. Inr (c @ h))))))"

definition des3_decrypt :: "prims \<Rightarrow> protocol_key \<Rightarrow> u32 \<Rightarrow> bytes \<Rightarrow> crypto_error + bytes" where
  "des3_decrypt P key usage ct =
     (if length ct < DES_BLOCK + 20 then Inl CiphertextTooShort
      else
        let c = take (length ct - 20) ct; mac = drop (length ct - 20) ct in
        andthen (dk_des3 P (pk_bytes key) (derivation_constant usage 0xAA)) (\<lambda>derived.
        andthen (dk_des3 P (pk_bytes key) (derivation_constant usage 0x55)) (\<lambda>ki.
        andthen (des3_cbc_decrypt P derived (replicate DES_BLOCK 0) c) (\<lambda>p.
        andthen (hmac_sha1_trunc P ki p 20) (\<lambda>expected.
        andthen (mac_verify mac expected) (\<lambda>_.
          if length p < DES_BLOCK then Inl CiphertextTooShort else Inr (drop DES_BLOCK p)))))))"

definition des3_string_to_key :: "prims \<Rightarrow> bytes \<Rightarrow> bytes \<Rightarrow> crypto_error + protocol_key" where
  "des3_string_to_key P password salt =
     (let seed = (if password @ salt = [] then [0] else password @ salt) in
      andthen (nfold seed 21) (\<lambda>raw21.
      andthen (dk_des3 P (des3_random_to_key raw21) (char_bytes ''kerberos'')) (\<lambda>dk.
        key_from_bytes Des3CbcSha1 dk)))"

subsection \<open>Camellia\<close>

definition cmac_camellia :: "prims \<Rightarrow> bytes \<Rightarrow> bytes \<Rightarrow> crypto_error + bytes" where
  "cmac_camellia P key d =
     (if length key = 16 \<or> length key = 32 then Inr (cam_cmac P key d) else Inl InvalidKeyLength)"

text \<open>The loop of \<open>kdf_feedback_cmac\<close>: \<open>left\<close> rounds to go, the next one being \<open>i\<close>.\<close>

fun feedback_loop ::
  "prims \<Rightarrow> bytes \<Rightarrow> bytes \<Rightarrow> u32 \<Rightarrow> bytes \<Rightarrow> nat \<Rightarrow> nat \<Rightarrow> crypto_error + bytes" where
  "feedback_loop P key constnt k_bits k_prev 0 i = Inr []"
| "feedback_loop P key constnt k_bits k_prev (Suc left) i =
     andthen (cmac_camellia P key (k_prev @ be32 (of_nat i) @ constnt @ [0] @ be32 k_bits)) (\<lambda>ki.
     andthen (feedback_loop P key constnt k_bits ki left (i + 1)) (\<lambda>out. Inr (ki @ out)))"

definition dk_camellia :: "prims \<Rightarrow> bytes \<Rightarrow> bytes \<Rightarrow> crypto_error + bytes" where
  "dk_camellia P key constnt =
     (let out_len = length key in
      if out_len \<noteq> 16 \<and> out_len \<noteq> 32 then Inl InvalidKeyLength
      else andthen (feedback_loop P key constnt (bits_u32 out_len) (replicate 16 0) (div_ceil out_len 16) 1)
             (\<lambda>out. Inr (take out_len out)))"

subsection \<open>The keys of a usage\<close>

record usage_keys =
  kc :: bytes
  ke :: bytes
  ki :: bytes

definition derive_usage_keys :: "prims \<Rightarrow> enctype \<Rightarrow> bytes \<Rightarrow> u32 \<Rightarrow> crypto_error + usage_keys" where
  "derive_usage_keys P e base usage =
     (let dk = (\<lambda>sfx len.
            if is_rfc8009 e then kdf_hmac_sha2 P e base (derivation_constant usage sfx) None (bits_u32 len)
            else if is_camellia e then dk_camellia P base (derivation_constant usage sfx)
            else if e = Des3CbcSha1 then dk_des3 P base (derivation_constant usage sfx)
            else dk_rfc3961 P base (derivation_constant usage sfx))
      in andthen (dk 0x99 (mac_key_len e)) (\<lambda>c.
         andthen (dk 0xAA (key_len e)) (\<lambda>en.
         andthen (dk 0x55 (mac_key_len e)) (\<lambda>i.
           Inr \<lparr>kc = c, ke = en, ki = i\<rparr>))))"

subsection \<open>Sizes of derived keys\<close>

lemma prims_aes:
  "prims_ok P \<Longrightarrow> length k = 16 \<or> length k = 32 \<Longrightarrow> block_ok 16 (aes_enc P k) (aes_dec P k)"
  by (auto simp: prims_ok_def)

lemma prims_camellia:
  "prims_ok P \<Longrightarrow> length k = 16 \<or> length k = 32 \<Longrightarrow> block_ok 16 (cam_enc P k) (cam_dec P k)"
  by (auto simp: prims_ok_def)

lemma prims_tdes: "prims_ok P \<Longrightarrow> length k = 24 \<Longrightarrow> block_ok 8 (tdes_enc P k) (tdes_dec P k)"
  by (simp add: prims_ok_def)

lemma prims_sizes:
  assumes "prims_ok P"
  shows "length (rc4_stream P k n) = n" "length (hm_sha1 P k m) = 20" "length (hm_sha256 P k m) = 32"
    "length (hm_sha384 P k m) = 48" "length (hm_md5 P k m) = 16" "length (cam_cmac P k m) = 16"
    "length (md4_hash P m) = 16" "length (md5_hash P m) = 16" "length (sha1_hash P m) = 20"
    "length (sha256_hash P m) = 32"
  using assms by (simp_all add: prims_ok_def)

lemma dk_loop_ok:
  assumes "prims_ok P" and "length key = 16 \<or> length key = 32" and "length block = 16"
  shows "\<exists>out. dk_loop P key block left = Inr out \<and> length out = left"
  using assms(3)
proof (induction left arbitrary: block rule: less_induct)
  case (less left)
  show ?case
  proof (cases "left = 0")
    case True
    then show ?thesis by (simp add: dk_loop.simps)
  next
    case False
    have b: "length (aes_enc P key block) = 16"
      using block_okD [OF prims_aes [OF assms(1,2)] less.prems] by simp
    with less.IH [of "left - min left 16"] False
    obtain out where "dk_loop P key (aes_enc P key block) (left - min left 16) = Inr out"
      "length out = left - min left 16"
      by auto
    then show ?thesis
      using False assms(2) b by (subst dk_loop.simps) (simp add: encrypt_block_def Let_def)
  qed
qed

lemma dk_rfc3961_ok:
  assumes "prims_ok P" and "length key = 16 \<or> length key = 32" and "constnt \<noteq> []"
  shows "\<exists>out. dk_rfc3961 P key constnt = Inr out \<and> length out = length key"
  using dk_loop_ok [OF assms(1,2)] nfold_result [OF assms(3), of 16]
  by (cases "length constnt = 16") (auto simp: dk_rfc3961_def)

lemma derivation_constant_ne [simp]: "derivation_constant u sfx \<noteq> []"
  by (simp add: derivation_constant_def)

lemma length_truncated: "length (truncated n m) = min n (length m)"
  by (simp add: truncated_def)

lemma feedback_loop_ok:
  assumes "prims_ok P" and "length key = 16 \<or> length key = 32"
  shows "\<exists>out. feedback_loop P key constnt kb prev left i = Inr out \<and> length out = 16 * left"
proof (induction left arbitrary: prev i)
  case 0
  then show ?case by simp
next
  case (Suc left)
  let ?k = "cam_cmac P key (prev @ be32 (of_nat i) @ constnt @ [0] @ be32 kb)"
  obtain out where "feedback_loop P key constnt kb ?k left (i + 1) = Inr out" "length out = 16 * left"
    using Suc by blast
  moreover have "length ?k = 16"
    using assms(1) by (rule prims_sizes)
  ultimately show ?case
    using assms(2) by (simp add: cmac_camellia_def)
qed

lemma dk_camellia_ok:
  assumes "prims_ok P" and "length key = 16 \<or> length key = 32"
  shows "\<exists>out. dk_camellia P key constnt = Inr out \<and> length out = length key"
proof -
  obtain out where "feedback_loop P key constnt (bits_u32 (length key)) (replicate 16 0)
      (div_ceil (length key) 16) 1 = Inr out" "length out = 16 * div_ceil (length key) 16"
    using feedback_loop_ok [OF assms] by blast
  then show ?thesis
    using assms(2) by (auto simp: dk_camellia_def Let_def div_ceil_def)
qed

lemma kdf_hmac_sha2_ok:
  assumes "prims_ok P" and "is_rfc8009 e" and "n \<le> key_len e"
  shows "\<exists>out. kdf_hmac_sha2 P e key label ctx (bits_u32 n) = Inr out \<and> length out = n"
proof -
  have "n * 8 < 2 ^ 32"
    using assms(3) by (cases e) auto
  then have "unat (bits_u32 n) = n * 8"
    unfolding bits_u32_def by (simp only: if_True unat_of_nat) simp
  then have "unat (bits_u32 n div 8) = n"
    by (simp add: unat_div)
  then show ?thesis
    using assms by (cases e) (auto simp: kdf_hmac_sha2_def Let_def length_truncated is_rfc8009_def prims_sizes)
qed

lemma mac_key_len_8009: "is_rfc8009 e \<Longrightarrow> mac_key_len e \<le> key_len e"
  by (cases e) (auto simp: is_rfc8009_def)

lemma derive_usage_keys_ok:
  assumes "prims_ok P" and "length base = key_len e" and "is_aes e \<or> is_camellia e"
  shows "\<exists>ks. derive_usage_keys P e base u = Inr ks \<and> length (ke ks) = key_len e"
proof -
  consider "is_rfc8009 e" | "\<not> is_rfc8009 e" "is_camellia e"
    | "\<not> is_rfc8009 e" "\<not> is_camellia e" "e \<noteq> Des3CbcSha1"
    using assms(3) by (auto simp: is_aes_def is_camellia_def)
  then show ?thesis
  proof cases
    case 1
    then show ?thesis
      using kdf_hmac_sha2_ok [OF assms(1) 1 mac_key_len_8009 [OF 1], of base "derivation_constant u 0x99" None]
        kdf_hmac_sha2_ok [OF assms(1) 1 mac_key_len_8009 [OF 1], of base "derivation_constant u 0x55" None]
        kdf_hmac_sha2_ok [OF assms(1) 1 order_refl, of base "derivation_constant u 0xAA" None]
      by (auto simp: derive_usage_keys_def Let_def)
  next
    case 2
    then have "length base = 16 \<or> length base = 32"
      using assms(2) by (auto simp: is_camellia_def)
    note dk = dk_camellia_ok [OF assms(1) this]
    show ?thesis
      using 2 assms(2) dk [of "derivation_constant u 0x99"] dk [of "derivation_constant u 0xAA"]
        dk [of "derivation_constant u 0x55"]
      by (auto simp: derive_usage_keys_def Let_def)
  next
    case 3
    then have "length base = 16 \<or> length base = 32"
      using assms(2,3) by (auto simp: is_camellia_def is_aes_def)
    note dk = dk_rfc3961_ok [OF assms(1) this]
    show ?thesis
      using 3 assms(2) dk [of "derivation_constant u 0x99"] dk [of "derivation_constant u 0xAA"]
        dk [of "derivation_constant u 0x55"]
      by (auto simp: derive_usage_keys_def Let_def)
  qed
qed

subsection \<open>Triple DES\<close>

lemma length_fixup [simp]: "length (fixup_key_parity k) = length k"
  by (simp add: fixup_key_parity_def)

lemma fixup_parity_odd: "count_ones (fixup_parity b) mod 2 = 1"
proof -
  define x where "x = b AND (0xfe :: u8)"
  have "\<not> bit x 0"
    by (simp add: x_def bit_simps)
  moreover have "filter (bit (x OR 1)) [Suc 0..<8] = filter (bit x) [Suc 0..<8]"
    by (rule filter_cong) (auto simp: bit_simps)
  ultimately have "count_ones (x OR 1) = Suc (count_ones x)"
    by (simp add: count_ones_def upt_rec [of 0] bit_simps)
  then show ?thesis
    by (auto simp: fixup_parity_def x_def [symmetric] Let_def mod_Suc)
qed

lemma des_parity_fixed: "des_check_key_parity (fixup_key_parity k)"
  using fixup_parity_odd by (simp add: des_check_key_parity_def fixup_key_parity_def list_all_iff)

lemma length_des_key_of_seven [simp]: "length (des_key_of_seven b) = Suc (length b)"
  by (simp add: des_key_of_seven_def)

lemma des3_random_to_key_keys:
  assumes "length raw = 21"
  shows "length (des3_random_to_key raw) = 24"
    and "\<forall>k \<in> set [take 8 (des3_random_to_key raw), take 8 (drop 8 (des3_random_to_key raw)),
      drop 16 (des3_random_to_key raw)]. des_check_key_parity k"
  using assms by (auto simp: des3_random_to_key_def, auto simp: des_key_of_seven_def des_parity_fixed)

lemma des_cbc_inverse:
  assumes "block_ok 8 e d" and "length iv = 8" and "length pt = 8 * k"
  shows "length (des_cbc_enc e iv k pt) = 8 * k \<and> des_cbc_dec d iv k (des_cbc_enc e iv k pt) = pt"
  using assms(2,3)
proof (induction k arbitrary: iv pt)
  case 0
  then show ?case by simp
next
  case (Suc k)
  let ?b = "e (xor_bytes (take 8 pt) iv)"
  have "length ?b = 8" "d ?b = xor_bytes (take 8 pt) iv"
    using Suc.prems by (auto intro!: block_okD [OF assms(1)])
  then show ?case
    using Suc.IH [of ?b "drop 8 pt"] Suc.prems by (simp add: Let_def)
qed

lemma dr_loop_length: "dr_loop P key block dr = Inr out \<Longrightarrow> 21 \<le> length out"
proof (induction P key block dr rule: dr_loop.induct)
  case (1 P key block dr)
  show ?case
  proof (cases "length dr < 21")
    case True
    with "1.prems" show ?thesis
      by (subst (asm) dr_loop.simps) (auto intro: "1.IH")
  next
    case False
    with "1.prems" show ?thesis
      by (subst (asm) dr_loop.simps) simp
  qed
qed

lemma dk_des3_length: "dk_des3 P key constnt = Inr out \<Longrightarrow> length out = 24"
  using dr_loop_length by (fastforce simp: dk_des3_def des3_random_to_key_keys)

end
