(* ===== verification/Crypto.thy ===== *)
theory Crypto
  imports Derive
begin

text \<open>
  The operations of \<open>crates/krb5-crypto/src/ops.rs\<close>: encryption and decryption with a chained cipher
  state, checksums and their verification, string-to-key, and the encryption of keys in the
  database.  The state (\<open>CipherState\<close>, its \<open>iv\<close>) is an argument and part of the result, also of a failing
  call.  \<open>rng\<close> is the system's random source.  The main lemma, \<open>decrypt_iff_encrypt\<close>, says that
  decryption accepts exactly the ciphertexts encryption produces.
\<close>

subsection \<open>Encryption\<close>

definition initial_iv :: bytes where
  "initial_iv = replicate BLOCK 0"

definition update_iv :: "bytes \<Rightarrow> bytes \<Rightarrow> bytes" where
  "update_iv iv ct =
     (let nblocks = div_ceil (length ct) BLOCK in
      if nblocks \<ge> 2 then take BLOCK (drop ((nblocks - 2) * BLOCK) ct) else iv)"

definition camellia_encrypt_with_conf ::
  "prims \<Rightarrow> protocol_key \<Rightarrow> u32 \<Rightarrow> bytes \<Rightarrow> bytes \<Rightarrow> bytes \<Rightarrow> (crypto_error + bytes) \<times> bytes" where
  "camellia_encrypt_with_conf P key usage conf pt iv =
     (if length conf \<noteq> 16 then (Inl InvalidConfounder, iv)
      else
        case andthen (dk_camellia P (pk_bytes key) (derivation_constant usage 0xAA)) (\<lambda>en.
             andthen (dk_camellia P (pk_bytes key) (derivation_constant usage 0x55)) (\<lambda>i.
             andthen (camellia_cts_encrypt P en iv (conf @ pt)) (\<lambda>c.
             andthen (cmac_camellia P i (conf @ pt)) (\<lambda>h. Inr (c, h))))) of
          Inl e \<Rightarrow> (Inl e, iv)
        | Inr (c, h) \<Rightarrow> (Inr (c @ h), update_iv iv c))"

definition camellia_decrypt ::
  "prims \<Rightarrow> protocol_key \<Rightarrow> u32 \<Rightarrow> bytes \<Rightarrow> bytes \<Rightarrow> (crypto_error + bytes) \<times> bytes" where
  "camellia_decrypt P key usage ct iv =
     (if length ct < 16 + 16 then (Inl CiphertextTooShort, iv)
      else
        let c = take (length ct - 16) ct; mac = drop (length ct - 16) ct in
        case andthen (dk_camellia P (pk_bytes key) (derivation_constant usage 0xAA)) (\<lambda>en.
             andthen (dk_camellia P (pk_bytes key) (derivation_constant usage 0x55)) (\<lambda>i.
             andthen (camellia_cts_decrypt P en iv c) (\<lambda>p. Inr (i, p)))) of
          Inl e \<Rightarrow> (Inl e, iv)
        | Inr (i, p) \<Rightarrow>
            (andthen (cmac_camellia P i p) (\<lambda>expected.
             andthen (mac_verify mac expected) (\<lambda>_.
               if length p < 16 then Inl CiphertextTooShort else Inr (drop 16 p))),
             update_iv iv c))"

definition encrypt_inner_state ::
  "prims \<Rightarrow> (nat \<Rightarrow> bytes option) \<Rightarrow> protocol_key \<Rightarrow> u32 \<Rightarrow> bytes \<Rightarrow> bytes \<Rightarrow> bytes \<Rightarrow>
   (crypto_error + bytes) \<times> bytes" where
  "encrypt_inner_state P rng key usage conf pt iv =
     (let e = pk_etype key in
      if e = Rc4Hmac then (rc4_encrypt_with_conf P key usage (take 8 conf) pt, iv)
      else if e = Des3CbcSha1 then (des3_encrypt P rng key usage pt, iv)
      else if is_camellia e then camellia_encrypt_with_conf P key usage conf pt iv
      else if length conf \<noteq> BLOCK then (Inl InvalidConfounder, iv)
      else
        case andthen (derive_usage_keys P e (pk_bytes key) usage) (\<lambda>keys.
             andthen (cts_encrypt P (ke keys) iv (conf @ pt)) (\<lambda>c.
             andthen (hmac_truncated P e (ki keys) (if is_rfc8009 e then iv @ c else conf @ pt)) (\<lambda>h.
               Inr (c, h)))) of
          Inl er \<Rightarrow> (Inl er, iv)
        | Inr (c, h) \<Rightarrow> (Inr (c @ h), update_iv iv c))"

definition encrypt_with_confounder ::
  "prims \<Rightarrow> (nat \<Rightarrow> bytes option) \<Rightarrow> protocol_key \<Rightarrow> u32 \<Rightarrow> bytes \<Rightarrow> bytes \<Rightarrow> crypto_error + bytes" where
  "encrypt_with_confounder P rng key usage conf pt =
     fst (encrypt_inner_state P rng key usage conf pt initial_iv)"

definition encrypt ::
  "prims \<Rightarrow> (nat \<Rightarrow> bytes option) \<Rightarrow> protocol_key \<Rightarrow> u32 \<Rightarrow> bytes \<Rightarrow> crypto_error + bytes" where
  "encrypt P rng key usage pt =
     andthen (ok_or Rng (rng BLOCK)) (\<lambda>conf. encrypt_with_confounder P rng key usage conf pt)"

definition encrypt_with_state ::
  "prims \<Rightarrow> (nat \<Rightarrow> bytes option) \<Rightarrow> protocol_key \<Rightarrow> u32 \<Rightarrow> bytes \<Rightarrow> bytes \<Rightarrow> (crypto_error + bytes) \<times> bytes" where
  "encrypt_with_state P rng key usage iv pt =
     (case rng BLOCK of None \<Rightarrow> (Inl Rng, iv)
      | Some conf \<Rightarrow> encrypt_inner_state P rng key usage conf pt iv)"

subsection \<open>Decryption\<close>

definition decrypt_inner_state ::
  "prims \<Rightarrow> protocol_key \<Rightarrow> u32 \<Rightarrow> bytes \<Rightarrow> bytes \<Rightarrow> (crypto_error + bytes) \<times> bytes" where
  "decrypt_inner_state P key usage ct iv =
     (let e = pk_etype key in
      if e = Rc4Hmac then (rc4_decrypt P key usage ct, iv)
      else if e = Des3CbcSha1 then (des3_decrypt P key usage ct, iv)
      else if is_camellia e then camellia_decrypt P key usage ct iv
      else
        let h = hmac_output_len e in
        if length ct < BLOCK + h then (Inl CiphertextTooShort, iv)
        else
          let c = take (length ct - h) ct; mac = drop (length ct - h) ct in
          case derive_usage_keys P e (pk_bytes key) usage of
            Inl er \<Rightarrow> (Inl er, iv)
          | Inr keys \<Rightarrow>
              if is_rfc8009 e then
                (case andthen (hmac_truncated P e (ki keys) (iv @ c)) (\<lambda>expected.
                      andthen (mac_verify mac expected) (\<lambda>_.
                      andthen (cts_decrypt P (ke keys) iv c) (\<lambda>p.
                        if length p < BLOCK then Inl CiphertextTooShort else Inr (drop BLOCK p)))) of
                   Inl er \<Rightarrow> (Inl er, iv)
                 | Inr plain \<Rightarrow> (Inr plain, update_iv iv c))
              else
                (case cts_decrypt P (ke keys) iv c of
                   Inl er \<Rightarrow> (Inl er, iv)
                 | Inr p \<Rightarrow>
                     (andthen (hmac_truncated P e (ki keys) p) (\<lambda>expected.
                        if \<not> is_ok (mac_verify mac expected) then Inl Integrity
                        else if length p < BLOCK then Inl CiphertextTooShort
                        else Inr (drop BLOCK p)),
                      update_iv iv c)))"

definition decrypt :: "prims \<Rightarrow> protocol_key \<Rightarrow> u32 \<Rightarrow> bytes \<Rightarrow> crypto_error + bytes" where
  "decrypt P key usage ct = fst (decrypt_inner_state P key usage ct initial_iv)"

abbreviation (input) ENCTYPE_UNKNOWN :: int where "ENCTYPE_UNKNOWN \<equiv> 0x01ff"

definition check_enc_data_etype :: "protocol_key \<Rightarrow> int \<Rightarrow> crypto_error + unit" where
  "check_enc_data_etype key e =
     (if e \<noteq> ENCTYPE_UNKNOWN \<and> e \<noteq> to_iana (pk_etype key) then Inl (BadEnctype e) else Inr ())"

definition decrypt_enc_data :: "prims \<Rightarrow> protocol_key \<Rightarrow> u32 \<Rightarrow> int \<Rightarrow> bytes \<Rightarrow> crypto_error + bytes" where
  "decrypt_enc_data P key usage e ct =
     andthen (check_enc_data_etype key e) (\<lambda>_. decrypt P key usage ct)"

definition decrypt_enc_data_with_state ::
  "prims \<Rightarrow> protocol_key \<Rightarrow> u32 \<Rightarrow> bytes \<Rightarrow> int \<Rightarrow> bytes \<Rightarrow> (crypto_error + bytes) \<times> bytes" where
  "decrypt_enc_data_with_state P key usage iv e ct =
     (case check_enc_data_etype key e of Inl er \<Rightarrow> (Inl er, iv)
      | Inr _ \<Rightarrow> decrypt_inner_state P key usage ct iv)"

definition integrity_mac :: "prims \<Rightarrow> protocol_key \<Rightarrow> u32 \<Rightarrow> bytes \<Rightarrow> crypto_error + bytes" where
  "integrity_mac P key usage msg =
     (if \<not> is_aes (pk_etype key) then Inl (UnsupportedEtype (to_iana (pk_etype key)))
      else andthen (derive_usage_keys P (pk_etype key) (pk_bytes key) usage) (\<lambda>keys.
             hmac_truncated P (pk_etype key) (ki keys) msg))"

definition decrypt_cts :: "prims \<Rightarrow> protocol_key \<Rightarrow> u32 \<Rightarrow> bytes \<Rightarrow> crypto_error + (bytes \<times> bytes)" where
  "decrypt_cts P key usage ct =
     (if \<not> is_aes (pk_etype key) then Inl (UnsupportedEtype (to_iana (pk_etype key)))
      else if length ct < BLOCK then Inl CiphertextTooShort
      else andthen (derive_usage_keys P (pk_etype key) (pk_bytes key) usage) (\<lambda>keys.
           andthen (cts_decrypt P (ke keys) initial_iv ct) (\<lambda>p.
             if length p < BLOCK then Inl CiphertextTooShort
             else Inr (take BLOCK p, drop BLOCK p))))"

subsection \<open>Keys in the database\<close>

definition kdb_encrypt_key ::
  "prims \<Rightarrow> (nat \<Rightarrow> bytes option) \<Rightarrow> protocol_key \<Rightarrow> bytes \<Rightarrow> crypto_error + bytes" where
  "kdb_encrypt_key P rng mkey raw_key =
     (if 2 ^ 16 \<le> length raw_key then Inl InvalidKeyLength
      else andthen (encrypt P rng mkey 0 raw_key) (\<lambda>c. Inr (le16 (of_nat (length raw_key)) @ c)))"

definition kdb_decrypt_key :: "prims \<Rightarrow> protocol_key \<Rightarrow> bytes \<Rightarrow> crypto_error + bytes" where
  "kdb_decrypt_key P mkey ct =
     (if length ct < 2 then Inl CiphertextTooShort
      else
        let klen = le_val (take 2 ct) in
        andthen (decrypt P mkey 0 (drop 2 ct)) (\<lambda>plain.
          if klen > 0x7fff \<or> length plain < klen then Inl InvalidKeyLength
          else Inr (take klen plain)))"

subsection \<open>Checksums\<close>

definition hmac_md5_arcfour_checksum :: "prims \<Rightarrow> bytes \<Rightarrow> u32 \<Rightarrow> bytes \<Rightarrow> int \<Rightarrow> crypto_error + bytes" where
  "hmac_md5_arcfour_checksum P key usage msg ctype =
     (if length key > 64 then Inl InvalidKeyLength
      else
        let mapped = arcfour_translate_usage usage;
            mac_key = (if ctype = - 137 then key else hm_md5 P key (char_bytes ''signaturekey'' @ [0]));
            hashval = md5_hash P (le32 mapped @ msg)
        in Inr (hm_md5 P mac_key hashval))"

definition checksum_inner :: "prims \<Rightarrow> protocol_key \<Rightarrow> u32 \<Rightarrow> bytes \<Rightarrow> crypto_error + bytes" where
  "checksum_inner P key usage msg =
     (let e = pk_etype key in
      if e = Rc4Hmac then hmac_md5_arcfour_checksum P (pk_bytes key) usage msg (- 138)
      else if e = Des3CbcSha1 then
        andthen (dk_des3 P (pk_bytes key) (derivation_constant usage 0x99)) (\<lambda>c.
          hmac_sha1_trunc P c msg 20)
      else if is_camellia e then
        andthen (dk_camellia P (pk_bytes key) (derivation_constant usage 0x99)) (\<lambda>c.
          cmac_camellia P c msg)
      else
        andthen (derive_usage_keys P e (pk_bytes key) usage) (\<lambda>keys.
          hmac_truncated P e (kc keys) msg))"

definition checksum_output_size :: "int \<Rightarrow> nat option" where
  "checksum_output_size t =
     (if t \<in> {2, 7, 17, 18, 19, - 137, - 138} then Some 16
      else if t \<in> {9, 12, 14} then Some 20
      else if t \<in> {15, 16} then Some 12
      else if t = 20 then Some 24
      else None)"

definition unkeyed_checksum :: "prims \<Rightarrow> int \<Rightarrow> bytes \<Rightarrow> crypto_error + bytes" where
  "unkeyed_checksum P t msg =
     (if t = 2 then Inr (md4_hash P msg)
      else if t = 7 then Inr (md5_hash P msg)
      else if t = 9 \<or> t = 14 then Inr (sha1_hash P msg)
      else Inl (UnsupportedChecksum t))"

datatype enc_prov = ProvAes128 | ProvAes256 | ProvDes3 | ProvArcfour | ProvCamellia128 | ProvCamellia256

definition cksum_enc :: "int \<Rightarrow> enc_prov option" where
  "cksum_enc t =
     (if t = 15 \<or> t = 19 then Some ProvAes128
      else if t = 16 \<or> t = 20 then Some ProvAes256
      else if t = 12 then Some ProvDes3
      else if t = - 137 then Some ProvArcfour
      else if t = 17 then Some ProvCamellia128
      else if t = 18 then Some ProvCamellia256
      else None)"

fun key_enc :: "enctype \<Rightarrow> enc_prov" where
  "key_enc Aes128CtsHmacSha196 = ProvAes128"
| "key_enc Aes128CtsHmacSha256128 = ProvAes128"
| "key_enc Aes256CtsHmacSha196 = ProvAes256"
| "key_enc Aes256CtsHmacSha384192 = ProvAes256"
| "key_enc Des3CbcSha1 = ProvDes3"
| "key_enc Rc4Hmac = ProvArcfour"
| "key_enc Camellia128CtsCmac = ProvCamellia128"
| "key_enc Camellia256CtsCmac = ProvCamellia256"

definition keyed_cksum_accepts_key :: "int \<Rightarrow> enctype \<Rightarrow> bool" where
  "keyed_cksum_accepts_key t e = (case cksum_enc t of None \<Rightarrow> True | Some p \<Rightarrow> key_enc e = p)"

definition cksumtype_compute_etype :: "int \<Rightarrow> crypto_error + enctype" where
  "cksumtype_compute_etype t =
     (if t = 15 then Inr Aes128CtsHmacSha196
      else if t = 16 then Inr Aes256CtsHmacSha196
      else if t = 19 then Inr Aes128CtsHmacSha256128
      else if t = 20 then Inr Aes256CtsHmacSha384192
      else if t = 12 then Inr Des3CbcSha1
      else if t = 17 then Inr Camellia128CtsCmac
      else if t = 18 then Inr Camellia256CtsCmac
      else if t = - 137 then Inr Rc4Hmac
      else Inl (UnsupportedChecksum t))"

definition keyed_checksum_for_type ::
  "prims \<Rightarrow> protocol_key \<Rightarrow> u32 \<Rightarrow> bytes \<Rightarrow> int \<Rightarrow> crypto_error + bytes" where
  "keyed_checksum_for_type P key usage msg t =
     (if t = - 137 \<or> t = - 138 then hmac_md5_arcfour_checksum P (pk_bytes key) usage msg t
      else andthen (cksumtype_compute_etype t) (\<lambda>e.
           andthen (key_from_bytes e (pk_bytes key)) (\<lambda>tmp. checksum_inner P tmp usage msg)))"

definition verify_checksum_type ::
  "prims \<Rightarrow> protocol_key \<Rightarrow> u32 \<Rightarrow> bytes \<Rightarrow> int \<Rightarrow> bytes \<Rightarrow> crypto_error + unit" where
  "verify_checksum_type P key usage msg t mac =
     (let t = (if t = 0 then checksum_type (pk_etype key) else t) in
      case checksum_output_size t of
        None \<Rightarrow> Inl (UnsupportedChecksum t)
      | Some want \<Rightarrow>
          if cksumtype_is_unkeyed t then
            (if length mac \<noteq> want then Inl BadChecksumSize
             else andthen (unkeyed_checksum P t msg) (\<lambda>expected. mac_verify mac expected))
          else if \<not> cksumtype_is_keyed t then Inl (UnsupportedChecksum t)
          else if \<not> keyed_cksum_accepts_key t (pk_etype key) then Inl (UnsupportedChecksum t)
          else if length mac \<noteq> want then Inl BadChecksumSize
          else andthen (keyed_checksum_for_type P key usage msg t) (\<lambda>expected. mac_verify mac expected))"

definition verify_checksum_keyed ::
  "prims \<Rightarrow> protocol_key \<Rightarrow> u32 \<Rightarrow> bytes \<Rightarrow> int \<Rightarrow> bytes \<Rightarrow> crypto_error + unit" where
  "verify_checksum_keyed P key usage msg t mac =
     (if \<not> cksumtype_is_keyed t then Inl InappChecksum else verify_checksum_type P key usage msg t mac)"

definition verify_checksum_collproof ::
  "prims \<Rightarrow> protocol_key \<Rightarrow> u32 \<Rightarrow> bytes \<Rightarrow> int \<Rightarrow> bytes \<Rightarrow> crypto_error + unit" where
  "verify_checksum_collproof P key usage msg t mac =
     (if \<not> cksumtype_is_known t then Inl (UnsupportedChecksum t)
      else if \<not> cksumtype_is_coll_proof t \<or> \<not> cksumtype_is_keyed t then Inl InappChecksum
      else verify_checksum_type P key usage msg t mac)"

subsection \<open>String to key\<close>

abbreviation (input) MAX_ITERATIONS :: u32 where "MAX_ITERATIONS \<equiv> 0x1000000"

text \<open>Built without the \<open>test-hooks\<close> feature: \<open>weak_iterations()\<close> is false.\<close>

definition parse_iterations :: "enctype \<Rightarrow> bytes option \<Rightarrow> crypto_error + u32" where
  "parse_iterations e params =
     andthen
       (case params of
          None \<Rightarrow> Inr (default_iterations e)
        | Some p \<Rightarrow>
            if p = [] then Inr (default_iterations e)
            else if length p \<noteq> 4 then Inl BadS2kParams
            else let n = of_nat (be_val p) in
              if n = 0 \<or> n < default_iterations e then Inl BadS2kParams else Inr n)
       (\<lambda>n. if n \<ge> MAX_ITERATIONS then Inl BadS2kParams else Inr n)"

text \<open>The UTF-16 form of a valid UTF-8 text (\<open>str::encode_utf16\<close>).\<close>

definition utf8_code :: "string \<Rightarrow> nat \<Rightarrow> nat" where
  "utf8_code s n =
     (if n = 1 then safe_get s 0
      else if n = 2 then (safe_get s 0 - 192) * 64 + (safe_get s 1 - 128)
      else if n = 3 then ((safe_get s 0 - 224) * 64 + (safe_get s 1 - 128)) * 64 + (safe_get s 2 - 128)
      else (((safe_get s 0 - 240) * 64 + (safe_get s 1 - 128)) * 64 + (safe_get s 2 - 128)) * 64
             + (safe_get s 3 - 128))"

definition utf16_units :: "nat \<Rightarrow> u16 list" where
  "utf16_units cp =
     (if cp < 0x10000 then [of_nat cp]
      else [of_nat (0xD800 + (cp - 0x10000) div 1024), of_nat (0xDC00 + (cp - 0x10000) mod 1024)])"

function encode_utf16 :: "string \<Rightarrow> u16 list" where
  "encode_utf16 s =
     (if s = [] then []
      else let (ok, n) = utf8_step s in utf16_units (utf8_code s n) @ encode_utf16 (drop n s))"
  by pat_completeness auto
termination
  by (relation "measure length") (use utf8_step_drop in \<open>simp_all only: wf_measure in_measure, blast+\<close>)

declare encode_utf16.simps [simp del]

definition rc4_string_to_key :: "prims \<Rightarrow> bytes \<Rightarrow> crypto_error + protocol_key" where
  "rc4_string_to_key P password =
     (let txt = (case from_utf8 (map (\<lambda>b. char_of (unat b)) password) of None \<Rightarrow> [] | Some t \<Rightarrow> t)
      in key_from_bytes Rc4Hmac (md4_hash P (concat (map (\<lambda>u. le16 u) (encode_utf16 txt)))))"

definition string_to_key_inner ::
  "prims \<Rightarrow> enctype \<Rightarrow> bytes \<Rightarrow> bytes \<Rightarrow> bytes option \<Rightarrow> crypto_error + protocol_key" where
  "string_to_key_inner P e password salt params =
     (if e = Rc4Hmac then
        (if (case params of None \<Rightarrow> False | Some p \<Rightarrow> p \<noteq> []) then Inl BadS2kParams
         else rc4_string_to_key P password)
      else if e = Des3CbcSha1 then des3_string_to_key P password salt
      else andthen (parse_iterations e params) (\<lambda>iter.
        if is_rfc8009 e then
          andthen (ok_or (UnsupportedEtype (to_iana e)) (enctype_name e)) (\<lambda>name.
            let saltp = char_bytes name @ [0] @ salt;
                tkey = (if e = Aes128CtsHmacSha256128 then pbkdf2_sha256 P password saltp iter (key_len e)
                        else pbkdf2_sha384 P password saltp iter (key_len e))
            in andthen (kdf_hmac_sha2 P e tkey (char_bytes ''kerberos'') None (bits_u32 (key_len e)))
                 (key_from_bytes e))
        else if is_camellia e then
          andthen (ok_or (UnsupportedEtype (to_iana e)) (enctype_name e)) (\<lambda>name.
            let saltp = char_bytes name @ [0] @ salt;
                tkey = pbkdf2_sha1 P password saltp iter (key_len e)
            in andthen (dk_camellia P tkey (char_bytes ''kerberos'')) (key_from_bytes e))
        else
          andthen (dk_rfc3961 P (pbkdf2_sha1 P password salt iter (key_len e)) (char_bytes ''kerberos''))
            (key_from_bytes e)))"

subsection \<open>Decryption accepts exactly what encryption produces\<close>

lemma encrypt_with_onto:
  assumes "block_ok 16 e d" and "length iv = 16" and "16 \<le> length ct"
  shows "\<exists>pt. length pt = length ct \<and> encrypt_with e iv pt = Inr ct"
proof -
  let ?A = "{xs :: bytes. length xs = length ct}"
  define f where "f pt = (case encrypt_with e iv pt of Inl _ \<Rightarrow> [] | Inr c \<Rightarrow> c)" for pt
  have f: "encrypt_with e iv pt = Inr (f pt)" "length (f pt) = length ct" "decrypt_with d iv (f pt) = Inr pt"
    if "pt \<in> ?A" for pt
  proof -
    have "16 \<le> length pt"
      using that assms(3) by simp
    from cts_inverse [OF assms(1,2) this] obtain c where
      "encrypt_with e iv pt = Inr c" "length c = length pt" "decrypt_with d iv c = Inr pt" .
    then show "encrypt_with e iv pt = Inr (f pt)" "length (f pt) = length ct" "decrypt_with d iv (f pt) = Inr pt"
      using that by (simp_all add: f_def)
  qed
  have "finite ?A"
    using finite_lists_length_eq [of "UNIV :: u8 set" "length ct"] by simp
  moreover have "inj_on f ?A"
  proof (rule inj_onI)
    fix x y
    assume x: "x \<in> ?A" and y: "y \<in> ?A" and eq: "f x = f y"
    have "Inr x = decrypt_with d iv (f y)"
      using f(3) [OF x] unfolding eq by (rule sym)
    also have "\<dots> = Inr y"
      using y by (rule f(3))
    finally show "x = y"
      by (rule Inr_inject)
  qed
  moreover have "f ` ?A \<subseteq> ?A"
    using f(2) by auto
  ultimately have "f ` ?A = ?A"
    using endo_inj_surj by blast
  then have "ct \<in> f ` ?A"
    by simp
  then obtain pt where "pt \<in> ?A" "f pt = ct"
    by (rule imageE) (rule that; simp)
  with f(1) [of pt] show ?thesis
    by auto
qed

lemma cts_with_iff:
  assumes "block_ok 16 e d" and "length iv = 16" and "16 \<le> length ct \<or> 16 \<le> length pt"
  shows "decrypt_with d iv ct = Inr pt \<and> 16 \<le> length ct \<longleftrightarrow> encrypt_with e iv pt = Inr ct \<and> 16 \<le> length pt"
proof
  assume l: "decrypt_with d iv ct = Inr pt \<and> 16 \<le> length ct"
  obtain pt' where "length pt' = length ct" "encrypt_with e iv pt' = Inr ct"
    using encrypt_with_onto [OF assms(1,2)] l by blast
  moreover from this have "decrypt_with d iv ct = Inr pt'"
    using encrypt_with_length(2) [OF assms(1,2), of pt' ct] l by simp
  ultimately show "encrypt_with e iv pt = Inr ct \<and> 16 \<le> length pt"
    using l by simp
next
  assume "encrypt_with e iv pt = Inr ct \<and> 16 \<le> length pt"
  then show "decrypt_with d iv ct = Inr pt \<and> 16 \<le> length ct"
    using encrypt_with_length [OF assms(1,2), of pt ct] by simp
qed

lemma cts_dec_enc:
  assumes "prims_ok P" and "length k = 16 \<or> length k = 32" and "length iv = 16" and "16 \<le> length ct"
  shows "cts_decrypt P k iv ct = Inr pt \<longleftrightarrow> cts_encrypt P k iv pt = Inr ct \<and> 16 \<le> length pt"
  using cts_with_iff [OF prims_aes [OF assms(1,2)] assms(3), of ct pt] assms(2,4)
  by (auto simp: cts_decrypt_def cts_encrypt_def)

lemma camellia_dec_enc:
  assumes "prims_ok P" and "length k = 16 \<or> length k = 32" and "length iv = 16" and "16 \<le> length ct"
  shows "camellia_cts_decrypt P k iv ct = Inr pt \<longleftrightarrow> camellia_cts_encrypt P k iv pt = Inr ct \<and> 16 \<le> length pt"
  using cts_with_iff [OF prims_camellia [OF assms(1,2)] assms(3), of ct pt] assms(2,4)
  by (auto simp: camellia_cts_decrypt_def camellia_cts_encrypt_def)

lemma cts_encrypt_size:
  assumes "prims_ok P" and "length k = 16 \<or> length k = 32" and "length iv = 16" and "16 \<le> length pt"
    and "cts_encrypt P k iv pt = Inr ct"
  shows "length ct = length pt"
  using encrypt_with_length [OF prims_aes [OF assms(1,2)] assms(3,4), of ct] assms(2,5)
  by (auto simp: cts_encrypt_def)

lemma camellia_encrypt_size:
  assumes "prims_ok P" and "length k = 16 \<or> length k = 32" and "length iv = 16" and "16 \<le> length pt"
    and "camellia_cts_encrypt P k iv pt = Inr ct"
  shows "length ct = length pt"
  using encrypt_with_length [OF prims_camellia [OF assms(1,2)] assms(3,4), of ct] assms(2,5)
  by (auto simp: camellia_cts_encrypt_def)

lemma mac_verify_iff [simp]: "mac_verify a b = Inr () \<longleftrightarrow> a = b"
  by (auto simp: mac_verify_def)

lemma mac_verify_self [simp]: "mac_verify a a = Inr ()"
  by (simp add: mac_verify_def)

lemma is_ok_mac_verify [simp]: "is_ok (mac_verify a b) \<longleftrightarrow> a = b"
  by (auto simp: mac_verify_def)

lemma tag_split:
  assumes "\<And>p c. length (T p c) = n" and "\<And>p c. E p c \<Longrightarrow> m \<le> length c"
  shows "(\<exists>p. m + n \<le> length ct \<and> E p (take (length ct - n) ct) \<and>
      drop (length ct - n) ct = T p (take (length ct - n) ct)) \<longleftrightarrow> (\<exists>p c. E p c \<and> ct = c @ T p c)"
    (is "?l \<longleftrightarrow> ?r")
proof
  assume ?l
  then obtain p where "E p (take (length ct - n) ct)" "drop (length ct - n) ct = T p (take (length ct - n) ct)"
    by blast
  then show ?r
    using append_take_drop_id [of "length ct - n" ct] by metis
next
  assume ?r
  then obtain p c where "E p c" "ct = c @ T p c"
    by blast
  with assms [of p c] show ?l
    by (intro exI [of _ p]) simp
qed

text \<open>A message of at least a block is a confounder and a plaintext.\<close>

lemma ex_confounded:
  "(\<exists>p c. (E p c \<and> 16 \<le> length p \<and> pt = drop 16 p \<and> Q c) \<and> R p c) \<longleftrightarrow>
   (\<exists>conf c. length conf = 16 \<and> E (conf @ pt) c \<and> Q c \<and> R (conf @ pt) c)"
    (is "?l \<longleftrightarrow> ?r")
proof
  assume ?l
  then obtain p c where "E p c" "16 \<le> length p" "pt = drop 16 p" "Q c" "R p c"
    by blast
  then show ?r
    by (intro exI [of _ "take 16 p"] exI [of _ c]) simp
next
  assume ?r
  then obtain conf c where "length conf = 16" "E (conf @ pt) c" "Q c" "R (conf @ pt) c"
    by blast
  then show ?l
    by (intro exI [of _ "conf @ pt"] exI [of _ c]) simp
qed

lemma hmac_truncated_size:
  assumes "prims_ok P" and "is_aes e"
  obtains t where "\<And>k d. hmac_truncated P e k d = Inr (t k d)" "\<And>k d. length (t k d) = hmac_output_len e"
proof -
  have "\<exists>t. hmac_truncated P e k d = Inr t \<and> length t = hmac_output_len e" for k d
    using assms prims_sizes [OF assms(1)]
    by (cases e) (auto simp: hmac_truncated_def length_truncated is_aes_def)
  then show ?thesis
    using that by metis
qed

lemma rc4_dec_enc:
  assumes "prims_ok P"
  shows "rc4_decrypt P key usage ct = Inr pt \<longleftrightarrow>
    (\<exists>conf. length conf = 8 \<and> rc4_encrypt_with_conf P key usage conf pt = Inr ct)"
proof -
  define ku where "ku = hm_md5 P (pk_bytes key) (le32 (arcfour_translate_usage usage))"
  have md5: "length (hm_md5 P k m) = 16" for k m
    using assms by (rule prims_sizes)
  have rc4: "apply_rc4 P (hm_md5 P ku c) d = Inr (xor_bytes d (rc4_stream P (hm_md5 P ku c) (length d)))" for c d
    by (simp add: apply_rc4_def md5)
  have stream: "length (rc4_stream P k n) = n" for k n
    using assms by (rule prims_sizes)
  show ?thesis
  proof
    assume "rc4_decrypt P key usage ct = Inr pt"
    moreover define d where
      "d = xor_bytes (drop 16 ct) (rc4_stream P (hm_md5 P ku (take 16 ct)) (length (drop 16 ct)))"
    ultimately have d: "24 \<le> length ct" "take 16 ct = hm_md5 P ku d" "8 \<le> length d" "pt = drop 8 d"
      by (simp_all add: rc4_decrypt_def Let_def ku_def [symmetric] rc4 stream d_def split: if_splits)
    have "length d = length (drop 16 ct)"
      by (simp add: d_def stream)
    moreover have "xor_bytes d (rc4_stream P (hm_md5 P ku (take 16 ct)) (length (drop 16 ct))) = drop 16 ct"
      unfolding d_def by (rule xor_xor_bytes) (simp add: stream)
    ultimately have "xor_bytes d (rc4_stream P (hm_md5 P ku (hm_md5 P ku d)) (length d)) = drop 16 ct"
      using d(2) by simp
    then have "rc4_encrypt_with_conf P key usage (take 8 d) pt = Inr (take 16 ct @ drop 16 ct)"
      using d(2-4) by (simp add: rc4_encrypt_with_conf_def Let_def ku_def [symmetric] rc4 )
    then have "rc4_encrypt_with_conf P key usage (take 8 d) pt = Inr ct"
      by (simp only: append_take_drop_id)
    then show "\<exists>conf. length conf = 8 \<and> rc4_encrypt_with_conf P key usage conf pt = Inr ct"
      using d(3) by (intro exI [of _ "take 8 d"]) simp
  next
    assume "\<exists>conf. length conf = 8 \<and> rc4_encrypt_with_conf P key usage conf pt = Inr ct"
    then show "rc4_decrypt P key usage ct = Inr pt"
      by (auto simp: rc4_encrypt_with_conf_def rc4_decrypt_def Let_def ku_def [symmetric] rc4 md5 stream)
  qed
qed

lemma camellia_dec_enc_state:
  assumes "prims_ok P" and "length (pk_bytes key) = 16 \<or> length (pk_bytes key) = 32" and "length iv = 16"
  shows "camellia_decrypt P key usage ct iv = (Inr pt, iv') \<longleftrightarrow>
    (\<exists>conf. length conf = 16 \<and> camellia_encrypt_with_conf P key usage conf pt iv = (Inr ct, iv'))"
proof -
  obtain en i where k: "dk_camellia P (pk_bytes key) (derivation_constant usage 0xAA) = Inr en"
    "dk_camellia P (pk_bytes key) (derivation_constant usage 0x55) = Inr i"
    and len: "length en = 16 \<or> length en = 32" "length i = 16 \<or> length i = 32"
    using dk_camellia_ok [OF assms(1,2)] assms(2) by metis
  have cmac: "cmac_camellia P i d = Inr (cam_cmac P i d)" "length (cam_cmac P i d) = 16" for d
    using len(2) prims_sizes(6) [OF assms(1)] by (auto simp: cmac_camellia_def)
  have enc: "camellia_encrypt_with_conf P key usage conf pt iv = (Inr ct, iv') \<longleftrightarrow>
      (\<exists>c. camellia_cts_encrypt P en iv (conf @ pt) = Inr c \<and> ct = c @ cam_cmac P i (conf @ pt) \<and> iv' = update_iv iv c)"
    if "length conf = 16" for conf
    using that by (cases "camellia_cts_encrypt P en iv (conf @ pt)") (auto simp: camellia_encrypt_with_conf_def k cmac)
  let ?c = "take (length ct - 16) ct" and ?mac = "drop (length ct - 16) ct"
  let ?E = "\<lambda>p c. camellia_cts_encrypt P en iv p = Inr c \<and> 16 \<le> length p \<and> pt = drop 16 p \<and> iv' = update_iv iv c"
  have "camellia_decrypt P key usage ct iv = (Inr pt, iv') \<longleftrightarrow>
      32 \<le> length ct \<and> iv' = update_iv iv ?c \<and>
      (\<exists>p. camellia_cts_decrypt P en iv ?c = Inr p \<and> ?mac = cam_cmac P i p \<and> 16 \<le> length p \<and> pt = drop 16 p)"
    by (auto simp: camellia_decrypt_def Let_def k cmac split: sum.splits)
  also have "\<dots> \<longleftrightarrow> (\<exists>p. 16 + 16 \<le> length ct \<and> ?E p ?c \<and> ?mac = cam_cmac P i p)"
    using camellia_dec_enc [OF assms(1) len(1) assms(3), of ?c] by (cases "32 \<le> length ct") (simp, blast, simp)
  also have "\<dots> \<longleftrightarrow> (\<exists>p c. ?E p c \<and> ct = c @ cam_cmac P i p)"
    using cmac(2) camellia_encrypt_size [OF assms(1) len(1) assms(3)]
    by (intro tag_split [where T = "\<lambda>p c. cam_cmac P i p"]) auto
  also have "\<dots> \<longleftrightarrow> (\<exists>conf. length conf = 16 \<and> camellia_encrypt_with_conf P key usage conf pt iv = (Inr ct, iv'))"
    unfolding ex_confounded by (simp add: enc cong: conj_cong) blast
  finally show ?thesis .
qed

lemma aes_dec_enc_state:
  assumes "prims_ok P" and "is_aes (pk_etype key)" and "length (pk_bytes key) = key_len (pk_etype key)"
    and "length iv = 16"
  shows "decrypt_inner_state P key usage ct iv = (Inr pt, iv') \<longleftrightarrow>
    (\<exists>conf. length conf = 16 \<and> encrypt_inner_state P rng key usage conf pt iv = (Inr ct, iv'))"
proof -
  define e where "e = pk_etype key"
  have e: "e \<noteq> Rc4Hmac" "e \<noteq> Des3CbcSha1" "\<not> is_camellia e"
    using assms(2) by (auto simp: e_def is_aes_def is_camellia_def)
  obtain keys where k: "derive_usage_keys P e (pk_bytes key) usage = Inr keys" "length (ke keys) = key_len e"
    using derive_usage_keys_ok [OF assms(1,3)] assms(2) by (auto simp: e_def)
  have len: "length (ke keys) = 16 \<or> length (ke keys) = 32"
    using k(2) assms(2) by (auto simp: e_def is_aes_def)
  obtain t where t: "\<And>k d. hmac_truncated P e k d = Inr (t k d)" "\<And>k d. length (t k d) = hmac_output_len e"
    using hmac_truncated_size [OF assms(1,2)] unfolding e_def by blast
  define T where "T p c = t (ki keys) (if is_rfc8009 e then iv @ c else p)" for p c
  let ?n = "hmac_output_len e"
  let ?c = "take (length ct - ?n) ct" and ?mac = "drop (length ct - ?n) ct"
  let ?E = "\<lambda>p c. cts_encrypt P (ke keys) iv p = Inr c \<and> 16 \<le> length p \<and> pt = drop 16 p \<and> iv' = update_iv iv c"
  have enc: "encrypt_inner_state P rng key usage conf pt iv = (Inr ct, iv') \<longleftrightarrow>
      (\<exists>c. cts_encrypt P (ke keys) iv (conf @ pt) = Inr c \<and> ct = c @ T (conf @ pt) c \<and> iv' = update_iv iv c)"
    if "length conf = 16" for conf
    using that e by (cases "cts_encrypt P (ke keys) iv (conf @ pt)")
      (auto simp: encrypt_inner_state_def Let_def e_def [symmetric] k t T_def)
  have "decrypt_inner_state P key usage ct iv = (Inr pt, iv') \<longleftrightarrow>
      16 + ?n \<le> length ct \<and> iv' = update_iv iv ?c \<and>
      (\<exists>p. cts_decrypt P (ke keys) iv ?c = Inr p \<and> ?mac = T p ?c \<and> 16 \<le> length p \<and> pt = drop 16 p)"
    using e by (cases "cts_decrypt P (ke keys) iv ?c")
      (auto simp: decrypt_inner_state_def Let_def e_def [symmetric] k t T_def split: sum.splits if_splits)
  also have "\<dots> \<longleftrightarrow> (\<exists>p. 16 + ?n \<le> length ct \<and> ?E p ?c \<and> ?mac = T p ?c)"
    using cts_dec_enc [OF assms(1) len assms(4), of ?c] by (cases "16 + ?n \<le> length ct") (simp, blast, simp)
  also have "\<dots> \<longleftrightarrow> (\<exists>p c. ?E p c \<and> ct = c @ T p c)"
    using t(2) cts_encrypt_size [OF assms(1) len assms(4)]
    by (intro tag_split) (auto simp: T_def)
  also have "\<dots> \<longleftrightarrow> (\<exists>conf. length conf = 16 \<and> encrypt_inner_state P rng key usage conf pt iv = (Inr ct, iv'))"
    unfolding ex_confounded by (simp add: enc cong: conj_cong) blast
  finally show ?thesis .
qed

definition key_ok :: "protocol_key \<Rightarrow> bool" where
  "key_ok key \<longleftrightarrow> length (pk_bytes key) = key_len (pk_etype key)"

lemma decrypt_iff_encrypt:
  assumes "prims_ok P" and "key_ok key" and "length iv = 16" and "pk_etype key \<noteq> Des3CbcSha1"
  shows "decrypt_inner_state P key usage ct iv = (Inr pt, iv') \<longleftrightarrow>
    (\<exists>conf. length conf = 16 \<and> encrypt_inner_state P rng key usage conf pt iv = (Inr ct, iv'))"
proof -
  consider "pk_etype key = Rc4Hmac" | "is_camellia (pk_etype key)" | "is_aes (pk_etype key)"
    using assms(4) by (cases "pk_etype key") (auto simp: is_camellia_def is_aes_def)
  then show ?thesis
  proof cases
    case 1
    have "(\<exists>conf. length conf = 8 \<and> Q conf) \<longleftrightarrow> (\<exists>conf. length conf = 16 \<and> Q (take 8 conf))" for Q :: "bytes \<Rightarrow> bool"
    proof
      assume "\<exists>conf. length conf = 8 \<and> Q conf"
      then obtain conf where "length conf = 8" "Q conf"
        by blast
      then show "\<exists>conf. length conf = 16 \<and> Q (take 8 conf)"
        by (intro exI [of _ "conf @ replicate 8 0"]) simp
    next
      assume "\<exists>conf. length conf = 16 \<and> Q (take 8 conf)"
      then obtain conf where "length conf = 16" "Q (take 8 conf)"
        by blast
      then show "\<exists>conf. length conf = 8 \<and> Q conf"
        by (intro exI [of _ "take 8 conf"]) simp
    qed
    with 1 show ?thesis
      by (auto simp: decrypt_inner_state_def encrypt_inner_state_def Let_def rc4_dec_enc [OF assms(1)])
  next
    case 2
    then have "length (pk_bytes key) = 16 \<or> length (pk_bytes key) = 32" "pk_etype key \<noteq> Rc4Hmac"
      using assms(2) by (auto simp: key_ok_def is_camellia_def)
    with 2 assms(4) show ?thesis
      by (simp add: decrypt_inner_state_def encrypt_inner_state_def Let_def
          camellia_dec_enc_state [OF assms(1) _ assms(3)])
  next
    case 3
    with assms(2) show ?thesis
      unfolding key_ok_def by (intro aes_dec_enc_state [OF assms(1) 3 _ assms(3)])
  qed
qed

subsection \<open>What is encrypted can be decrypted\<close>

definition rng_ok :: "(nat \<Rightarrow> bytes option) \<Rightarrow> bool" where
  "rng_ok rng \<longleftrightarrow> (\<forall>n b. rng n = Some b \<longrightarrow> length b = n)"

definition des_pad :: "nat \<Rightarrow> nat" where
  "des_pad n = div_ceil (8 + n) 8 * 8 - (8 + n)"

lemma padded_multiple: "div_ceil (8 + n) 8 * 8 = 8 + n + des_pad n"
proof -
  have "8 + n \<le> div_ceil (8 + n) 8 * 8"
    unfolding div_ceil_def by presburger
  then show ?thesis
    by (simp add: des_pad_def)
qed

lemma des3_encrypt_decrypt:
  assumes "prims_ok P" and "rng_ok rng" and "des3_encrypt P rng key usage pt = Inr ct"
  shows "des3_decrypt P key usage ct = Inr (pt @ replicate (des_pad (length pt)) 0)"
proof -
  obtain conf en i where conf: "rng 8 = Some conf"
    and k: "dk_des3 P (pk_bytes key) (derivation_constant usage 0xAA) = Inr en"
      "dk_des3 P (pk_bytes key) (derivation_constant usage 0x55) = Inr i"
    using assms(3) by (auto simp: des3_encrypt_def)
  have "length conf = 8"
    using assms(2) conf by (simp add: rng_ok_def)
  define d where "d = zero_fill (div_ceil (8 + length pt) 8 * 8) (conf @ pt)"
  have d: "d = conf @ pt @ replicate (des_pad (length pt)) 0"
    using \<open>length conf = 8\<close> by (simp add: d_def zero_fill_def padded_multiple)
  have ld: "length d = 8 * div_ceil (8 + length pt) 8"
    using padded_multiple [of "length pt"] \<open>length conf = 8\<close> by (simp add: d)
  obtain c where c: "des3_cbc_encrypt P en (replicate 8 0) d = Inr c" and ct: "ct = c @ take 20 (hm_sha1 P i d)"
    using assms(3) conf k by (auto simp: des3_encrypt_def hmac_sha1_trunc_def d_def Let_def)
  have tag: "length (take 20 (hm_sha1 P i d)) = 20"
    using prims_sizes(2) [OF assms(1)] by simp
  have en: "length en = 24"
    using k(1) by (rule dk_des3_length)
  have c': "length c = length d" "des3_cbc_decrypt P en (replicate 8 0) c = Inr d"
    using des_cbc_inverse [OF prims_tdes [OF assms(1) en] _ ld, of "replicate 8 0"] c ld en
    by (auto simp: des3_cbc_encrypt_def des3_cbc_decrypt_def)
  have "8 \<le> length d"
    by (simp add: d \<open>length conf = 8\<close>)
  then show ?thesis
    using tag c' \<open>length conf = 8\<close>
    by (simp add: des3_decrypt_def ct k hmac_sha1_trunc_def Let_def) (simp add: d)
qed

lemma encrypt_inner_ok:
  assumes "prims_ok P" and "key_ok key" and "length iv = 16" and "pk_etype key \<noteq> Des3CbcSha1"
    and "length conf = 16"
  shows "\<exists>ct iv'. encrypt_inner_state P rng key usage conf pt iv = (Inr ct, iv')"
proof -
  consider "pk_etype key = Rc4Hmac" | "is_camellia (pk_etype key)" | "is_aes (pk_etype key)"
    using assms(4) by (cases "pk_etype key") (auto simp: is_camellia_def is_aes_def)
  then show ?thesis
  proof cases
    case 1
    then show ?thesis
      using assms(5) prims_sizes(5) [OF assms(1)]
      by (simp add: encrypt_inner_state_def rc4_encrypt_with_conf_def apply_rc4_def Let_def)
  next
    case 2
    then have k: "length (pk_bytes key) = 16 \<or> length (pk_bytes key) = 32" "pk_etype key \<noteq> Rc4Hmac"
      using assms(2) by (auto simp: key_ok_def is_camellia_def)
    obtain en i where dk: "dk_camellia P (pk_bytes key) (derivation_constant usage 0xAA) = Inr en"
      "dk_camellia P (pk_bytes key) (derivation_constant usage 0x55) = Inr i"
      and len: "length en = 16 \<or> length en = 32" "length i = 16 \<or> length i = 32"
      using dk_camellia_ok [OF assms(1) k(1)] k(1) by metis
    obtain c where "encrypt_with (cam_enc P en) iv (conf @ pt) = Inr c"
      using cts_inverse [OF prims_camellia [OF assms(1) len(1)] assms(3), of "conf @ pt"] assms(5) by auto
    then show ?thesis
      using 2 k dk len assms(4,5)
      by (auto simp: encrypt_inner_state_def camellia_encrypt_with_conf_def Let_def camellia_cts_encrypt_def
          cmac_camellia_def)
  next
    case 3
    obtain keys where k: "derive_usage_keys P (pk_etype key) (pk_bytes key) usage = Inr keys"
      "length (ke keys) = key_len (pk_etype key)"
      using derive_usage_keys_ok [OF assms(1), of "pk_bytes key"] assms(2) 3 by (auto simp: key_ok_def)
    have len: "length (ke keys) = 16 \<or> length (ke keys) = 32"
      using k(2) 3 by (auto simp: is_aes_def)
    obtain c where c: "encrypt_with (aes_enc P (ke keys)) iv (conf @ pt) = Inr c"
      using cts_inverse [OF prims_aes [OF assms(1) len] assms(3), of "conf @ pt"] assms(5) by auto
    obtain t where "\<And>k d. hmac_truncated P (pk_etype key) k d = Inr (t k d)"
      by (rule hmac_truncated_size [OF assms(1) 3]) (rule that)
    then show ?thesis
      using 3 k c len assms(4,5)
      by (auto simp: encrypt_inner_state_def Let_def cts_encrypt_def is_aes_def is_camellia_def)
  qed
qed

lemma length_initial_iv [simp]: "length initial_iv = 16"
  by (simp add: initial_iv_def)

lemma encrypt_decrypt:
  assumes "prims_ok P" and "key_ok key" and "rng_ok rng" and "encrypt P rng key usage pt = Inr ct"
  shows "decrypt P key usage ct =
    Inr (pt @ replicate (if pk_etype key = Des3CbcSha1 then des_pad (length pt) else 0) 0)"
proof (cases "pk_etype key = Des3CbcSha1")
  case True
  then have "des3_encrypt P rng key usage pt = Inr ct"
    using assms(4) by (auto simp: encrypt_def encrypt_with_confounder_def encrypt_inner_state_def)
  from des3_encrypt_decrypt [OF assms(1,3) this] True show ?thesis
    by (simp add: decrypt_def decrypt_inner_state_def)
next
  case False
  obtain conf where conf: "rng 16 = Some conf" "fst (encrypt_inner_state P rng key usage conf pt initial_iv) = Inr ct"
    using assms(4) by (auto simp: encrypt_def encrypt_with_confounder_def)
  then have "encrypt_inner_state P rng key usage conf pt initial_iv =
      (Inr ct, snd (encrypt_inner_state P rng key usage conf pt initial_iv))" "length conf = 16"
    using assms(3) by (simp_all add: prod_eq_iff rng_ok_def)
  then have "\<exists>iv'. decrypt_inner_state P key usage ct initial_iv = (Inr pt, iv')"
    using decrypt_iff_encrypt [OF assms(1,2) length_initial_iv False] by blast
  with False show ?thesis
    by (auto simp: decrypt_def)
qed

subsection \<open>Verifying a checksum\<close>

lemma checksum_inner_size:
  assumes "prims_ok P" and "key_ok key" and "checksum_inner P key usage msg = Inr mac"
  shows "checksum_output_size (checksum_type (pk_etype key)) = Some (length mac)"
proof -
  note sz = prims_sizes [OF assms(1)]
  show ?thesis
    using assms(2,3)
    by (cases "pk_etype key")
      (auto simp: checksum_inner_def checksum_output_size_def is_camellia_def hmac_md5_arcfour_checksum_def Let_def
        hmac_sha1_trunc_def cmac_camellia_def hmac_truncated_def length_truncated sz split: if_splits)
qed

lemma keyed_checksum_own:
  assumes "key_ok key"
  shows "keyed_checksum_for_type P key usage msg (checksum_type (pk_etype key)) = checksum_inner P key usage msg"
proof -
  have "key_from_bytes (pk_etype key) (pk_bytes key) = Inr key"
    using assms by (simp add: key_from_bytes_def key_ok_def)
  then show ?thesis
    by (cases "pk_etype key")
      (simp_all add: keyed_checksum_for_type_def cksumtype_compute_etype_def checksum_inner_def)
qed

lemma verify_own_checksum:
  assumes "prims_ok P" and "key_ok key" and "t = 0 \<or> t = checksum_type (pk_etype key)"
  shows "verify_checksum_type P key usage msg t mac = Inr () \<longleftrightarrow> checksum_inner P key usage msg = Inr mac"
proof -
  define ty where "ty = checksum_type (pk_etype key)"
  have ty: "cksumtype_is_keyed ty" "\<not> cksumtype_is_unkeyed ty" "keyed_cksum_accepts_key ty (pk_etype key)" "ty \<noteq> 0"
    "\<exists>n. checksum_output_size ty = Some n"
    unfolding ty_def by (cases "pk_etype key"; simp add: cksumtype_is_keyed_def cksumtype_is_unkeyed_def
        keyed_cksum_accepts_key_def cksum_enc_def checksum_output_size_def)+
  then obtain n where n: "checksum_output_size ty = Some n"
    by blast
  have t: "(if t = 0 then checksum_type (pk_etype key) else t) = ty"
    using assms(3) ty(4) by (auto simp: ty_def)
  have sz: "length mac = n" if "checksum_inner P key usage msg = Inr mac"
    using checksum_inner_size [OF assms(1,2) that] n by (simp add: ty_def)
  show ?thesis
    unfolding verify_checksum_type_def t Let_def
    using ty n sz keyed_checksum_own [OF assms(2), of P usage msg] by (auto simp: ty_def [symmetric])
qed

lemma keyed_checksum_size:
  assumes "prims_ok P" and "keyed_checksum_for_type P key usage msg t = Inr mac"
  shows "checksum_output_size t = Some (length mac)"
proof (cases "t = - 137 \<or> t = - 138")
  case True
  then show ?thesis
    using assms prims_sizes [OF assms(1)]
    by (auto simp: keyed_checksum_for_type_def hmac_md5_arcfour_checksum_def checksum_output_size_def Let_def split: if_splits)
next
  case False
  then obtain e tmp where e: "cksumtype_compute_etype t = Inr e" "key_from_bytes e (pk_bytes key) = Inr tmp"
    "checksum_inner P tmp usage msg = Inr mac"
    using assms(2) by (auto simp: keyed_checksum_for_type_def)
  then have "key_ok tmp" "pk_etype tmp = e" "checksum_type e = t"
    using False by (auto simp: key_from_bytes_def key_ok_def cksumtype_compute_etype_def split: if_splits)
  then show ?thesis
    using checksum_inner_size [OF assms(1) _ e(3)] by simp
qed

text \<open>With a keyed type only the checksum of that type under the key is accepted.\<close>

lemma verify_keyed_checksum:
  assumes "prims_ok P" and "cksumtype_is_keyed t"
  shows "verify_checksum_type P key usage msg t mac = Inr () \<longleftrightarrow>
    keyed_cksum_accepts_key t (pk_etype key) \<and> keyed_checksum_for_type P key usage msg t = Inr mac"
proof -
  have t: "t \<noteq> 0" "\<not> cksumtype_is_unkeyed t" "\<exists>n. checksum_output_size t = Some n"
    using assms(2) by (auto simp: cksumtype_is_keyed_def cksumtype_is_unkeyed_def checksum_output_size_def)
  then obtain n where n: "checksum_output_size t = Some n"
    by blast
  show ?thesis
    using t n assms(2) keyed_checksum_size [OF assms(1), of key usage msg t]
    by (auto simp: verify_checksum_type_def)
qed

lemma kdb_key_roundtrip:
  assumes "prims_ok P" and "key_ok mkey" and "rng_ok rng" and "kdb_encrypt_key P rng mkey raw = Inr ct"
  shows "kdb_decrypt_key P mkey ct = (if length raw \<le> 0x7fff then Inr raw else Inl InvalidKeyLength)"
proof -
  obtain c where c: "encrypt P rng mkey 0 raw = Inr c" "ct = le16 (of_nat (length raw)) @ c" "length raw < 2 ^ 16"
    using assms(4) by (auto simp: kdb_encrypt_key_def split: if_splits)
  have "unat (of_nat (length raw) :: u16) = length raw"
    using c(3) by (simp add: unat_of_nat)
  then have "le_val (le16 (of_nat (length raw))) = length raw"
    using c(3) by (simp add: codec_simps)
  then show ?thesis
    using encrypt_decrypt [OF assms(1-3) c(1)] by (simp add: kdb_decrypt_key_def c(2) Let_def)
qed

subsection \<open>Properties\<close>

text \<open>
  C5: Decryption accepts exactly what encryption produces.  For every encryption type but triple DES, a
  well-formed key and a common cipher state, \<open>decrypt_inner_state\<close> turns a ciphertext into a plaintext
  and a new state if and only if encrypting that plaintext with some confounder gives that ciphertext
  and that state: nothing else passes the integrity check, the plaintext is unique, and two peers that
  chain their states stay in step.
\<close>
theorem decrypt_accepts_encryptions:
  assumes "prims_ok P" and "key_ok key" and "length iv = 16" and "pk_etype key \<noteq> Des3CbcSha1"
  shows "decrypt_inner_state P key usage ct iv = (Inr pt, iv') \<longleftrightarrow>
    (\<exists>conf. length conf = 16 \<and> encrypt_inner_state P rng key usage conf pt iv = (Inr ct, iv'))"
  using assms by (rule decrypt_iff_encrypt)

text \<open>Primitives to evaluate with: block ciphers that add the first octet of the key, and constant tags.\<close>

definition example_prims :: prims where
  "example_prims =
     \<lparr>aes_enc = \<lambda>k b. map ((+) (hd k)) b, aes_dec = \<lambda>k b. map (\<lambda>x. x - hd k) b,
      cam_enc = \<lambda>k b. b, cam_dec = \<lambda>k b. b, tdes_enc = \<lambda>k b. b, tdes_dec = \<lambda>k b. b,
      rc4_stream = \<lambda>k n. replicate n 0,
      hm_sha1 = \<lambda>k m. replicate 20 7, hm_sha256 = \<lambda>k m. replicate 32 7, hm_sha384 = \<lambda>k m. replicate 48 7,
      hm_md5 = \<lambda>k m. replicate 16 7, cam_cmac = \<lambda>k m. replicate 16 7,
      md4_hash = \<lambda>m. replicate 16 7, md5_hash = \<lambda>m. replicate 16 7, sha1_hash = \<lambda>m. replicate 20 7,
      sha256_hash = \<lambda>m. replicate 32 7,
      pbkdf2_sha1 = \<lambda>p s i n. replicate n 7, pbkdf2_sha256 = \<lambda>p s i n. replicate n 7,
      pbkdf2_sha384 = \<lambda>p s i n. replicate n 7\<rparr>"

lemma example_prims_ok: "prims_ok example_prims"
  by (simp add: prims_ok_def example_prims_def block_ok_def comp_def)

definition example_rc4_key :: protocol_key where
  "example_rc4_key = \<lparr>pk_etype = Rc4Hmac, pk_bytes = replicate 16 1\<rparr>"

lemma example_rc4_key_ok: "key_ok example_rc4_key" "pk_etype example_rc4_key \<noteq> Des3CbcSha1"
  by (simp_all add: key_ok_def example_rc4_key_def)

theorem decrypt_accepts_encryptions_witness:
  "fst (decrypt_inner_state example_prims example_rc4_key 3 (replicate 16 7 @ replicate 8 2 @ [5]) (replicate 16 0))
     = Inr [5] \<and>
   (\<exists>conf. length conf = 16 \<and>
      fst (encrypt_inner_state example_prims (\<lambda>_. None) example_rc4_key 3 conf [5] (replicate 16 0)) =
        Inr (replicate 16 7 @ replicate 8 2 @ [5]))"
proof -
  let ?ct = "replicate 16 7 @ replicate 8 2 @ [5]"
  have d: "decrypt_inner_state example_prims example_rc4_key 3 ?ct (replicate 16 0) = (Inr [5], replicate 16 0)"
    by code_simp
  then obtain conf where "length conf = 16"
    "encrypt_inner_state example_prims (\<lambda>_. None) example_rc4_key 3 conf [5] (replicate 16 0) = (Inr ?ct, replicate 16 0)"
    using decrypt_accepts_encryptions [OF example_prims_ok example_rc4_key_ok(1) length_replicate
        example_rc4_key_ok(2)] by blast
  then show ?thesis
    unfolding d by (intro conjI exI [of _ conf]) simp_all
qed

text \<open>
  Encryption succeeds and its result decrypts.  With a random source that works, \<open>encrypt\<close> returns a
  ciphertext under every well-formed key that is not a triple DES key, and what \<open>encrypt\<close> returns, under
  any key, \<open>decrypt\<close> turns back into the plaintext, under a triple DES key followed by the zeros that
  fill its last block.
\<close>
theorem encrypt_then_decrypt:
  assumes "prims_ok P" and "key_ok key" and "rng_ok rng"
  shows "(pk_etype key \<noteq> Des3CbcSha1 \<and> rng 16 \<noteq> None \<longrightarrow> is_ok (encrypt P rng key usage pt)) \<and>
    (\<forall>ct. encrypt P rng key usage pt = Inr ct \<longrightarrow>
       decrypt P key usage ct =
         Inr (pt @ replicate (if pk_etype key = Des3CbcSha1 then des_pad (length pt) else 0) 0))"
proof -
  have "is_ok (encrypt P rng key usage pt)" if d: "pk_etype key \<noteq> Des3CbcSha1" and r: "rng 16 \<noteq> None"
  proof -
    obtain conf where conf: "rng 16 = Some conf" "length conf = 16"
      using r assms(3) by (auto simp: rng_ok_def)
    then show ?thesis
      using encrypt_inner_ok [OF assms(1,2) length_initial_iv d conf(2), of rng usage pt]
      by (auto simp: encrypt_def encrypt_with_confounder_def)
  qed
  then show ?thesis
    using encrypt_decrypt [OF assms] by blast
qed

theorem encrypt_then_decrypt_witness:
  "\<exists>ct. encrypt example_prims (\<lambda>n. Some (replicate n 0)) example_rc4_key 3 [5] = Inr ct \<and>
     decrypt example_prims example_rc4_key 3 ct = Inr [5]"
  using encrypt_then_decrypt [OF example_prims_ok example_rc4_key_ok(1), of "\<lambda>n. Some (replicate n 0)" 3 "[5]"]
  by (auto simp: rng_ok_def is_ok_iff example_rc4_key_def)

text \<open>
  The checksum of a key's own type is verified exactly by itself.  With the checksum type of the key's
  encryption type, or 0, which stands for it, \<open>verify_checksum_type\<close> accepts an octet string if and only if
  it is the checksum \<open>checksum_inner\<close> computes for the same key, usage and message.
\<close>
theorem verify_checksum_exact:
  assumes "prims_ok P" and "key_ok key" and "t = 0 \<or> t = checksum_type (pk_etype key)"
  shows "verify_checksum_type P key usage msg t mac = Inr () \<longleftrightarrow> checksum_inner P key usage msg = Inr mac"
  using assms by (rule verify_own_checksum)

theorem verify_checksum_exact_witness:
  "verify_checksum_type example_prims example_rc4_key 3 [1] 0 (replicate 16 7) = Inr () \<and>
   verify_checksum_type example_prims example_rc4_key 3 [1] 0 (replicate 16 6) \<noteq> Inr ()"
proof -
  have "checksum_inner example_prims example_rc4_key 3 [1] = Inr (replicate 16 7)"
    by code_simp
  then show ?thesis
    using verify_checksum_exact [OF example_prims_ok example_rc4_key_ok(1), of 0 3 "[1]"] by simp
qed

text \<open>
  C35: A key stored in the database comes back.  What \<open>kdb_encrypt_key\<close> makes of a key with any master key,
  \<open>kdb_decrypt_key\<close> turns back into that key without the padding of the cipher, unless the key is longer
  than 32767 octets, which the length field can hold when it is written and which is refused when it is
  read.
\<close>
theorem kdb_key_stored:
  assumes "prims_ok P" and "key_ok mkey" and "rng_ok rng" and "kdb_encrypt_key P rng mkey raw = Inr ct"
  shows "kdb_decrypt_key P mkey ct = (if length raw \<le> 0x7fff then Inr raw else Inl InvalidKeyLength)"
  using assms by (rule kdb_key_roundtrip)

theorem kdb_key_stored_witness:
  "kdb_decrypt_key example_prims example_rc4_key ([1, 0] @ replicate 16 7 @ replicate 8 0 @ [5]) = Inr [5]"
proof -
  have "encrypt example_prims (\<lambda>n. Some (replicate n 0)) example_rc4_key 0 [5] =
      Inr (replicate 16 7 @ replicate 8 0 @ [5])"
    by code_simp
  moreover have "le16 1 = [1, 0]"
    by (simp add: le_bytes_def numeral_2_eq_2)
  ultimately have "kdb_encrypt_key example_prims (\<lambda>n. Some (replicate n 0)) example_rc4_key [5] =
      Inr ([1, 0] @ replicate 16 7 @ replicate 8 0 @ [5])"
    by (simp add: kdb_encrypt_key_def)
  from kdb_key_stored [OF example_prims_ok example_rc4_key_ok(1) _ this] show ?thesis
    by (simp add: rng_ok_def)
qed

end
