(* ===== verification/Pac.thy ===== *)
theory Pac
  imports Crypto
begin

text \<open>
  The privilege attribute certificate (\<open>crates/krb5-types/src/pac.rs\<close>): its table of buffers, the octets its
  signatures cover, on the side that builds it (\<open>bytes_zeroing\<close>) and on the side that has received it
  (\<open>received_zeroed\<close>), and the client information buffer with its UTF-16 name.  The NDR encoded buffers
  (\<open>pac/ndr.rs\<close>) are opaque octets here.
\<close>

abbreviation (input) PAC_SERVER_CHECKSUM :: u32 where "PAC_SERVER_CHECKSUM \<equiv> 6"
abbreviation (input) PAC_PRIVSVR_CHECKSUM :: u32 where "PAC_PRIVSVR_CHECKSUM \<equiv> 7"
abbreviation (input) PAC_CLIENT_INFO :: u32 where "PAC_CLIENT_INFO \<equiv> 10"
abbreviation (input) PAC_FULL_CHECKSUM :: u32 where "PAC_FULL_CHECKSUM \<equiv> 19"
abbreviation (input) MAX_BUFFERS :: nat where "MAX_BUFFERS \<equiv> 4096"
abbreviation (input) PAC_ALIGNMENT :: nat where "PAC_ALIGNMENT \<equiv> 8"
abbreviation (input) NT_UNIX_EPOCH :: nat where "NT_UNIX_EPOCH \<equiv> 116444736000000000"

subsection \<open>Buffers\<close>

record pac_buffer =
  pb_kind :: u32
  pb_data :: bytes
  pb_offset :: nat

record pac =
  pac_version :: u32
  pac_buffers :: "pac_buffer list"
  pac_raw :: bytes

datatype pac_error = PacTruncated | PacIntegrity | PacMissingBuffer | PacMalformed

definition slice :: "bytes \<Rightarrow> nat \<Rightarrow> nat \<Rightarrow> bytes" where
  "slice bs a n = take n (drop a bs)"

fun parse_buffers :: "bytes \<Rightarrow> nat \<Rightarrow> nat \<Rightarrow> nat \<Rightarrow> pac_error + pac_buffer list" where
  "parse_buffers bs header_len 0 off = Inr []"
| "parse_buffers bs header_len (Suc n) off =
     (let kind = of_nat (le_val (slice bs off 4));
          size = le_val (slice bs (off + 4) 4);
          offset = le_val (slice bs (off + 8) 8) in
      if offset mod PAC_ALIGNMENT \<noteq> 0 then Inl PacMalformed
      else if offset < header_len \<or> offset > length bs \<or> size > length bs - offset then Inl PacTruncated
      else
        andthen (parse_buffers bs header_len n (off + 16)) (\<lambda>buffers.
          Inr (\<lparr>pb_kind = kind, pb_data = slice bs offset size, pb_offset = offset\<rparr> # buffers)))"

definition pac_parse :: "bytes \<Rightarrow> pac_error + pac" where
  "pac_parse bs =
     (if length bs < 8 then Inl PacMalformed
      else
        let count = le_val (slice bs 0 4);
            version = of_nat (le_val (slice bs 4 4)) in
        if version \<noteq> (0 :: u32) then Inl PacMalformed
        else if count < 1 \<or> MAX_BUFFERS < count then Inl PacTruncated
        else
          let header_len = 8 + 16 * count in
          if length bs < header_len then Inl PacTruncated
          else
            andthen (parse_buffers bs header_len count 8) (\<lambda>buffers.
              Inr \<lparr>pac_version = version, pac_buffers = buffers, pac_raw = bs\<rparr>))"

definition pac_pad :: "nat \<Rightarrow> nat" where
  "pac_pad n = (8 - n mod 8) mod 8"

text \<open>The headers and the payloads the loop of \<open>to_bytes\<close> collects, from a payload offset on.\<close>

fun pac_layout :: "nat \<Rightarrow> pac_buffer list \<Rightarrow> bytes \<times> bytes" where
  "pac_layout payload_off [] = ([], [])"
| "pac_layout payload_off (b # bs) =
     (let n = length (pb_data b);
          size = (if n < 2 ^ 32 then n else 0);
          (headers, payloads) = pac_layout (payload_off + n + pac_pad n) bs in
      (le32 (pb_kind b) @ le_bytes 4 size @ le_bytes 8 payload_off @ headers,
       pb_data b @ replicate (pac_pad n) 0 @ payloads))"

definition pac_to_bytes :: "pac \<Rightarrow> bytes" where
  "pac_to_bytes p =
     (let n = length (pac_buffers p);
          (headers, payloads) = pac_layout (8 + 16 * n) (pac_buffers p) in
      le_bytes 4 (if n < 2 ^ 32 then n else 2 ^ 32 - 1) @ le32 (pac_version p) @ headers @ payloads)"

definition pac_built :: "u32 \<Rightarrow> pac_buffer list \<Rightarrow> pac" where
  "pac_built version buffers = \<lparr>pac_version = version, pac_buffers = buffers, pac_raw = []\<rparr>"

definition unique_buffer :: "pac \<Rightarrow> u32 \<Rightarrow> pac_error + bytes option" where
  "unique_buffer p kind =
     (case filter (\<lambda>b. pb_kind b = kind) (pac_buffers p) of
        [] \<Rightarrow> Inr None
      | [b] \<Rightarrow> Inr (Some (pb_data b))
      | _ \<Rightarrow> Inl PacMalformed)"

subsection \<open>The octets under a signature\<close>

definition zero_signature_payload :: "bytes \<Rightarrow> bytes" where
  "zero_signature_payload data =
     (if length data > 4 then take 4 data @ replicate (length data - 4) 0 else data)"

definition zero_kinds :: "u32 list \<Rightarrow> pac_buffer \<Rightarrow> pac_buffer" where
  "zero_kinds kinds b =
     (if pb_kind b \<in> set kinds then b\<lparr>pb_data := zero_signature_payload (pb_data b)\<rparr> else b)"

definition bytes_zeroing :: "pac \<Rightarrow> u32 list \<Rightarrow> bytes" where
  "bytes_zeroing p kinds = pac_to_bytes (p\<lparr>pac_buffers := map (zero_kinds kinds) (pac_buffers p)\<rparr>)"

definition bytes_for_checksum :: "pac \<Rightarrow> bytes" where
  "bytes_for_checksum p = bytes_zeroing p [PAC_SERVER_CHECKSUM, PAC_PRIVSVR_CHECKSUM]"

definition bytes_for_full_checksum :: "pac \<Rightarrow> bytes" where
  "bytes_for_full_checksum p = bytes_zeroing p [PAC_SERVER_CHECKSUM, PAC_PRIVSVR_CHECKSUM, PAC_FULL_CHECKSUM]"

definition zero_range :: "nat \<Rightarrow> nat \<Rightarrow> bytes \<Rightarrow> bytes" where
  "zero_range a b bs = take a bs @ replicate (b - a) 0 @ drop b bs"

fun zero_in :: "pac \<Rightarrow> u32 list \<Rightarrow> bytes \<Rightarrow> pac_error + bytes" where
  "zero_in p [] copy = Inr copy"
| "zero_in p (kind # kinds) copy =
     (case filter (\<lambda>b. pb_kind b = kind) (pac_buffers p) of
        [] \<Rightarrow> Inl PacMissingBuffer
      | [b] \<Rightarrow>
          if length (pb_data b) < 4 then Inl PacTruncated
          else
            let start = pb_offset b + 4; fin = pb_offset b + length (pb_data b) in
            if 2 ^ 64 \<le> start \<or> 2 ^ 64 \<le> fin then Inl PacTruncated
            else if fin > length copy \<or> start > fin then Inl PacTruncated
            else zero_in p kinds (zero_range start fin copy)
      | _ \<Rightarrow> Inl PacMalformed)"

definition received_zeroed :: "pac \<Rightarrow> u32 list \<Rightarrow> pac_error + bytes" where
  "received_zeroed p kinds =
     (if pac_raw p = [] then
        (if \<exists>kind \<in> set kinds. \<not> (\<exists>b \<in> set (pac_buffers p). pb_kind b = kind) then Inl PacMissingBuffer
         else Inr (bytes_zeroing p kinds))
      else zero_in p kinds (pac_raw p))"

definition signature_buffer :: "int \<Rightarrow> bytes \<Rightarrow> bytes" where
  "signature_buffer ty mac = le32 (of_int ty) @ mac"

subsection \<open>Client information\<close>

text \<open>\<open>String::from_utf16\<close>, with the UTF-8 form of a code point.\<close>

definition utf8_chars :: "nat \<Rightarrow> string" where
  "utf8_chars cp =
     map char_of
       (if cp < 0x80 then [cp]
        else if cp < 0x800 then [0xC0 + cp div 64, 0x80 + cp mod 64]
        else if cp < 0x10000 then [0xE0 + cp div 4096, 0x80 + cp div 64 mod 64, 0x80 + cp mod 64]
        else [0xF0 + cp div 262144, 0x80 + cp div 4096 mod 64, 0x80 + cp div 64 mod 64, 0x80 + cp mod 64])"

fun from_utf16 :: "u16 list \<Rightarrow> string option" where
  "from_utf16 [] = Some []"
| "from_utf16 (u # us) =
     (if u < 0xD800 \<or> 0xDFFF < u then map_option ((@) (utf8_chars (unat u))) (from_utf16 us)
      else if 0xDC00 \<le> u then None
      else
        (case us of
           [] \<Rightarrow> None
         | v # vs \<Rightarrow>
             if v < 0xDC00 \<or> 0xDFFF < v then None
             else map_option ((@) (utf8_chars (0x10000 + (unat u - 0xD800) * 1024 + (unat v - 0xDC00))))
                    (from_utf16 vs)))"

definition unix_to_nt :: "u32 \<Rightarrow> nat" where
  "unix_to_nt u = min (min (unat u * 10000000) (2 ^ 64 - 1) + NT_UNIX_EPOCH) (2 ^ 64 - 1)"

definition client_info_buffer :: "u32 \<Rightarrow> string \<Rightarrow> bytes" where
  "client_info_buffer authtime_unix name =
     (let utf16 = concat (map le16 (encode_utf16 name));
          n = (if length utf16 < 2 ^ 16 then length utf16 else 2 ^ 16 - 1) in
      le_bytes 8 (unix_to_nt authtime_unix) @ le_bytes 2 n @ take n utf16)"

fun chunks2 :: "bytes \<Rightarrow> u16 list" where
  "chunks2 (a # b # bs) = of_nat (le_val [a, b]) # chunks2 bs"
| "chunks2 _ = []"

definition parse_client_info :: "bytes \<Rightarrow> (u32 \<times> string) option" where
  "parse_client_info buf =
     (if length buf < 10 then None
      else
        let nt = le_val (slice buf 0 8); nlen = le_val (slice buf 8 2) in
        if nlen mod 2 \<noteq> 0 \<or> length buf < 10 + nlen then None
        else
          Option.bind (from_utf16 (chunks2 (slice buf 10 nlen))) (\<lambda>name.
            let unix = (nt - NT_UNIX_EPOCH) div 10000000 in
            if unix < 2 ^ 32 then Some (of_nat unix, name) else None))"

definition pac_client_info_eq :: "pac \<Rightarrow> u32 \<Rightarrow> string \<Rightarrow> string option \<Rightarrow> bool" where
  "pac_client_info_eq p authtime name realm =
     (case unique_buffer p PAC_CLIENT_INFO of
        Inr (Some buf) \<Rightarrow>
          (case parse_client_info buf of
             None \<Rightarrow> False
           | Some (got_time, got_name) \<Rightarrow>
               let want = (case realm of Some r \<Rightarrow> name @ ''@'' @ r | None \<Rightarrow> name) in
               got_time = authtime \<and> got_name = want)
      | _ \<Rightarrow> False)"

subsection \<open>Layout\<close>

definition padded :: "pac_buffer \<Rightarrow> bytes" where
  "padded b = pb_data b @ replicate (pac_pad (length (pb_data b))) 0"

fun placed :: "nat \<Rightarrow> pac_buffer list \<Rightarrow> pac_buffer list" where
  "placed off [] = []"
| "placed off (b # bs) = b\<lparr>pb_offset := off\<rparr> # placed (off + length (padded b)) bs"

lemma pac_pad_mult: "(n + pac_pad n) mod 8 = 0"
proof -
  have "(n + pac_pad n) mod 8 = (n mod 8 + (8 - n mod 8)) mod 8"
    by (simp only: pac_pad_def mod_add_right_eq mod_add_left_eq)
  also have "n mod 8 + (8 - n mod 8) = 8"
    by (simp add: less_imp_le)
  finally show ?thesis
    by simp
qed

lemma length_padded: "length (padded b) = length (pb_data b) + pac_pad (length (pb_data b))"
  by (simp add: padded_def)

lemma pac_layout_payloads: "snd (pac_layout off bs) = concat (map padded bs)"
  by (induction bs arbitrary: off) (simp_all add: Let_def padded_def split_beta)

lemma length_pac_headers [simp]: "length (fst (pac_layout off bs)) = 16 * length bs"
  by (induction bs arbitrary: off) (simp_all add: Let_def split_beta)

lemma placed_same [simp]:
  "map pb_kind (placed off bs) = map pb_kind bs" "map pb_data (placed off bs) = map pb_data bs"
  "length (placed off bs) = length bs"
  by (induction bs arbitrary: off) simp_all

lemma placed_append:
  "placed off (xs @ ys) = placed off xs @ placed (off + length (concat (map padded xs))) ys"
  by (induction xs arbitrary: off) (simp_all add: add.assoc)

lemma slice_mid: "length x = n \<Longrightarrow> slice (a @ x @ c) (length a) n = x"
  by (simp add: slice_def)

lemma parse_buffers_layout:
  assumes "off = length (pre @ fst (pac_layout off bs) @ mid)" and "off mod 8 = 0"
    and "hl \<le> off" and "\<forall>b \<in> set bs. length (pb_data b) < 2 ^ 32"
    and "length (pre @ fst (pac_layout off bs) @ mid @ concat (map padded bs)) < 2 ^ 64"
  shows "parse_buffers (pre @ fst (pac_layout off bs) @ mid @ concat (map padded bs)) hl (length bs) (length pre)
    = Inr (placed off bs)"
  using assms
proof (induction bs arbitrary: off pre mid)
  case Nil
  then show ?case by simp
next
  case (Cons b bs)
  let ?d = "pb_data b"
  let ?off = "off + length (padded b)"
  let ?h = "le32 (pb_kind b) @ le_bytes 4 (length ?d) @ le_bytes 8 off"
  let ?hs = "fst (pac_layout ?off bs)"
  let ?ps = "concat (map padded bs)"
  let ?B = "pre @ (?h @ ?hs) @ mid @ padded b @ ?ps"
  have small: "length ?d < 2 ^ 32"
    using Cons.prems(4) by simp
  then have hdr: "fst (pac_layout off (b # bs)) = ?h @ ?hs"
    by (simp add: Let_def split_beta length_padded add.assoc)
  have B: "pre @ fst (pac_layout off (b # bs)) @ mid @ concat (map padded (b # bs)) = ?B"
    by (simp only: hdr) simp
  have len: "length ?B < 2 ^ 64"
    using Cons.prems(5) by (simp only: B)
  have off: "off = length (pre @ (?h @ ?hs) @ mid)"
    using Cons.prems(1) by (simp only: hdr)
  have "off < 2 ^ 64"
    using len off by simp
  then have o8: "le_val (le_bytes 8 off) = off"
    by (simp add: le_val_le_bytes_lt)
  have d4: "le_val (le_bytes 4 (length ?d)) = length ?d"
    using small by (simp add: le_val_le_bytes_lt)
  have s1: "slice ?B (length pre) 4 = le32 (pb_kind b)"
    using slice_mid [of "le32 (pb_kind b)" 4 pre] by simp
  have s2: "slice ?B (length pre + 4) 4 = le_bytes 4 (length ?d)"
    using slice_mid [of "le_bytes 4 (length ?d)" 4 "pre @ le32 (pb_kind b)"] by simp
  have s3: "slice ?B (length pre + 8) 8 = le_bytes 8 off"
    using slice_mid [of "le_bytes 8 off" 8 "pre @ le32 (pb_kind b) @ le_bytes 4 (length ?d)"] by simp
  have s4: "slice ?B off (length ?d) = ?d"
    using slice_mid [of ?d "length ?d" "pre @ (?h @ ?hs) @ mid" "replicate (pac_pad (length ?d)) 0 @ ?ps"] off
    by (simp add: padded_def)
  have mod: "?off mod 8 = 0"
    using Cons.prems(2) pac_pad_mult [of "length ?d"] by (simp add: length_padded mod_eq_0_iff_dvd)
  have "parse_buffers ((pre @ ?h) @ ?hs @ (mid @ padded b) @ ?ps) hl (length bs) (length (pre @ ?h)) = Inr (placed ?off bs)"
  proof (rule Cons.IH)
    show "?off = length ((pre @ ?h) @ ?hs @ (mid @ padded b))"
      using off by simp
    show "hl \<le> ?off"
      using Cons.prems(3) by simp
    show "length ((pre @ ?h) @ ?hs @ (mid @ padded b) @ ?ps) < 2 ^ 64"
      using len by simp
  qed (use mod Cons.prems(4) in simp_all)
  then have rest: "parse_buffers ?B hl (length bs) (length pre + 16) = Inr (placed ?off bs)"
    by simp
  have fits: "off \<le> length ?B" "length ?d \<le> length ?B - off"
    using off by (simp_all add: length_padded)
  have "parse_buffers ?B hl (Suc (length bs)) (length pre) = Inr (b\<lparr>pb_offset := off\<rparr> # placed ?off bs)"
    using Cons.prems(2,3) fits
    by (simp only: parse_buffers.simps Let_def s1 s2 s3 s4 o8 d4 rest of_le32) (cases b, simp)
  then show ?case
    by (simp only: B placed.simps length_Cons)
qed

text \<open>A certificate that can be written without truncating a length.\<close>

definition pac_fits :: "pac_buffer list \<Rightarrow> bool" where
  "pac_fits bs \<longleftrightarrow> 1 \<le> length bs \<and> length bs \<le> MAX_BUFFERS \<and> (\<forall>b \<in> set bs. length (pb_data b) < 2 ^ 32) \<and>
     8 + 16 * length bs + length (concat (map padded bs)) < 2 ^ 64"

lemma pac_to_bytes_eq:
  "pac_to_bytes (p\<lparr>pac_buffers := bs\<rparr>) =
     (le_bytes 4 (if length bs < 2 ^ 32 then length bs else 2 ^ 32 - 1) @ le32 (pac_version p)
       @ fst (pac_layout (8 + 16 * length bs) bs)) @ concat (map padded bs)"
  by (simp add: pac_to_bytes_def Let_def split_beta pac_layout_payloads)

lemma pac_parse_to_bytes:
  assumes "pac_fits bs"
  shows "pac_parse (pac_to_bytes (pac_built 0 bs)) =
    Inr \<lparr>pac_version = 0, pac_buffers = placed (8 + 16 * length bs) bs, pac_raw = pac_to_bytes (pac_built 0 bs)\<rparr>"
proof -
  let ?n = "length bs"
  let ?off = "8 + 16 * ?n"
  let ?pre = "le_bytes 4 ?n @ le32 (0 :: u32)"
  let ?B = "?pre @ fst (pac_layout ?off bs) @ [] @ concat (map padded bs)"
  have n: "?n < 2 ^ 32" "1 \<le> ?n" "?n \<le> 4096"
    using assms by (simp_all add: pac_fits_def)
  have B: "pac_to_bytes (pac_built 0 bs) = ?B"
    using n pac_to_bytes_eq [of bs "pac_built 0 bs"] by (simp add: pac_built_def)
  have len: "length ?B = ?off + length (concat (map padded bs))"
    by simp
  have "parse_buffers ?B ?off ?n (length ?pre) = Inr (placed ?off bs)"
    using assms by (intro parse_buffers_layout) (simp_all add: pac_fits_def mod_add_eq)
  then have parsed: "parse_buffers ?B ?off ?n 8 = Inr (placed ?off bs)"
    by simp
  have s1: "le_val (slice ?B 0 4) = ?n"
    using n slice_mid [of "le_bytes 4 ?n" 4 "[]"] by (simp add: le_val_le_bytes_lt)
  have s2: "of_nat (le_val (slice ?B 4 4)) = (0 :: u32)"
    using slice_mid [of "le32 (0 :: u32)" 4 "le_bytes 4 ?n"] of_le32 [of 0] by simp
  show ?thesis
    unfolding B pac_parse_def Let_def s1 s2 parsed using n len by (cases bs) simp_all
qed

subsection \<open>Signed octets\<close>

lemma zero_kinds_simps [simp]:
  "pb_kind (zero_kinds ks b) = pb_kind b" "length (pb_data (zero_kinds ks b)) = length (pb_data b)"
  "length (padded (zero_kinds ks b)) = length (padded b)"
  by (simp_all add: zero_kinds_def zero_signature_payload_def padded_def)

lemma pac_headers_zero_kinds: "fst (pac_layout off (map (zero_kinds ks) bs)) = fst (pac_layout off bs)"
  by (induction bs arbitrary: off) (simp_all add: Let_def split_beta)

lemma zero_range_mid:
  assumes "a = length A" and "4 \<le> length d"
  shows "zero_range (a + 4) (a + length d) (A @ d @ R) = A @ zero_signature_payload d @ R"
  using assms by (auto simp: zero_range_def zero_signature_payload_def)

lemma zero_signature_payload_idem: "zero_signature_payload (zero_signature_payload d) = zero_signature_payload d"
  by (simp add: zero_signature_payload_def)

lemma zero_kinds_Cons:
  "zero_kinds (k # ks) b =
     (if pb_kind b = k then b\<lparr>pb_data := zero_signature_payload (pb_data (zero_kinds ks b))\<rparr> else zero_kinds ks b)"
  by (cases b) (simp add: zero_kinds_def zero_signature_payload_idem)

lemma filter_single_split:
  assumes "filter P xs = [x]"
  obtains ys zs where "xs = ys @ x # zs" "P x" "\<forall>y \<in> set ys. \<not> P y" "\<forall>z \<in> set zs. \<not> P z"
proof -
  obtain ys zs where "xs = ys @ x # zs" "\<forall>y \<in> set ys. \<not> P y" "P x" "[] = filter P zs"
    using filter_eq_ConsD [OF assms] by blast
  then show ?thesis
    by (intro that [of ys zs]) (auto simp: filter_empty_conv [symmetric])
qed

lemma zero_kinds_other: "\<forall>y \<in> set ys. pb_kind y \<noteq> k \<Longrightarrow> map (zero_kinds (k # ks)) ys = map (zero_kinds ks) ys"
  by (simp add: zero_kinds_Cons)

text \<open>One pass of the loop of \<open>zero_in\<close>: zeroing in place is zeroing before writing.\<close>

lemma zero_in_place:
  assumes bs: "bs = xs @ b # ys" and "\<forall>y \<in> set xs \<union> set ys. pb_kind y \<noteq> pb_kind b"
    and "4 \<le> length (pb_data b)" and off: "off = length H + length (concat (map padded xs))"
  shows "zero_range (off + 4) (off + length (pb_data b)) (H @ concat (map padded (map (zero_kinds ks) bs)))
    = H @ concat (map padded (map (zero_kinds (pb_kind b # ks)) bs))"
proof -
  let ?z = "zero_kinds ks" and ?z' = "zero_kinds (pb_kind b # ks)"
  let ?pad = "replicate (pac_pad (length (pb_data b))) 0"
  let ?A = "H @ concat (map padded (map ?z xs))"
  let ?R = "?pad @ concat (map padded (map ?z ys))"
  have len: "length (concat (map padded (map ?z xs))) = length (concat (map padded xs))"
    by (induction xs) simp_all
  have "H @ concat (map padded (map ?z bs)) = ?A @ pb_data (?z b) @ ?R"
    unfolding bs by (simp add: padded_def)
  moreover have "H @ concat (map padded (map ?z' bs)) = ?A @ zero_signature_payload (pb_data (?z b)) @ ?R"
  proof -
    have "map ?z' xs = map ?z xs" "map ?z' ys = map ?z ys"
      using assms(2) by (simp_all add: zero_kinds_Cons)
    moreover have "padded (?z' b) = zero_signature_payload (pb_data (?z b)) @ ?pad"
      by (simp add: zero_kinds_Cons padded_def zero_signature_payload_def)
    ultimately show ?thesis
      unfolding bs by (simp only: map_append list.map concat_append concat.simps append_assoc)
  qed
  moreover have "zero_range (off + 4) (off + length (pb_data (?z b))) (?A @ pb_data (?z b) @ ?R)
      = ?A @ zero_signature_payload (pb_data (?z b)) @ ?R"
    using assms(3) off len by (intro zero_range_mid) simp_all
  ultimately show ?thesis
    by simp
qed

lemma zero_in_placed:
  assumes "pac_buffers q = placed (length H) bs"
    and "\<forall>k \<in> set ks. \<exists>b. filter (\<lambda>b. pb_kind b = k) bs = [b] \<and> 4 \<le> length (pb_data b)"
    and "length H + length (concat (map padded bs)) < 2 ^ 64"
  shows "\<exists>zs. set zs = set ks \<union> set done \<and>
    zero_in q ks (H @ concat (map padded (map (zero_kinds done) bs))) = Inr (H @ concat (map padded (map (zero_kinds zs) bs)))"
  using assms(2)
proof (induction ks arbitrary: "done")
  case Nil
  then show ?case by auto
next
  case (Cons k ks)
  let ?copy = "H @ concat (map padded (map (zero_kinds done) bs))"
  obtain b where b: "filter (\<lambda>b. pb_kind b = k) bs = [b]" "4 \<le> length (pb_data b)"
    using Cons.prems by auto
  obtain xs ys where bs: "bs = xs @ b # ys" "pb_kind b = k" "\<forall>y \<in> set xs. pb_kind y \<noteq> k" "\<forall>y \<in> set ys. pb_kind y \<noteq> k"
    using filter_single_split [OF b(1)] by metis
  let ?off = "length H + length (concat (map padded xs))"
  have none: "filter (\<lambda>b. pb_kind b = k) (placed o' zs) = []" if "\<forall>y \<in> set zs. pb_kind y \<noteq> k" for o' zs
    using that by (induction zs arbitrary: o') simp_all
  have hit: "filter (\<lambda>b. pb_kind b = k) (pac_buffers q) = [b\<lparr>pb_offset := ?off\<rparr>]"
    using bs(2-) by (simp add: assms(1) bs(1) placed_append none)
  have len: "length (concat (map padded (map (zero_kinds done) zs))) = length (concat (map padded zs))" for zs
    by (induction zs) simp_all
  have fin: "?off + length (pb_data b) \<le> length ?copy" "?off + length (pb_data b) < 2 ^ 64"
    using assms(3) unfolding length_append len by (simp_all add: bs(1) length_padded)
  have "zero_range (?off + 4) (?off + length (pb_data b)) ?copy = H @ concat (map padded (map (zero_kinds (k # done)) bs))"
    using zero_in_place [OF bs(1) _ b(2) refl, of H "done"] bs(2-) by auto
  then have "zero_in q (k # ks) ?copy = zero_in q ks (H @ concat (map padded (map (zero_kinds (k # done)) bs)))"
    using fin b(2) by (simp add: hit Let_def)
  moreover obtain zs where "set zs = set ks \<union> set (k # done)"
    "zero_in q ks (H @ concat (map padded (map (zero_kinds (k # done)) bs))) = Inr (H @ concat (map padded (map (zero_kinds zs) bs)))"
    using Cons.IH [of "k # done"] Cons.prems by auto
  ultimately show ?case
    by (intro exI [of _ zs]) auto
qed

lemma zero_kinds_set: "set ks = set zs \<Longrightarrow> zero_kinds ks = zero_kinds zs"
  by (simp add: zero_kinds_def fun_eq_iff)

lemma received_zeroed_parsed:
  assumes "pac_fits bs" and "pac_parse (pac_to_bytes (pac_built 0 bs)) = Inr q"
    and "\<forall>k \<in> set ks. \<exists>b. filter (\<lambda>b. pb_kind b = k) bs = [b] \<and> 4 \<le> length (pb_data b)"
  shows "received_zeroed q ks = Inr (bytes_zeroing (pac_built 0 bs) ks)"
proof -
  let ?n = "length bs"
  let ?H = "le_bytes 4 (if ?n < 2 ^ 32 then ?n else 2 ^ 32 - 1) @ le32 (0 :: u32) @ fst (pac_layout (8 + 16 * ?n) bs)"
  have id: "zero_kinds [] = (\<lambda>b. b)"
    by (simp add: zero_kinds_def fun_eq_iff)
  have zeroed: "bytes_zeroing (pac_built 0 bs) zs = ?H @ concat (map padded (map (zero_kinds zs) bs))" for zs
    using pac_to_bytes_eq [of "map (zero_kinds zs) bs" "pac_built 0 bs"]
    by (simp add: bytes_zeroing_def pac_built_def pac_headers_zero_kinds)
  have H: "length ?H = 8 + 16 * ?n"
    by simp
  have q: "pac_buffers q = placed (length ?H) bs"
    "pac_raw q = ?H @ concat (map padded (map (zero_kinds []) bs))"
    using assms(2) zeroed [of "[]"] unfolding pac_parse_to_bytes [OF assms(1)] H
    by (auto simp: bytes_zeroing_def id)
  have "length ?H + length (concat (map padded bs)) < 2 ^ 64"
    unfolding H using assms(1) by (simp add: pac_fits_def)
  from zero_in_placed [OF q(1) assms(3) this, of "[]"]
  obtain zs where zs: "set zs = set ks"
    "zero_in q ks (pac_raw q) = Inr (?H @ concat (map padded (map (zero_kinds zs) bs)))"
    unfolding q(2) by auto
  have "0 < length (pac_raw q)"
    unfolding q(2) by simp
  then show ?thesis
    using zs zero_kinds_set [OF zs(1)] by (simp add: received_zeroed_def zeroed)
qed

subsection \<open>UTF-16\<close>

lemma base64_digits:
  assumes "y < (64 :: nat)"
  shows "(x * 64 + y) div 64 = x" "(x * 64 + y) mod 64 = y"
  using assms by simp_all

lemma div_4096: "(n :: nat) div 4096 = n div 64 div 64"
  by (simp add: div_mult2_eq [symmetric])

lemma div_262144: "(n :: nat) div 262144 = n div 64 div 64 div 64"
  by (simp add: div_mult2_eq [symmetric])

lemma utf8_chars_2:
  "2 \<le> x \<Longrightarrow> x < 32 \<Longrightarrow> y < 64 \<Longrightarrow> utf8_chars (x * 64 + y) = map char_of [192 + x, 128 + y]"
  by (simp add: utf8_chars_def base64_digits)

lemma utf8_chars_3:
  assumes "x < 16" "y < 64" "z < 64" "x = 0 \<longrightarrow> 32 \<le> y"
  shows "utf8_chars ((x * 64 + y) * 64 + z) = map char_of [224 + x, 128 + y, 128 + z]"
proof -
  have "0x800 \<le> (x * 64 + y) * 64 + z" "(x * 64 + y) * 64 + z < 0x10000"
    using assms by (cases "x = 0"; simp)+
  then show ?thesis
    using assms by (simp only: utf8_chars_def div_4096 base64_digits) simp
qed

lemma utf8_chars_4:
  assumes "x < 8" "y < 64" "z < 64" "w < 64" "x = 0 \<longrightarrow> 16 \<le> y"
  shows "utf8_chars (((x * 64 + y) * 64 + z) * 64 + w) = map char_of [240 + x, 128 + y, 128 + z, 128 + w]"
proof -
  have "0x10000 \<le> ((x * 64 + y) * 64 + z) * 64 + w"
    using assms by (cases "x = 0"; simp)
  then show ?thesis
    using assms by (simp only: utf8_chars_def div_4096 div_262144 base64_digits) simp
qed

lemma cp_3_bound: "x < 16 \<Longrightarrow> y < 64 \<Longrightarrow> z < 64 \<Longrightarrow> (x * 64 + y) * 64 + z < (0x110000 :: nat)"
  by simp

lemma cp_4_bounds:
  assumes "x \<le> 4" "y < 64" "z < 64" "w < (64 :: nat)" "x = 0 \<longrightarrow> 16 \<le> y" "x = 4 \<longrightarrow> y < 16"
  shows "0xE000 \<le> ((x * 64 + y) * 64 + z) * 64 + w \<and> ((x * 64 + y) * 64 + z) * 64 + w < 0x110000"
proof -
  have "x = 0 \<or> x = 1 \<or> x = 2 \<or> x = 3 \<or> x = 4"
    using assms(1) by linarith
  with assms(2-) show ?thesis
    by auto
qed

lemma char_of_ord_of [simp]: "char_of (ord_of c) = c"
  by (simp add: ord_of_def)

text \<open>A character read by \<open>utf8_step\<close> is the UTF-8 form of its code point, which is a Unicode scalar value.\<close>

lemma utf8_step_code:
  assumes "utf8_step s = (True, n)" and "s \<noteq> []"
  shows "utf8_chars (utf8_code s n) = take n s \<and> (utf8_code s n < 0xD800 \<or> 0xE000 \<le> utf8_code s n) \<and>
    utf8_code s n < 0x110000"
proof -
  have n: "n \<le> length s"
    using utf8_step_take [OF assms] by blast
  obtain c s' where s: "s = c # s'"
    using assms(2) by (cases s) auto
  let ?b = "ord_of c"
  have "utf8_width ?b \<in> {0, 1, 2, 3, 4}"
    by (simp add: utf8_width_def)
  then consider "utf8_width ?b = 0" | "utf8_width ?b = 1" | "utf8_width ?b = 2" | "utf8_width ?b = 3" | "utf8_width ?b = 4"
    by (elim insertE emptyE)
  then show ?thesis
  proof cases
    case 1
    with assms s show ?thesis by (simp add: Let_def)
  next
    case 2
    with assms s have "n = Suc 0" "?b < 128"
      by (auto simp: Let_def utf8_width_def split: if_splits)
    then show ?thesis
      using s by (simp add: utf8_code_def safe_get_def utf8_chars_def)
  next
    case 3
    with assms s have a: "n = 2" "utf8_cont (safe_get s' 0)" "194 \<le> ?b" "?b < 224"
      by (auto simp: Let_def utf8_width_def split: if_splits)
    then obtain d t where d: "s' = d # t" "128 \<le> ord_of d" "ord_of d < 192"
      by (cases s') (auto simp: safe_get_def utf8_cont_def)
    have "utf8_chars ((?b - 192) * 64 + (ord_of d - 128)) = map char_of [192 + (?b - 192), 128 + (ord_of d - 128)]"
      using a d by (intro utf8_chars_2) linarith+
    moreover have "utf8_code s n = (?b - 192) * 64 + (ord_of d - 128)"
      using a s d by (simp add: utf8_code_def safe_get_def)
    moreover have "(?b - 192) * 64 + (ord_of d - 128) < 0x800"
      using a d by linarith
    ultimately show ?thesis
      using a s d by simp
  next
    case 4
    with assms s have a: "n = 3" "utf8_second ?b (safe_get s' 0)" "utf8_cont (safe_get s' 1)" "224 \<le> ?b" "?b < 240"
      by (auto simp: Let_def utf8_width_def split: if_splits)
    then obtain d e t where d: "s' = d # e # t"
      using s n by (cases s' rule: remdups_adj.cases) auto
    then have r: "128 \<le> ord_of d" "ord_of d < 192" "128 \<le> ord_of e" "ord_of e < 192" "?b = 224 \<longrightarrow> 160 \<le> ord_of d"
      "?b = 237 \<longrightarrow> ord_of d < 160"
      using a by (auto simp: safe_get_def utf8_cont_def utf8_second_def split: if_splits)
    have "utf8_chars (((?b - 224) * 64 + (ord_of d - 128)) * 64 + (ord_of e - 128))
        = map char_of [224 + (?b - 224), 128 + (ord_of d - 128), 128 + (ord_of e - 128)]"
      using a r by (intro utf8_chars_3) linarith+
    moreover have "utf8_code s n = ((?b - 224) * 64 + (ord_of d - 128)) * 64 + (ord_of e - 128)"
      using a s d by (simp add: utf8_code_def safe_get_def)
    moreover have "((?b - 224) * 64 + (ord_of d - 128)) * 64 + (ord_of e - 128) < 0xD800 \<or>
        0xE000 \<le> ((?b - 224) * 64 + (ord_of d - 128)) * 64 + (ord_of e - 128)"
      using a r by (cases "?b = 237"; cases "?b < 237"; simp; linarith)
    moreover have "((?b - 224) * 64 + (ord_of d - 128)) * 64 + (ord_of e - 128) < 0x110000"
      by (rule cp_3_bound) (use a r in linarith)+
    ultimately show ?thesis
      using a s d r by simp
  next
    case 5
    with assms s have a: "n = 4" "utf8_second ?b (safe_get s' 0)" "utf8_cont (safe_get s' 1)" "utf8_cont (safe_get s' 2)"
      "240 \<le> ?b" "?b < 245"
      by (auto simp: Let_def utf8_width_def split: if_splits)
    then have "3 \<le> length s'"
      using s n by simp
    then obtain d e f t where d: "s' = d # e # f # t"
      by (cases s'; cases "tl s'"; cases "tl (tl s')") auto
    then have r: "128 \<le> ord_of d" "ord_of d < 192" "128 \<le> ord_of e" "ord_of e < 192" "128 \<le> ord_of f" "ord_of f < 192"
      "?b = 240 \<longrightarrow> 144 \<le> ord_of d" "?b = 244 \<longrightarrow> ord_of d < 144"
      using a by (auto simp: safe_get_def utf8_cont_def utf8_second_def split: if_splits)
    let ?cp = "(((?b - 240) * 64 + (ord_of d - 128)) * 64 + (ord_of e - 128)) * 64 + (ord_of f - 128)"
    have "utf8_chars ?cp = map char_of [240 + (?b - 240), 128 + (ord_of d - 128), 128 + (ord_of e - 128), 128 + (ord_of f - 128)]"
      using a r by (intro utf8_chars_4) linarith+
    moreover have "utf8_code s n = ?cp"
      using a s d by (simp add: utf8_code_def safe_get_def)
    moreover have "0xE000 \<le> ?cp \<and> ?cp < 0x110000"
      by (rule cp_4_bounds) (use a r in linarith)+
    ultimately show ?thesis
      using a s d r by simp
  qed
qed

lemma unat_of_nat_u16: "n < 0x10000 \<Longrightarrow> unat (of_nat n :: u16) = n"
  by (simp add: unat_of_nat)

lemma from_utf16_units:
  assumes "cp < 0xD800 \<or> 0xE000 \<le> cp" and "cp < 0x110000"
  shows "from_utf16 (utf16_units cp @ us) = map_option ((@) (utf8_chars cp)) (from_utf16 us)"
proof (cases "cp < 0x10000")
  case True
  then have "unat (of_nat cp :: u16) = cp"
    by (simp add: unat_of_nat)
  with True assms(1) show ?thesis
    by (auto simp: utf16_units_def word_less_nat_alt)
next
  case False
  let ?hi = "0xD800 + (cp - 0x10000) div 1024" and ?lo = "0xDC00 + (cp - 0x10000) mod 1024"
  have b: "?hi < 0xDC00" "?lo < 0xE000"
    using assms(2) by (simp_all add: less_mult_imp_div_less)
  have "unat (of_nat ?hi :: u16) = ?hi" "unat (of_nat ?lo :: u16) = ?lo"
    by (rule unat_of_nat_u16, use b in linarith)+
  moreover have "0x10000 + (?hi - 0xD800) * 1024 + (?lo - 0xDC00) = cp"
    using False by simp
  ultimately show ?thesis
    using False b(1)
    by (simp add: utf16_units_def word_less_nat_alt word_le_nat_alt del: of_nat_add) (use b(2) in linarith)
qed

lemma from_utf16_encode: "utf8_valid s \<Longrightarrow> from_utf16 (encode_utf16 s) = Some s"
proof (induction s rule: encode_utf16.induct)
  case (1 s)
  show ?case
  proof (cases "s = []")
    case False
    obtain ok n where st: "utf8_step s = (ok, n)"
      by (cases "utf8_step s")
    with 1(2) False have ok: "ok" and "utf8_valid (drop n s)"
      by (simp_all add: utf8_valid.simps [of s])
    with 1(1) [OF False st [symmetric] refl] have "from_utf16 (encode_utf16 (drop n s)) = Some (drop n s)"
      by blast
    moreover have "encode_utf16 s = utf16_units (utf8_code s n) @ encode_utf16 (drop n s)"
      using False st by (subst encode_utf16.simps) simp
    ultimately show ?thesis
      using utf8_step_code [of s n] st ok False by (simp add: from_utf16_units)
  qed (simp add: encode_utf16.simps)
qed

lemma chunks2_le16: "chunks2 (concat (map le16 us)) = us"
proof (induction us)
  case (Cons u us)
  obtain a b where ab: "le16 u = [a, b]"
    using length_le_bytes [of 2 "unat u"] by (auto simp: length_Suc_conv numeral_2_eq_2 simp del: length_le_bytes)
  have "of_nat (le_val [a, b]) = u"
    using of_le16 [of u] by (simp only: ab)
  with Cons ab show ?case
    by simp
qed simp

lemma encode_utf16_octets: "length (concat (map le16 (encode_utf16 s))) = 2 * length (encode_utf16 s)"
  by (induction "encode_utf16 s" rule: rev_induct) (simp_all add: sum_list_triv length_concat comp_def)

lemma unix_to_nt_exact: "unix_to_nt u = unat u * 10000000 + NT_UNIX_EPOCH" "unix_to_nt u < 256 ^ 8"
proof -
  have "unat u < 2 ^ 32"
    using unat_less_pow [of u] by simp
  then show "unix_to_nt u = unat u * 10000000 + NT_UNIX_EPOCH" "unix_to_nt u < 256 ^ 8"
    by (simp_all add: unix_to_nt_def)
qed

lemma client_info_read_back:
  assumes "utf8_valid name"
  shows "parse_client_info (client_info_buffer t name) =
    (if length (encode_utf16 name) < 2 ^ 15 then Some (t, name) else None)"
proof -
  let ?u = "concat (map le16 (encode_utf16 name))"
  let ?n = "if length ?u < 2 ^ 16 then length ?u else 2 ^ 16 - 1"
  let ?B = "le_bytes 8 (unix_to_nt t) @ le_bytes 2 ?n @ take ?n ?u"
  have B: "client_info_buffer t name = ?B"
    by (simp add: client_info_buffer_def Let_def)
  have n: "?n < 256 ^ 2" "?n \<le> length ?u"
    by auto
  have s1: "le_val (slice ?B 0 8) = unix_to_nt t"
    using slice_mid [of "le_bytes 8 (unix_to_nt t)" 8 "[]"] unix_to_nt_exact(2) by (simp add: le_val_le_bytes_lt)
  have s2: "le_val (slice ?B 8 2) = ?n"
    using slice_mid [of "le_bytes 2 ?n" 2 "le_bytes 8 (unix_to_nt t)" "take ?n ?u"] n(1)
    by (simp only: length_le_bytes le_val_le_bytes_lt)
  have s3: "slice ?B 10 ?n = take ?n ?u"
    using slice_mid [of "take ?n ?u" ?n "le_bytes 8 (unix_to_nt t) @ le_bytes 2 ?n" "[]"] n(2) by simp
  have len: "length ?B = 10 + ?n"
    using n(2) by simp
  have "unat t < 2 ^ 32"
    using unat_less_pow [of t] by simp
  then have "(unix_to_nt t - NT_UNIX_EPOCH) div 10000000 = unat t"
    by (simp add: unix_to_nt_exact)
  then show ?thesis
    unfolding B parse_client_info_def Let_def s1 s2 s3 len
    using assms \<open>unat t < 2 ^ 32\<close> encode_utf16_octets [of name]
    by (simp add: chunks2_le16 from_utf16_encode)
qed

subsection \<open>Properties\<close>

text \<open>
  C38: Both sides sign the same octets.  A certificate of at most 4096 buffers whose lengths fit their fields is
  written and read back with the same buffers; and for signature kinds that each occur once with their four
  octets of checksum type, zeroing the signatures inside the received octets gives exactly the octets the
  issuer computed its checksums over, before the signatures were filled in.
\<close>
theorem pac_signed_octets:
  assumes "pac_fits bs"
  shows "\<exists>q. pac_parse (pac_to_bytes (pac_built 0 bs)) = Inr q \<and>
    map pb_kind (pac_buffers q) = map pb_kind bs \<and> map pb_data (pac_buffers q) = map pb_data bs \<and>
    (\<forall>ks. (\<forall>k \<in> set ks. \<exists>b. filter (\<lambda>b. pb_kind b = k) bs = [b] \<and> 4 \<le> length (pb_data b)) \<longrightarrow>
       received_zeroed q ks = Inr (bytes_zeroing (pac_built 0 bs) ks))"
  using pac_parse_to_bytes [OF assms] received_zeroed_parsed [OF assms] by simp

theorem pac_signed_octets_witness:
  "\<exists>q. pac_parse (pac_to_bytes (pac_built 0 [\<lparr>pb_kind = 10, pb_data = [1, 2, 3], pb_offset = 0\<rparr>,
       \<lparr>pb_kind = 6, pb_data = [4, 5, 6, 7, 8, 9], pb_offset = 0\<rparr>])) = Inr q \<and>
     received_zeroed q [6] = Inr (bytes_zeroing (pac_built 0 [\<lparr>pb_kind = 10, pb_data = [1, 2, 3], pb_offset = 0\<rparr>,
       \<lparr>pb_kind = 6, pb_data = [4, 5, 6, 7, 8, 9], pb_offset = 0\<rparr>]) [6])"
proof -
  let ?bs = "[\<lparr>pb_kind = 10, pb_data = [1, 2, 3], pb_offset = 0\<rparr>,
       \<lparr>pb_kind = 6, pb_data = [4, 5, 6, 7, 8, 9], pb_offset = 0\<rparr>]"
  have "pac_fits ?bs"
    by (simp add: pac_fits_def padded_def pac_pad_def)
  from pac_signed_octets [OF this]
  obtain q where "pac_parse (pac_to_bytes (pac_built 0 ?bs)) = Inr q"
    "\<forall>ks. (\<forall>k \<in> set ks. \<exists>b. filter (\<lambda>b. pb_kind b = k) ?bs = [b] \<and> 4 \<le> length (pb_data b)) \<longrightarrow>
       received_zeroed q ks = Inr (bytes_zeroing (pac_built 0 ?bs) ks)"
    by (elim exE conjE) (rule that; assumption)
  then show ?thesis
    by (intro exI [of _ q]) simp
qed

text \<open>
  C39: The client information binds the name and the time.  What \<open>client_info_buffer\<close> writes for a valid
  name is read back with the same time and the same name if the name has fewer than 32768 UTF-16 units; for a
  longer name the written length is odd and the reader refuses the buffer, so such a client is never taken for
  another one.
\<close>
theorem client_info_exact:
  assumes "utf8_valid name"
  shows "parse_client_info (client_info_buffer t name) =
    (if length (encode_utf16 name) < 2 ^ 15 then Some (t, name) else None)"
  using assms by (rule client_info_read_back)

theorem client_info_exact_witness: "parse_client_info (client_info_buffer 7 ''al'') = Some (7, ''al'')"
proof -
  have "utf8_valid ''al''"
    by code_simp
  moreover have "length (encode_utf16 ''al'') = 2"
    by (simp add: encode_utf16.simps Let_def utf8_width_def utf8_code_def safe_get_def ord_of_def utf16_units_def)
  ultimately show ?thesis
    using client_info_exact [of "''al''" 7] by simp
qed

end
