(* ===== verification/Der.thy ===== *)
theory Der
  imports Rust_Text
begin

text \<open>
  The hand-written DER routines: writing and reading of tag-length-value elements
  (\<open>crates/krb5-types/src/der.rs\<close>, \<open>crates/krb5-kdc/src/der.rs\<close>), the tag reader behind the KDC's decoding
  error texts (\<open>crates/krb5-kdc/src/asn1_text.rs\<close>) and the search for the octets of a request body that a
  checksum covers (\<open>kdc_req_body_der\<close> in \<open>issue/kdc_util.rs\<close>).  A \<open>usize\<close> is a 64-bit word where it is
  assembled from octets.
\<close>

subsection \<open>Writing\<close>

fun len_len_loop :: "nat \<Rightarrow> nat \<Rightarrow> nat" where
  "len_len_loop n llen = (if n > 0 then len_len_loop (n div 256) (llen + 1) else llen)"

declare len_len_loop.simps [simp del]

definition len_len :: "nat \<Rightarrow> nat" where
  "len_len len = (if len < 128 then 1 else len_len_loop len 1)"

definition push_len :: "nat \<Rightarrow> bytes" where
  "push_len len =
     (let llen = len_len len in
      if llen = 1 then [of_nat len]
      else (0x80 OR of_nat (llen - 1)) # drop (8 - (llen - 1)) (be_bytes 8 len))"

definition push_tlv :: "u8 \<Rightarrow> bytes \<Rightarrow> bytes" where
  "push_tlv tag val = tag # push_len (length val) @ val"

subsection \<open>Reading\<close>

definition usize_of :: "bytes \<Rightarrow> u64" where
  "usize_of octets = foldl (\<lambda>len b. push_bit 8 len OR ucast b) 0 octets"

definition read_len :: "bytes \<Rightarrow> (nat \<times> nat) option" where
  "read_len input =
     (case input of
        [] \<Rightarrow> None
      | first # rest \<Rightarrow>
          Option.bind
            (if first < 0x80 then Some (unat first, 1)
             else
               let llen = unat (first AND 0x7F) in
               if llen = 0 \<or> llen > 8 then None
               else if length rest < llen then None
               else Some (unat (usize_of (take llen rest)), 1 + llen))
            (\<lambda>(len, hlen). if len \<le> length input - hlen then Some (len, hlen) else None))"

definition take_der :: "bytes \<Rightarrow> (u8 \<times> bytes \<times> bytes) option" where
  "take_der input =
     (case input of
        [] \<Rightarrow> None
      | tag # after \<Rightarrow>
          (case read_len after of
             None \<Rightarrow> None
           | Some (ln, hlen) \<Rightarrow>
               let start = 1 + hlen; fin = start + ln in
               if 2 ^ 64 \<le> fin \<or> length input < fin then None
               else Some (tag, take ln (drop start input), drop fin input)))"

text \<open>The loop of \<open>kdc_req_body_der\<close> over the fields of a request.\<close>

function find_body :: "bytes \<Rightarrow> bytes option" where
  "find_body cur =
     (if cur = [] then None
      else
        case take_der cur of
          None \<Rightarrow> None
        | Some (tag, inner, rest) \<Rightarrow> if tag = 0xa4 then Some inner else find_body rest)"
  by auto
termination
  by (relation "measure length") (auto simp: take_der_def Let_def split: list.splits option.splits if_splits)

declare find_body.simps [simp del]

definition kdc_req_body_der :: "bytes \<Rightarrow> bytes option" where
  "kdc_req_body_der raw =
     (case take_der raw of
        None \<Rightarrow> None
      | Some (tag, app, _) \<Rightarrow>
          if tag \<noteq> 0x6a \<and> tag \<noteq> 0x6c then None
          else
            (case take_der app of
               None \<Rightarrow> None
             | Some (t, seq, _) \<Rightarrow> find_body (if t = 0x30 then seq else app)))"

subsection \<open>The tag reader of the error texts\<close>

datatype asn1_text =
    Asn1MissingField | Asn1Overflow | Asn1Overrun | Asn1BadId | Asn1BadLength | Asn1BadFormat
  | Asn1ParseError | Asn1Indef

fun asn1_code :: "asn1_text \<Rightarrow> int" where
  "asn1_code Asn1MissingField = 1859794432 + 1"
| "asn1_code Asn1Overflow = 1859794432 + 4"
| "asn1_code Asn1Overrun = 1859794432 + 5"
| "asn1_code Asn1BadId = 1859794432 + 6"
| "asn1_code Asn1BadLength = 1859794432 + 7"
| "asn1_code Asn1BadFormat = 1859794432 + 8"
| "asn1_code Asn1Indef = 1859794432 + 11"
| "asn1_code Asn1ParseError = 1859794432 + 9"

record tlv =
  tlv_class :: u8
  tlv_constructed :: bool
  tlv_tagnum :: u32
  tlv_contents :: bytes
  tlv_rest :: bytes

abbreviation (input) TAGNUM_MAX :: u32 where "TAGNUM_MAX \<equiv> 0x7ffffffe"

fun tag_loop :: "bytes \<Rightarrow> u32 \<Rightarrow> asn1_text + u32 \<times> bytes" where
  "tag_loop [] tagnum = Inl Asn1Overrun"
| "tag_loop (b # q) tagnum =
     (if tagnum > drop_bit 7 TAGNUM_MAX then Inl Asn1Overflow
      else
        let tagnum = push_bit 7 tagnum OR ucast (b AND 0x7F) in
        if b AND 0x80 = 0 then Inr (tagnum, q) else tag_loop q tagnum)"

definition get_tag :: "bytes \<Rightarrow> asn1_text + tlv" where
  "get_tag asn1 =
     (case asn1 of
        [] \<Rightarrow> Inl Asn1Overrun
      | o1 # p \<Rightarrow>
          andthen
            (if o1 AND 0x1F = 0x1F then
               andthen (tag_loop p 0) (\<lambda>(tagnum, q).
                 if tagnum > TAGNUM_MAX then Inl Asn1Overflow else Inr (tagnum, q))
             else Inr (ucast (o1 AND 0x1F), p))
            (\<lambda>(tagnum, p).
               case p of
                 [] \<Rightarrow> Inl Asn1Overrun
               | l # p \<Rightarrow>
                   andthen
                     (if l AND 0x80 = 0 then Inr (unat l, p)
                      else
                        let llen = unat (l AND 0x7F) in
                        if llen > length p then Inl Asn1Overrun
                        else if llen > 8 then Inl Asn1Overflow
                        else if llen = 0 then Inl Asn1Indef
                        else Inr (unat (usize_of (take llen p)), drop llen p))
                     (\<lambda>(clen, p).
                        if clen > length p then Inl Asn1Overrun
                        else Inr \<lparr>tlv_class = o1 AND 0xC0, tlv_constructed = (o1 AND 0x20 \<noteq> 0),
                                  tlv_tagnum = tagnum, tlv_contents = take clen p, tlv_rest = drop clen p\<rparr>)))"

definition decode_failure_text :: "bytes \<Rightarrow> bool \<Rightarrow> asn1_text" where
  "decode_failure_text der first_field_explicit =
     (case get_tag der of
        Inl t \<Rightarrow> t
      | Inr outer \<Rightarrow>
          if tlv_class outer \<noteq> 0 \<or> \<not> tlv_constructed outer \<or> tlv_tagnum outer \<noteq> 16 then Asn1BadId
          else if tlv_contents outer = [] then Asn1MissingField
          else
            (case get_tag (tlv_contents outer) of
               Inl t \<Rightarrow> t
             | Inr first \<Rightarrow>
                 if tlv_class first = 0x80 \<and> tlv_tagnum first = 0 \<and> (\<not> first_field_explicit \<or> tlv_constructed first)
                 then Asn1Overrun else Asn1MissingField))"

definition pa_spake_failure_text :: "bytes \<Rightarrow> asn1_text" where
  "pa_spake_failure_text der =
     (case get_tag der of
        Inl t \<Rightarrow> t
      | Inr top1 \<Rightarrow>
          (case get_tag (tlv_contents top1) of
             Inl t \<Rightarrow> t
           | Inr inner \<Rightarrow>
               if tlv_class inner \<noteq> 0 \<or> \<not> tlv_constructed inner \<or> tlv_tagnum inner \<noteq> 16 then Asn1BadId
               else Asn1MissingField))"

definition asn1_outer_text :: "bytes \<Rightarrow> u8 \<Rightarrow> u32 \<Rightarrow> asn1_text option" where
  "asn1_outer_text der cls tagnum =
     (case get_tag der of
        Inl t \<Rightarrow> Some t
      | Inr t \<Rightarrow>
          if tlv_class t \<noteq> cls \<or> \<not> tlv_constructed t \<or> tlv_tagnum t \<noteq> tagnum then Some Asn1BadId else None)"

fun asn1_str :: "asn1_text \<Rightarrow> string" where
  "asn1_str Asn1MissingField = ''ASN.1 structure is missing a required field''"
| "asn1_str Asn1Overflow = ''ASN.1 value too large''"
| "asn1_str Asn1Overrun = ''ASN.1 encoding ended unexpectedly''"
| "asn1_str Asn1BadId = ''ASN.1 identifier doesn'' @ [CHR 0x27] @ ''t match expected value''"
| "asn1_str Asn1BadLength = ''ASN.1 length doesn'' @ [CHR 0x27] @ ''t match expected value''"
| "asn1_str Asn1BadFormat = ''ASN.1 badly-formatted encoding''"
| "asn1_str Asn1ParseError = ''ASN.1 parse error''"
| "asn1_str Asn1Indef = ''ASN.1 indefinite encoding''"

text \<open>\<open>str::find\<close> on a text pattern, with the text before and behind its first occurrence; \<open>str::contains\<close>
  and the two uses of \<open>str::split\<close>.\<close>

fun find_pat :: "string \<Rightarrow> string \<Rightarrow> (string \<times> string) option" where
  "find_pat pat s =
     (case strip_prefix pat s of
        Some r \<Rightarrow> Some ([], r)
      | None \<Rightarrow>
          (case s of
             [] \<Rightarrow> None
           | c # cs \<Rightarrow> map_option (\<lambda>(a, b). (c # a, b)) (find_pat pat cs)))"

declare find_pat.simps [simp del]

definition str_contains :: "string \<Rightarrow> string \<Rightarrow> bool" where
  "str_contains s pat = (find_pat pat s \<noteq> None)"

definition split_first :: "string \<Rightarrow> string \<Rightarrow> string" where
  "split_first pat s = (case find_pat pat s of None \<Rightarrow> s | Some (a, _) \<Rightarrow> a)"

definition split_second :: "string \<Rightarrow> string \<Rightarrow> string option" where
  "split_second pat s = map_option (\<lambda>(_, r). split_first pat r) (find_pat pat s)"

definition body_failure_text :: "string \<Rightarrow> asn1_text" where
  "body_failure_text e =
     (case Option.bind (split_second ''KerberosTime is not YYYYMMDDhhmmssZ ('' e)
             (\<lambda>rest. parse_unsigned (2 ^ 64) (split_first '' octets)'' rest)) of
        Some n \<Rightarrow> if n = 15 then Asn1BadFormat else Asn1BadLength
      | None \<Rightarrow>
          (case map_option (split_first '' (Codec'') (split_second ''Invalid date string: '' e) of
             Some time \<Rightarrow> if length time = 15 then Asn1BadFormat else Asn1BadLength
           | None \<Rightarrow>
               if str_contains e ''Expected Tag { class: Context'' \<or> str_contains e ''Missing field'' \<or>
                  str_contains e ''Need more data'' \<or> str_contains e ''Unexpected EOF'' then Asn1MissingField
               else if str_contains e ''Expected Tag {'' then Asn1BadId
               else if str_contains e '' bytes, actual length was '' then Asn1BadLength
               else if str_contains e ''larger than expected'' then Asn1Overflow
               else if str_contains e ''Indefinite length'' then Asn1Indef
               else Asn1ParseError))"

subsection \<open>Lengths\<close>

lemma unat_shift_in:
  fixes w :: u64 and b :: u8
  assumes "unat w < 2 ^ 56"
  shows "unat (push_bit 8 w OR ucast b) = unat w * 256 + unat b"
proof -
  have b: "unat b < 2 ^ 8"
    using unat_less_pow [of b] by simp
  have "push_bit 8 (unat w) OR unat b = push_bit 8 (unat w) + unat b"
  proof (rule disjunctive_add [symmetric])
    fix n
    have "\<not> bit (unat b) n" if "8 \<le> n"
      using b that by (metis bit_take_bit_iff not_le take_bit_nat_eq_self)
    then show "\<not> bit (push_bit 8 (unat w)) n \<or> \<not> bit (unat b) n"
      by (auto simp: bit_push_bit_iff)
  qed
  moreover have "unat (push_bit 8 w) = push_bit 8 (unat w)"
    using assms by (simp only: unsigned_push_bit_eq) (simp add: push_bit_eq_mult take_bit_nat_eq_self)
  moreover have "unat (ucast b :: u64) = unat b"
    using b by (simp add: unsigned_ucast_eq take_bit_nat_eq_self)
  ultimately show ?thesis
    by (simp only: unsigned_or_eq) (simp add: push_bit_eq_mult)
qed

lemma usize_of_val: "length bs \<le> 8 \<Longrightarrow> unat (usize_of bs) = be_val bs"
proof (induction bs rule: rev_induct)
  case Nil
  then show ?case by (simp add: usize_of_def)
next
  case (snoc b bs)
  then have ih: "unat (usize_of bs) = be_val bs"
    by simp
  have "be_val bs < 256 ^ length bs"
    by (rule be_val_bound)
  also have "\<dots> \<le> 256 ^ 7"
    using snoc.prems by (intro power_increasing) simp_all
  finally have "unat (usize_of bs) < 2 ^ 56"
    using ih by simp
  moreover have "usize_of (bs @ [b]) = push_bit 8 (usize_of bs) OR ucast b"
    by (simp add: usize_of_def)
  ultimately show ?case
    using ih by (simp only: unat_shift_in be_val_snoc)
qed

lemma len_len_loop_octets:
  "\<exists>m. len_len_loop n k = k + m \<and> n < 256 ^ m \<and> (\<forall>j. n < 256 ^ j \<longrightarrow> m \<le> j) \<and> (0 < n \<longrightarrow> 0 < m)"
proof (induction n k rule: len_len_loop.induct)
  case (1 n k)
  show ?case
  proof (cases "n = 0")
    case True
    then show ?thesis
      by (intro exI [of _ 0]) (simp add: len_len_loop.simps)
  next
    case False
    then obtain m where m: "len_len_loop (n div 256) (k + 1) = k + 1 + m" "n div 256 < 256 ^ m"
      "\<forall>j. n div 256 < 256 ^ j \<longrightarrow> m \<le> j"
      using 1 by auto
    have "n < 256 ^ Suc m"
      using m(2) by (simp add: less_mult_imp_div_less div_less_iff_less_mult mult.commute)
    moreover have "Suc m \<le> j" if "n < 256 ^ j" for j
    proof (cases j)
      case 0
      with that False show ?thesis by simp
    next
      case (Suc i)
      with that have "n div 256 < 256 ^ i"
        by (simp add: div_less_iff_less_mult mult.commute)
      with m(3) Suc show ?thesis by simp
    qed
    ultimately show ?thesis
      using m(1) False by (intro exI [of _ "Suc m"]) (simp add: len_len_loop.simps [of n])
  qed
qed

lemma be_bytes_add: "be_bytes (a + b) v = be_bytes a (v div 256 ^ b) @ be_bytes b v"
  by (induction b arbitrary: v) (simp_all add: div_mult2_eq)

lemma push_len_forms:
  assumes "len < 2 ^ 64"
  obtains "len < 128" "push_len len = [of_nat len]"
  | m where "128 \<le> len" "0 < m" "m \<le> 8" "len < 256 ^ m" "push_len len = (0x80 OR of_nat m) # be_bytes m len"
proof (cases "len < 128")
  case True
  then show ?thesis
    by (intro that(1)) (simp_all add: push_len_def len_len_def)
next
  case False
  obtain m where m: "len_len_loop len 1 = 1 + m" "len < 256 ^ m" "\<forall>j. len < 256 ^ j \<longrightarrow> m \<le> j" "0 < m"
    using len_len_loop_octets [of len 1] False by auto
  have "m \<le> 8"
    using m(3) [rule_format, of 8] assms by simp
  then have "be_bytes 8 len = be_bytes (8 - m) (len div 256 ^ m) @ be_bytes m len"
    using be_bytes_add [of "8 - m" m len] by simp
  then show ?thesis
    using False m \<open>m \<le> 8\<close> by (intro that(2) [of m]) (simp_all add: push_len_def len_len_def)
qed

lemma long_form_octet:
  assumes "0 < m" and "m \<le> (8 :: nat)"
  shows "\<not> 0x80 OR of_nat m < (0x80 :: u8)" and "unat ((0x80 OR of_nat m) AND 0x7F :: u8) = m"
    and "(0x80 OR of_nat m) AND 0x80 \<noteq> (0 :: u8)"
proof -
  have "m \<in> {1, 2, 3, 4, 5, 6, 7, 8}"
    using assms by auto
  then show "\<not> 0x80 OR of_nat m < (0x80 :: u8)" "unat ((0x80 OR of_nat m) AND 0x7F :: u8) = m"
    "(0x80 OR of_nat m) AND 0x80 \<noteq> (0 :: u8)"
    by auto
qed

lemma read_len_push:
  assumes "len < 2 ^ 64" and "len \<le> length rest"
  shows "read_len (push_len len @ rest) = Some (len, length (push_len len))"
  using assms(1)
proof (cases rule: push_len_forms)
  case 1
  moreover from this have "unat (of_nat len :: u8) = len" "(of_nat len :: u8) < 0x80"
    by (simp_all add: unat_of_nat word_less_nat_alt)
  ultimately show ?thesis
    using assms(2) by (simp add: read_len_def)
next
  case (2 m)
  have "unat (usize_of (be_bytes m len)) = len"
    using 2 by (simp add: usize_of_val be_val_be_bytes_lt)
  with 2 assms(2) show ?thesis
    by (simp add: read_len_def Let_def long_form_octet)
qed

lemma length_push_len: "len < 2 ^ 64 \<Longrightarrow> 1 \<le> length (push_len len) \<and> length (push_len len) \<le> 9"
  by (erule push_len_forms) simp_all

subsection \<open>Elements\<close>

text \<open>Elements whose encoding fits the address space.\<close>

definition tlv_fits :: "u8 \<times> bytes \<Rightarrow> bool" where
  "tlv_fits x \<longleftrightarrow> length (snd x) < 2 ^ 63"

lemma take_der_push:
  assumes "length val < 2 ^ 63"
  shows "take_der (push_tlv tag val @ rest) = Some (tag, val, rest)"
proof -
  have "length (push_len (length val)) \<le> 9"
    using assms length_push_len [of "length val"] by simp
  then have "\<not> 2 ^ 64 \<le> 1 + length (push_len (length val)) + length val"
    using assms by simp
  then show ?thesis
    using assms read_len_push [of "length val" "val @ rest"] by (simp add: take_der_def push_tlv_def Let_def)
qed

definition take_der_at :: "bytes \<Rightarrow> nat \<Rightarrow> unit + (u8 \<times> bytes) \<times> nat" where
  "take_der_at b i =
     (case take_der (drop i b) of None \<Rightarrow> Inl ()
      | Some (tag, val, rest) \<Rightarrow> Inr ((tag, val), length b - length rest))"

interpretation der: cursor_codec "\<lambda>(tag, val). push_tlv tag val" take_der_at tlv_fits
proof
  fix x :: "u8 \<times> bytes" and p r :: bytes
  assume "tlv_fits x"
  then show "take_der_at (p @ (case x of (tag, val) \<Rightarrow> push_tlv tag val) @ r) (length p) =
      Inr (x, length p + length (case x of (tag, val) \<Rightarrow> push_tlv tag val))"
    by (cases x) (simp add: take_der_at_def tlv_fits_def take_der_push)
qed

lemma get_tag_push:
  assumes "length val < 2 ^ 63" and "tag AND 0x1F \<noteq> 0x1F"
  shows "get_tag (push_tlv tag val @ rest) =
    Inr \<lparr>tlv_class = tag AND 0xC0, tlv_constructed = (tag AND 0x20 \<noteq> 0), tlv_tagnum = ucast (tag AND 0x1F),
      tlv_contents = val, tlv_rest = rest\<rparr>"
proof -
  have "length val < 2 ^ 64"
    using assms(1) by simp
  then show ?thesis
  proof (cases rule: push_len_forms)
    case 1
    then have u: "unat (of_nat (length val) :: u8) = length val"
      by (simp add: unat_of_nat)
    have "(of_nat (length val) AND 0x80 :: u8) = 0"
    proof -
      have "(of_nat (length val) :: u8) = take_bit 7 (of_nat (length val))"
        using 1 u by (simp add: word_unat_eq_iff unsigned_take_bit_eq take_bit_nat_eq_self)
      then have "(of_nat (length val) AND 0x80 :: u8) = take_bit 7 (of_nat (length val)) AND 0x80"
        by simp
      also have "\<dots> = 0"
      proof (rule bit_eqI)
        fix n
        have "(0x80 :: u8) = 2 ^ 7"
          by simp
        then have "bit (0x80 :: u8) n \<longrightarrow> n = 7"
          by (simp only: bit_exp_iff) blast
        then show "bit (take_bit 7 (of_nat (length val)) AND 0x80 :: u8) n \<longleftrightarrow> bit 0 n"
          by (auto simp: bit_simps)
      qed
      finally show ?thesis .
    qed
    with 1 u assms(2) show ?thesis
      by (simp add: get_tag_def push_tlv_def)
  next
    case (2 m)
    have "unat (usize_of (be_bytes m (length val))) = length val"
      using 2 by (simp add: usize_of_val be_val_be_bytes_lt)
    with 2 assms(2) show ?thesis
      by (simp add: get_tag_def push_tlv_def Let_def long_form_octet)
  qed
qed

text \<open>What is read is a contiguous part of the input.\<close>

lemma take_der_splits:
  assumes "take_der input = Some (tag, inner, rest)"
  shows "\<exists>hd. input = tag # hd @ inner @ rest \<and> 1 \<le> length hd"
proof -
  obtain after ln hlen where i: "input = tag # after" "read_len after = Some (ln, hlen)"
    "length input \<ge> 1 + hlen + ln" "inner = take ln (drop hlen after)" "rest = drop (hlen + ln) after"
    using assms by (auto simp: take_der_def Let_def split: list.splits option.splits if_splits)
  have "1 \<le> hlen"
    using i(2) by (auto simp: read_len_def Let_def Option.bind_eq_Some_conv split: list.splits if_splits)
  moreover have "after = take hlen after @ inner @ rest"
    unfolding i(4,5) by (metis append_take_drop_id drop_drop add.commute)
  ultimately show ?thesis
    using i(1,3) by (intro exI [of _ "take hlen after"]) auto
qed

lemma find_body_part: "find_body cur = Some body \<Longrightarrow> \<exists>p q. cur = p @ body @ q"
proof (induction cur rule: find_body.induct)
  case (1 cur)
  then obtain tag inner rest where t: "take_der cur = Some (tag, inner, rest)" "cur \<noteq> []"
    by (subst (asm) (2) find_body.simps) (auto split: if_splits option.splits)
  then obtain hd where cur: "cur = tag # hd @ inner @ rest"
    using take_der_splits by blast
  show ?case
  proof (cases "tag = 0xa4")
    case True
    then have "body = inner"
      using 1(2) t by (subst (asm) find_body.simps) simp
    with cur show ?thesis
      by (intro exI [of _ "tag # hd"] exI [of _ rest]) simp
  next
    case False
    then have "find_body rest = Some body"
      using 1(2) t by (subst (asm) find_body.simps) simp
    then obtain p q where "rest = p @ body @ q"
      using 1(1) [OF t(2,1) refl refl False] by blast
    with cur show ?thesis
      by (intro exI [of _ "tag # hd @ inner @ p"] exI [of _ q]) simp
  qed
qed

lemma find_body_fields:
  assumes "\<forall>(t, v) \<in> set flds. t \<noteq> 0xa4 \<and> length v < 2 ^ 63" and "length body < 2 ^ 63"
  shows "find_body (concat (map (\<lambda>(t, v). push_tlv t v) flds) @ push_tlv 0xa4 body @ rest) = Some body"
  using assms(1)
proof (induction flds)
  case Nil
  then show ?case
    using assms(2) by (subst find_body.simps) (simp add: take_der_push, simp add: push_tlv_def)
next
  case (Cons f flds)
  obtain t v where f: "f = (t, v)"
    by (cases f)
  have "take_der (push_tlv t v @ concat (map (\<lambda>(t, v). push_tlv t v) flds) @ push_tlv 0xa4 body @ rest) =
      Some (t, v, concat (map (\<lambda>(t, v). push_tlv t v) flds) @ push_tlv 0xa4 body @ rest)"
    using Cons.prems f by (intro take_der_push) simp
  with Cons f show ?case
    by (subst find_body.simps) (simp, simp add: push_tlv_def)
qed

text \<open>
  Elements are read back as they were written.  An element written by \<open>push_tlv\<close>, at any place in a
  buffer, is read by \<open>take_der\<close> as its tag and its value with the cursor behind it, and, unless its tag is
  of the long form, by \<open>get_tag\<close> as the class, the constructed bit, the number and the same contents.
\<close>
theorem tlv_roundtrip:
  assumes "length val < 2 ^ 63"
  shows "take_der (push_tlv tag val @ rest) = Some (tag, val, rest) \<and>
    (tag AND 0x1F \<noteq> 0x1F \<longrightarrow> get_tag (push_tlv tag val @ rest) =
      Inr \<lparr>tlv_class = tag AND 0xC0, tlv_constructed = (tag AND 0x20 \<noteq> 0), tlv_tagnum = ucast (tag AND 0x1F),
        tlv_contents = val, tlv_rest = rest\<rparr>)"
  using take_der_push [OF assms] get_tag_push [OF assms] by simp

subsection \<open>Properties\<close>

text \<open>
  C40: The octets a checksum covers.  In a request written as an AS-REQ or TGS-REQ application element
  around a sequence of fields, \<open>kdc_req_body_der\<close> finds the contents of the first field tagged
  \<open>[4]\<close>, whatever fields precede it and whatever follows; and whatever octets it returns, of any input,
  are a contiguous part of that input.
\<close>
theorem kdc_req_body_found:
  "(app \<in> {0x6a, 0x6c} \<and> (\<forall>(t, v) \<in> set flds. t \<noteq> 0xa4 \<and> length v < 2 ^ 62) \<and>
      length (concat (map (\<lambda>(t, v). push_tlv t v) flds) @ push_tlv 0xa4 body @ tail) < 2 ^ 62 \<longrightarrow>
      kdc_req_body_der
        (push_tlv app (push_tlv 0x30 (concat (map (\<lambda>(t, v). push_tlv t v) flds) @ push_tlv 0xa4 body @ tail)) @ rest)
        = Some body) \<and>
   (kdc_req_body_der raw = Some b \<longrightarrow> (\<exists>p q. raw = p @ b @ q))"
proof (intro conjI impI)
  let ?seq = "concat (map (\<lambda>(t, v). push_tlv t v) flds) @ push_tlv 0xa4 body @ tail"
  assume a: "app \<in> {0x6a, 0x6c} \<and> (\<forall>(t, v) \<in> set flds. t \<noteq> 0xa4 \<and> length v < 2 ^ 62) \<and> length ?seq < 2 ^ 62"
  then have "length body < 2 ^ 63"
    by (simp add: push_tlv_def)
  moreover have "\<forall>(t, v) \<in> set flds. t \<noteq> 0xa4 \<and> length v < 2 ^ 63"
    using a by auto
  ultimately have found: "find_body ?seq = Some body"
    using find_body_fields by blast
  have pow: "(2 :: nat) ^ 62 < 2 ^ 63" "(2 :: nat) ^ 63 < 2 ^ 64" "(2 :: nat) ^ 62 + 10 < 2 ^ 63"
    by simp_all
  have seq: "length ?seq < 2 ^ 63" "length ?seq < 2 ^ 64"
    using a pow by linarith+
  then have inner: "take_der (push_tlv 0x30 ?seq) = Some (0x30, ?seq, [])"
    using take_der_push [OF seq(1), of "0x30" "[]"] by (simp only: append_Nil2)
  have "length (push_len (length ?seq)) \<le> 9"
    using length_push_len [OF seq(2)] by blast
  moreover have "length (push_tlv 0x30 ?seq) = 1 + length (push_len (length ?seq)) + length ?seq"
    by (simp add: push_tlv_def)
  ultimately have "length (push_tlv 0x30 ?seq) < 2 ^ 63"
    using a pow(3) by linarith
  then have "take_der (push_tlv app (push_tlv 0x30 ?seq) @ rest) = Some (app, push_tlv 0x30 ?seq, rest)"
    by (rule take_der_push)
  then show "kdc_req_body_der (push_tlv app (push_tlv 0x30 ?seq) @ rest) = Some body"
    unfolding kdc_req_body_der_def using a inner found by auto
next
  assume "kdc_req_body_der raw = Some b"
  then obtain tag app after t seq tail' where t: "take_der raw = Some (tag, app, after)"
    "take_der app = Some (t, seq, tail')" "find_body (if t = 0x30 then seq else app) = Some b"
    by (auto simp: kdc_req_body_der_def split: option.splits if_splits)
  obtain p q where "(if t = 0x30 then seq else app) = p @ b @ q"
    using find_body_part [OF t(3)] by blast
  moreover obtain h1 where "raw = tag # h1 @ app @ after"
    using take_der_splits [OF t(1)] by blast
  moreover obtain h2 where "app = t # h2 @ seq @ tail'"
    using take_der_splits [OF t(2)] by blast
  ultimately have "raw = (tag # h1 @ (if t = 0x30 then t # h2 else []) @ p) @ b @ q @ (if t = 0x30 then tail' else []) @ after"
    by (auto split: if_splits)
  then show "\<exists>p q. raw = p @ b @ q"
    by blast
qed

theorem kdc_req_body_found_witness:
  "kdc_req_body_der [0x6a, 0x0a, 0x30, 0x08, 0xa1, 0x02, 0x01, 0x05, 0xa4, 0x02, 0x30, 0x00] = Some [0x30, 0x00]"
  using kdc_req_body_found [of "0x6a" "[(0xa1, [1, 5])]" "[0x30, 0]" "[]" "[]"]
  by (simp add: push_tlv_def push_len_def len_len_def)

end
