(* ===== verification/Tgs.thy ===== *)
theory Tgs
  imports Authdata Pac Der
begin

text \<open>
  The acceptance of a ticket-granting request: the header ticket and authenticator
  (\<open>process_tgs_header\<close> and what it calls in \<open>crates/krb5-kdc/src/issue/kdc_util.rs\<close>) and the policy checks
  of \<open>issue/tgs_policy.rs\<close>.  The record \<open>tgs_env\<close> holds what the code takes from elsewhere: the cryptographic
  primitives, the \<open>rasn\<close> decoders (a failed decoding gives the error's text), the texts of the error table,
  the configured \<open>capaths\<close> and the clock, which is read once here.
\<close>

record ap_req =
  ap_pvno :: int
  ap_msg_type :: int
  ap_options :: kerberos_flags
  ap_ticket :: ticket
  ap_authenticator :: encrypted_data

record header_tgt =
  h_ap :: ap_req
  h_enc_tkt :: enc_ticket_part
  h_tgt_key :: protocol_key
  h_session :: protocol_key
  h_authenticator :: authenticator
  h_header_realm :: string
  h_header_server :: principal

record tgs_env =
  te_prims :: prims
  te_decode_ap :: "bytes \<Rightarrow> string + ap_req"
  te_decode_ticket_part :: "bytes \<Rightarrow> string + enc_ticket_part"
  te_decode_authenticator :: "bytes \<Rightarrow> string + authenticator"
  te_decode_authdata :: "bytes \<Rightarrow> string + authdata"
  te_decode_etypes :: "bytes \<Rightarrow> string + int list"
  te_error_message :: "int \<Rightarrow> string"
  te_capaths :: capaths
  te_now :: ktime

abbreviation (input) AP_USE_SESSION_KEY :: nat where "AP_USE_SESSION_KEY \<equiv> 1"
abbreviation (input) AP_MUTUAL_REQUIRED :: nat where "AP_MUTUAL_REQUIRED \<equiv> 2"
abbreviation (input) KU_TICKET :: u32 where "KU_TICKET \<equiv> 2"
abbreviation (input) KU_TGS_REQ_AUTH_CKSUM :: u32 where "KU_TGS_REQ_AUTH_CKSUM \<equiv> 6"
abbreviation (input) KU_TGS_REQ_AUTHENTICATOR :: u32 where "KU_TGS_REQ_AUTHENTICATOR \<equiv> 7"
abbreviation (input) ERROR_TABLE_BASE_KRB5 :: int where "ERROR_TABLE_BASE_KRB5 \<equiv> - 1765328384"

subsection \<open>Errors\<close>

definition show_int :: "int \<Rightarrow> string" where
  "show_int n = (if n < 0 then ''-'' @ show_nat (nat (- n)) else show_nat (nat n))"

fun crypto_error_str :: "crypto_error \<Rightarrow> string" where
  "crypto_error_str (UnsupportedEtype n) = ''unsupported encryption type '' @ show_int n"
| "crypto_error_str (WeakEtypeRefused n) =
     ''encryption type '' @ show_int n @ '' is known but refused (allow_weak_crypto is false)''"
| "crypto_error_str InvalidKeyLength = ''protocol key length does not match etype''"
| "crypto_error_str InvalidKeyUsage = ''key usage 0 is not permitted (RFC 3961)''"
| "crypto_error_str InvalidParams = ''invalid string-to-key parameters''"
| "crypto_error_str InvalidConfounder = ''confounder must be 16 octets''"
| "crypto_error_str CiphertextTooShort = ''ciphertext too short''"
| "crypto_error_str Integrity = ''integrity check failed''"
| "crypto_error_str (UnsupportedChecksum n) = ''unsupported checksum type '' @ show_int n"
| "crypto_error_str BadChecksumSize = ''checksum length does not match output size''"
| "crypto_error_str InappChecksum = ''inappropriate checksum type''"
| "crypto_error_str Rng = ''failed to generate random confounder''"
| "crypto_error_str BadS2kParams = ''Invalid key generation parameters from KDC''"
| "crypto_error_str (BadEnctype n) = ''Bad encryption type''"
| "crypto_error_str DesBadParity = ''DES key has bad parity''"
| "crypto_error_str DesWeakKey = ''DES key is a weak key''"

fun from_crypto :: "crypto_error \<Rightarrow> kdc_error" where
  "from_crypto (BadEnctype n) = KBadEnctype"
| "from_crypto DesBadParity = KDesBadParity"
| "from_crypto DesWeakKey = KDesWeakKey"
| "from_crypto e = CryptoErr (crypto_error_str e)"

definition utf8_realm :: "string \<Rightarrow> kdc_error + string" where
  "utf8_realm r = ok_or (proto ERR_GENERIC STATUS_UNKNOWN_REASON) (from_utf8 r)"

definition mit_refusal :: "tgs_env \<Rightarrow> int \<Rightarrow> int \<times> string" where
  "mit_refusal env code = (errcode_to_protocol code, te_error_message env (ERROR_TABLE_BASE_KRB5 + code))"

definition asn1_refusal :: "bytes \<Rightarrow> u8 \<Rightarrow> u32 \<Rightarrow> string \<Rightarrow> int \<times> string" where
  "asn1_refusal der cls tagnum e =
     (ERR_GENERIC, case asn1_outer_text der cls tagnum of None \<Rightarrow> e | Some t \<Rightarrow> asn1_str t)"

definition bad_pvno :: "string \<Rightarrow> (int \<times> string) option" where
  "bad_pvno e =
     (if str_contains e ''KRB5KDC_ERR_BAD_PVNO''
      then Some (ERR_BAD_PVNO, ''Requested protocol version not supported'') else None)"

definition process_tgs_refusal :: "int \<times> string \<Rightarrow> kdc_error" where
  "process_tgs_refusal r = proto_d (fst r) STATUS_PROCESS_TGS (snd r)"

definition tgs_decode_refusal :: "bytes \<Rightarrow> u32 \<Rightarrow> string \<Rightarrow> kdc_error" where
  "tgs_decode_refusal der tagnum e =
     proto_d ERR_GENERIC STATUS_PROCESS_TGS
       (asn1_str (case asn1_outer_text der 0x40 tagnum of None \<Rightarrow> body_failure_text e | Some t \<Rightarrow> t))"

definition known_or_iana :: "int \<Rightarrow> kdc_error + enctype" where
  "known_or_iana n = map_err from_crypto (case from_iana n of Inr e \<Rightarrow> Inr e | Inl _ \<Rightarrow> known n)"

subsection \<open>The header ticket\<close>

definition find_server_key ::
  "policy \<Rightarrow> principal \<Rightarrow> enctype option \<Rightarrow> u32 \<Rightarrow> kdc_error + protocol_key \<times> u32" where
  "find_server_key pol p search_enctype kvno =
     (let ok = (\<lambda>v. case policy_find_enctype pol p search_enctype v of Inl _ \<Rightarrow> None | Inr k \<Rightarrow> Some k);
          key = (if kvno = 0
                 then (case List.map_filter ok (kvnos_desc (p_keys p)) of [] \<Rightarrow> None | k # _ \<Rightarrow> Some k)
                 else ok kvno) in
      case key of
        None \<Rightarrow> Inl (proto ERR_GENERIC STATUS_PROCESS_TGS)
      | Some k \<Rightarrow>
          if (case search_enctype of None \<Rightarrow> False | Some want \<Rightarrow> want \<noteq> ke_etype k)
          then Inl (proto ERR_GENERIC STATUS_PROCESS_TGS)
          else Inr (ke_key k, ke_kvno k))"

text \<open>One turn of the loop of \<open>decrypt_presented_tgt\<close>: the key version it ends with and what it found.\<close>

definition try_server_key ::
  "tgs_env \<Rightarrow> policy \<Rightarrow> principal \<Rightarrow> encrypted_data \<Rightarrow> enctype \<Rightarrow> enctype option \<Rightarrow> u32 \<Rightarrow>
   u32 \<times> (kdc_error + enc_ticket_part \<times> protocol_key \<times> bytes)" where
  "try_server_key env pol p ed tkt_etype search_enctype kvno =
     (case find_server_key pol p search_enctype kvno of
        Inl e \<Rightarrow> (kvno, Inl e)
      | Inr (key, found) \<Rightarrow>
          (found,
           if etype_permitted pol tkt_etype then
             (case decrypt_enc_data (te_prims env) key KU_TICKET (ed_etype ed) (ed_cipher ed) of
                Inr plain \<Rightarrow>
                  (case te_decode_ticket_part env plain of
                     Inr part \<Rightarrow> Inr (part, key, plain)
                   | Inl e \<Rightarrow> Inl (tgs_decode_refusal plain 3 e))
              | Inl e \<Rightarrow>
                  if e = DesBadParity \<or> e = DesWeakKey
                  then Inl (proto_d ERR_GENERIC STATUS_PROCESS_TGS (crypto_error_str e))
                  else Inl (proto ERR_BAD_INTEGRITY STATUS_PROCESS_TGS))
           else Inl (proto ERR_GENERIC STATUS_PROCESS_TGS)))"

text \<open>The loop, with the number of turns left after this one.\<close>

fun decrypt_tgt_loop ::
  "tgs_env \<Rightarrow> policy \<Rightarrow> principal \<Rightarrow> encrypted_data \<Rightarrow> enctype \<Rightarrow> enctype option \<Rightarrow> u32 \<Rightarrow> nat \<Rightarrow> u32 \<Rightarrow>
   kdc_error + enc_ticket_part \<times> protocol_key \<times> bytes" where
  "decrypt_tgt_loop env pol p ed tkt_etype search_enctype ticket_kvno left kvno =
     (case try_server_key env pol p ed tkt_etype search_enctype kvno of
        (kvno, Inr r) \<Rightarrow> Inr r
      | (kvno, Inl e) \<Rightarrow>
          if ticket_kvno \<noteq> 0 \<or> kvno \<le> 1 then Inl e
          else (case left of
                  0 \<Rightarrow> Inl e
                | Suc n \<Rightarrow> decrypt_tgt_loop env pol p ed tkt_etype search_enctype ticket_kvno n (kvno - 1)))"

declare decrypt_tgt_loop.simps [simp del]

definition decrypt_presented_tgt ::
  "tgs_env \<Rightarrow> store \<Rightarrow> ap_req \<Rightarrow> enctype \<Rightarrow> kdc_error + enc_ticket_part \<times> protocol_key \<times> bytes \<times> principal" where
  "decrypt_presented_tgt env s ap tkt_etype =
     (let tkt = ap_ticket ap; ed = tkt_enc_part tkt in
      andthen (utf8_realm (tkt_realm tkt)) (\<lambda>ticket_realm.
      case store_get s (lookup_principal_id (tkt_sname tkt) ticket_realm) of
        None \<Rightarrow> Inl (proto ERR_S_PRINCIPAL_UNKNOWN STATUS_PROCESS_TGS)
      | Some p \<Rightarrow>
          if attr p KDB_DISALLOW_ALL_TIX \<or> attr p KDB_DISALLOW_SVR
          then Inl (proto ERR_S_PRINCIPAL_UNKNOWN STATUS_PROCESS_TGS)
          else
            let search_enctype = (if is_local_tgs_principal (tkt_sname tkt) ticket_realm then None else Some tkt_etype);
                ticket_kvno = (case ed_kvno ed of None \<Rightarrow> 0 | Some v \<Rightarrow> v) in
            andthen (map_err from_crypto (key_usage_new KU_TICKET)) (\<lambda>_.
            andthen (decrypt_tgt_loop env (s_policy s) p ed tkt_etype search_enctype ticket_kvno 2 ticket_kvno)
              (\<lambda>(part, key, plain). Inr (part, key, plain, p)))))"

definition check_header_times_rd_req :: "tgs_env \<Rightarrow> policy \<Rightarrow> enc_ticket_part \<Rightarrow> kdc_error + unit" where
  "check_header_times_rd_req env pol tkt =
     (let now = te_now env; skew = po_skew pol;
          start = (case tk_starttime tkt of None \<Rightarrow> tk_authtime tkt | Some t \<Rightarrow> t) in
      if delta_seconds now start < - skew then Inl (proto ERR_TKT_NYV STATUS_PROCESS_TGS)
      else if delta_seconds (tk_endtime tkt) now < - skew then Inl (proto ERR_TKT_EXPIRED STATUS_PROCESS_TGS)
      else Inr ())"

definition header_cksum :: "tgs_env \<Rightarrow> protocol_key \<Rightarrow> bytes \<Rightarrow> authenticator \<Rightarrow> kdc_error + unit" where
  "header_cksum env session body_der auth =
     (case au_cksum auth of
        None \<Rightarrow> Inl (proto ERR_INAPP_CKSUM STATUS_PROCESS_TGS)
      | Some ck \<Rightarrow>
          if \<not> cksumtype_is_known (cksumtype ck) then Inl (proto ERR_SUMTYPE_NOSUPP STATUS_PROCESS_TGS)
          else if \<not> cksumtype_is_coll_proof (cksumtype ck) then Inl (proto ERR_INAPP_CKSUM STATUS_PROCESS_TGS)
          else
            andthen (map_err from_crypto (key_usage_new KU_TGS_REQ_AUTH_CKSUM)) (\<lambda>ck_usage.
            map_err (\<lambda>e. case e of
                UnsupportedChecksum _ \<Rightarrow> proto ERR_GENERIC STATUS_PROCESS_TGS
              | BadChecksumSize \<Rightarrow> proto ERR_GENERIC STATUS_PROCESS_TGS
              | _ \<Rightarrow> proto ERR_BAD_INTEGRITY STATUS_PROCESS_TGS)
              (verify_checksum_type (te_prims env) session ck_usage body_der (cksumtype ck) (cksum_octets ck))))"

text \<open>The part of \<open>process_tgs_header\<close> up to the search for authorization data.\<close>

definition read_tgs_header ::
  "tgs_env \<Rightarrow> store \<Rightarrow> bytes \<Rightarrow> host_address option \<Rightarrow> kdc_error + header_tgt" where
  "read_tgs_header env s ap_raw sender =
     andthen (map_err (\<lambda>e. case bad_pvno e of Some refusal \<Rightarrow> process_tgs_refusal refusal
                           | None \<Rightarrow> tgs_decode_refusal ap_raw 14 e)
               (te_decode_ap env ap_raw)) (\<lambda>ap.
     if flag (ap_options ap) AP_USE_SESSION_KEY \<or> flag (ap_options ap) AP_MUTUAL_REQUIRED
     then Inl (proto ERR_POLICY STATUS_PROCESS_TGS)
     else
       andthen (utf8_realm (tkt_realm (ap_ticket ap))) (\<lambda>header_realm.
       andthen (known_or_iana (ed_etype (tkt_enc_part (ap_ticket ap)))) (\<lambda>tkt_etype.
       andthen (decrypt_presented_tgt env s ap tkt_etype) (\<lambda>(enc_tkt, tgt_key, _, header_server).
       andthen (known_or_iana (keytype (tk_key enc_tkt))) (\<lambda>sess_etype.
       andthen (map_err from_crypto (key_from_bytes sess_etype (keyvalue (tk_key enc_tkt)))) (\<lambda>session.
       andthen (map_err from_crypto (key_usage_new KU_TGS_REQ_AUTHENTICATOR)) (\<lambda>auth_usage.
       andthen (map_err from_crypto
                 (decrypt_enc_data (te_prims env) session auth_usage (ed_etype (ap_authenticator ap))
                   (ed_cipher (ap_authenticator ap)))) (\<lambda>auth_plain.
       andthen (map_err (tgs_decode_refusal auth_plain 2) (te_decode_authenticator env auth_plain)) (\<lambda>auth.
       andthen (utf8_realm (au_crealm auth)) (\<lambda>auth_realm.
       andthen (utf8_realm (tk_crealm enc_tkt)) (\<lambda>client_realm.
       if \<not> principal_compare (au_cname auth) auth_realm (tk_cname enc_tkt) client_realm
       then Inl (proto ERR_BADMATCH STATUS_PROCESS_TGS)
       else if (case sender of None \<Rightarrow> False | Some remote \<Rightarrow> \<not> address_search remote (tk_caddr enc_tkt))
       then Inl (proto ERR_BADADDR STATUS_PROCESS_TGS)
       else
         andthen (map_err (\<lambda>code. process_tgs_refusal (mit_refusal env code))
                   (check_transited enc_tkt header_realm (te_capaths env))) (\<lambda>_.
         andthen (check_header_times_rd_req env (s_policy s) enc_tkt) (\<lambda>_.
         andthen (map_err (\<lambda>_. proto ERR_GENERIC STATUS_PROCESS_TGS)
                   (negotiate_ap_req_etypes (te_decode_authdata env) (te_decode_etypes env) auth
                     (keytype (tk_key enc_tkt)) (permitted_list (s_policy s)))) (\<lambda>_.
           Inr \<lparr>h_ap = ap, h_enc_tkt = enc_tkt, h_tgt_key = tgt_key, h_session = session,
                h_authenticator = auth, h_header_realm = header_realm, h_header_server = header_server\<rparr>))))))))))))))"

text \<open>\<open>None\<close> is the recursion of \<open>find_authdata\<close> that does not end, which a decoder of finite octets excludes.\<close>

definition process_tgs_header ::
  "tgs_env \<Rightarrow> store \<Rightarrow> bytes \<Rightarrow> bytes \<Rightarrow> host_address option \<Rightarrow> (kdc_error + header_tgt) option" where
  "process_tgs_header env s ap_raw body_der sender =
     (case read_tgs_header env s ap_raw sender of
        Inl e \<Rightarrow> Some (Inl e)
      | Inr h \<Rightarrow>
          map_option
            (\<lambda>r. andthen (map_err process_tgs_refusal r) (\<lambda>fx.
                 if fx \<noteq> [] then Inl (proto_d ERR_POLICY STATUS_PROCESS_TGS ''ticket valid only as FAST armor'')
                 else andthen (header_cksum env (h_session h) body_der (h_authenticator h)) (\<lambda>_. Inr h)))
            (find_authdata (\<lambda>raw. map_err (asn1_refusal raw 0 16) (te_decode_authdata env raw))
               (tk_authorization_data (h_enc_tkt h)) (au_authorization_data (h_authenticator h)) AD_FX_ARMOR))"

subsection \<open>Policy\<close>

record second_ticket =
  st_part :: enc_ticket_part
  st_server :: principal
  st_pac :: "bytes option"

record s4u2self =
  s4_user :: principal_name
  s4_realm :: string
  s4_local :: "principal option"

definition check_tgs_u2u :: "store \<Rightarrow> second_ticket option \<Rightarrow> principal \<Rightarrow> kdc_error + unit" where
  "check_tgs_u2u s stkt dest =
     (case stkt of
        None \<Rightarrow> Inl (proto ERR_BADOPTION STATUS_NO_2ND_TKT)
      | Some st \<Rightarrow>
          if \<not> is_local_tgs_principal (p_name (st_server st)) (p_realm (st_server st))
             \<or> \<not> is_krbtgt_for (p_name (st_server st)) (p_realm dest)
          then Inl (proto ERR_POLICY STATUS_SECOND_TKT_NOT_TGS)
          else
            andthen (utf8_realm (tk_crealm (st_part st))) (\<lambda>crealm.
            case store_get s (lookup_principal_id (tk_cname (st_part st)) crealm) of
              None \<Rightarrow> Inl (proto ERR_SERVER_NOMATCH STATUS_SECOND_TKT_MISMATCH)
            | Some client \<Rightarrow>
                if p_name client \<noteq> p_name dest \<or> p_realm client \<noteq> p_realm dest
                then Inl (proto ERR_SERVER_NOMATCH STATUS_SECOND_TKT_MISMATCH)
                else Inr ()))"

definition non_tgt_option :: "kdc_req_body \<Rightarrow> bool" where
  "non_tgt_option body =
     (flag (rb_kdc_options body) BIT_FORWARDED \<or> flag (rb_kdc_options body) BIT_PROXY
      \<or> flag (rb_kdc_options body) BIT_RENEW \<or> flag (rb_kdc_options body) BIT_VALIDATE)"

definition check_tgs_constraints_skeleton ::
  "ktime \<Rightarrow> kdc_req_body \<Rightarrow> principal_name \<Rightarrow> string \<Rightarrow> enc_ticket_part \<Rightarrow> principal_name \<Rightarrow> string \<Rightarrow> bool \<Rightarrow> bool \<Rightarrow>
   kdc_error + unit" where
  "check_tgs_constraints_skeleton now body header_sname header_realm enc_tkt req_sname req_realm renew validate =
     (let opts = flag (rb_kdc_options body); fl = flag (tk_flags enc_tkt) in
      if opts BIT_FORWARDED \<and> \<not> fl BIT_FORWARDABLE then Inl (proto ERR_BADOPTION STATUS_TGT_NOT_FORWARDABLE)
      else if opts BIT_PROXY \<and> \<not> fl BIT_PROXIABLE then Inl (proto ERR_BADOPTION STATUS_TGT_NOT_PROXIABLE)
      else if (opts BIT_MAY_POSTDATE \<or> opts BIT_POSTDATED) \<and> \<not> fl BIT_MAY_POSTDATE
      then Inl (proto ERR_BADOPTION STATUS_TGT_NOT_POSTDATABLE)
      else if validate \<and> \<not> fl BIT_INVALID then Inl (proto ERR_BADOPTION STATUS_VALIDATE_VALID_TICKET)
      else if renew \<and> \<not> fl BIT_RENEWABLE then Inl (proto ERR_BADOPTION STATUS_TICKET_NOT_RENEWABLE)
      else if fl BIT_INVALID \<and> \<not> validate then Inl (proto ERR_TKT_NYV STATUS_TICKET_NOT_VALID)
      else if validate \<and>
              delta_seconds now (case tk_starttime enc_tkt of None \<Rightarrow> tk_authtime enc_tkt | Some t \<Rightarrow> t) < 0
      then Inl (proto ERR_TKT_NYV STATUS_NOT_YET_VALID)
      else if renew \<and>
              (case tk_renew_till enc_tkt of None \<Rightarrow> True | Some till \<Rightarrow> unix_seconds till \<le> unix_seconds now)
      then Inl (proto ERR_TKT_EXPIRED STATUS_TKT_EXPIRED)
      else if non_tgt_option body then
        (if header_sname \<noteq> req_sname \<or> header_realm \<noteq> req_realm
         then Inl (proto ERR_SERVER_NOMATCH STATUS_RENEW_SERVER_MISMATCH)
         else if opts BIT_PROXY \<and> is_krbtgt req_sname then Inl (proto ERR_BADOPTION STATUS_CANT_PROXY_TGT)
         else Inr ())
      else if \<not> is_krbtgt header_sname then Inl (proto ERR_NOT_US STATUS_BAD_TGS_SERVER_NAME)
      else if \<not> is_krbtgt_for header_sname req_realm then Inl (proto ERR_NOT_US STATUS_BAD_TGS_SERVER_INSTANCE)
      else Inr ())"

definition s4u2self_as_invalid_options :: "kdc_req_body \<Rightarrow> bool" where
  "s4u2self_as_invalid_options body =
     (flag (rb_kdc_options body) BIT_FORWARDED \<or> flag (rb_kdc_options body) BIT_PROXY
      \<or> flag (rb_kdc_options body) BIT_VALIDATE \<or> flag (rb_kdc_options body) BIT_RENEW
      \<or> flag (rb_kdc_options body) BIT_ENC_TKT_IN_SKEY \<or> flag (rb_kdc_options body) BIT_CNAME_IN_ADDL_TKT)"

text \<open>\<open>Principal::from_keys\<close> at the arguments of \<open>check_tgs_s4u2self\<close>: the nameless server.\<close>

definition empty_principal :: principal where
  "empty_principal =
     \<lparr>p_name = \<lparr>name_type = NT_UNKNOWN, name_string = []\<rparr>, p_realm = [], p_keys = [],
      p_max_life = 0, p_pw_expire = 0, p_attributes = 0, p_max_renewable_life = 0,
      p_expiration = 0, p_last_success = 0, p_last_failed = 0, p_fail_auth_count = 0,
      p_tl_data = [], p_s4u_allowed_from = [], p_s4u_allowed_to = [], p_pw_policy = None,
      p_string_attrs = []\<rparr>"

text \<open>\<open>None\<close> is the panic of \<open>validate_as_request\<close>.\<close>

definition check_tgs_s4u2self ::
  "ktime \<Rightarrow> store \<Rightarrow> kdc_req_body \<Rightarrow> s4u2self \<Rightarrow> bool \<Rightarrow> bool \<Rightarrow> enc_ticket_part \<Rightarrow> bytes option \<Rightarrow>
   (kdc_error + unit) option" where
  "check_tgs_s4u2self now s body s4u header_cross is_referral enc_tkt header_pac =
     (if s4u2self_as_invalid_options body then Some (Inl (proto ERR_BADOPTION STATUS_INVALID_S4U2SELF_OPTIONS))
      else if \<not> header_cross \<and> is_referral then Some (Inl (proto ERR_S_PRINCIPAL_UNKNOWN STATUS_LOOKING_UP_SERVER))
      else if s4_local s4u \<noteq> None \<and> header_cross \<and> \<not> is_referral
      then Some (Inl (proto ERR_C_PRINCIPAL_UNKNOWN STATUS_NOT_CROSS_REALM_REQUEST))
      else if s4_local s4u = None \<and> \<not> header_cross then Some (Inl (proto ERR_POLICY STATUS_S4U2SELF_CLIENT_NOT_OURS))
      else if s4_local s4u = None \<and> name_string (s4_user s4u) = []
      then Some (Inl (proto ERR_POLICY STATUS_INVALID_XREALM_S4U2SELF_REQUEST))
      else
        (case header_pac of
           None \<Rightarrow> Some (Inl (proto ERR_TGT_REVOKED STATUS_S4U2SELF_NO_PAC))
         | Some raw \<Rightarrow>
             (case pac_parse raw of
                Inl _ \<Rightarrow> Some (Inl (proto ERR_BADOPTION STATUS_S4U2SELF_LOCAL_PAC_CLIENT))
              | Inr parsed \<Rightarrow>
                  let authtime = unix_seconds (tk_authtime enc_tkt) in
                  (case s4_local s4u of
                     Some client \<Rightarrow>
                       if \<not> pac_client_info_eq parsed authtime (components_joined (tk_cname enc_tkt)) None
                       then Some (Inl (proto ERR_BADOPTION STATUS_S4U2SELF_LOCAL_PAC_CLIENT))
                       else validate_as_request s client empty_principal body (unix_seconds now)
                   | None \<Rightarrow>
                       if \<not> pac_client_info_eq parsed authtime (components_joined (s4_user s4u)) (Some (s4_realm s4u))
                       then Some (Inl (proto ERR_BADOPTION STATUS_S4U2SELF_FOREIGN_PAC_CLIENT))
                       else Some (Inr ())))))"

definition check_tgs_policy_flags ::
  "ktime \<Rightarrow> principal \<Rightarrow> kdc_req_body \<Rightarrow> bool \<Rightarrow> enc_ticket_part \<Rightarrow> kdc_error + unit" where
  "check_tgs_policy_flags now server body header_is_tgt tkt =
     (let opts = flag (rb_kdc_options body) in
      if attr server KDB_DISALLOW_RENEWABLE \<and> opts BIT_RENEWABLE then Inl (proto ERR_POLICY STATUS_NON_RENEWABLE_TICKET)
      else if attr server KDB_DISALLOW_POSTDATED \<and> opts BIT_MAY_POSTDATE
      then Inl (proto ERR_CANNOT_POSTDATE STATUS_NON_POSTDATABLE_TICKET)
      else if attr server KDB_DISALLOW_DUP_SKEY \<and> opts BIT_ENC_TKT_IN_SKEY
      then Inl (proto ERR_POLICY STATUS_DUP_SKEY_DISALLOWED)
      else if attr server KDB_DISALLOW_ALL_TIX then Inl (proto ERR_S_PRINCIPAL_UNKNOWN STATUS_SERVER_LOCKED_OUT)
      else if attr server KDB_DISALLOW_SVR \<and> \<not> opts BIT_ENC_TKT_IN_SKEY
      then Inl (proto ERR_MUST_USE_USER2USER STATUS_SERVER_NOT_ALLOWED)
      else if attr server KDB_DISALLOW_TGT_BASED \<and> header_is_tgt
      then Inl (proto ERR_POLICY STATUS_TGT_BASED_NOT_ALLOWED)
      else if attr server KDB_REQUIRES_HW_AUTH \<and> \<not> flag (tk_flags tkt) BIT_HW_AUTHENT
      then Inl (proto ERR_GENERIC STATUS_NO_HW_PREAUTH)
      else if attr server KDB_REQUIRES_PRE_AUTH \<and> \<not> flag (tk_flags tkt) BIT_PRE_AUTHENT
      then Inl (proto ERR_GENERIC STATUS_NO_PREAUTH)
      else check_db_times (unix_seconds now) None server)"

subsection \<open>Times and flags of the ticket\<close>

record ticket_times =
  tt_authtime :: ktime
  tt_starttime :: ktime
  tt_end :: ktime
  tt_flags :: kerberos_flags
  tt_renew_till :: "ktime option"

definition requested_start :: "kdc_req_body \<Rightarrow> ktime \<Rightarrow> ktime" where
  "requested_start body now =
     (if flag (rb_kdc_options body) BIT_POSTDATED
      then (case rb_from body of None \<Rightarrow> from_unix_seconds 0 | Some t \<Rightarrow> t) else now)"

definition mark_transited :: "bool \<Rightarrow> kerberos_flags \<Rightarrow> kerberos_flags" where
  "mark_transited on flags = (if on then with_bit flags BIT_TRANSITED_POLICY_CHECKED True else flags)"

definition tgs_ticket_times ::
  "(ktime \<Rightarrow> int \<Rightarrow> ktime option) \<Rightarrow> ktime \<Rightarrow> policy \<Rightarrow> kdc_req_body \<Rightarrow> enc_ticket_part \<Rightarrow> ktime \<Rightarrow> principal option \<Rightarrow>
   principal \<Rightarrow> bool \<Rightarrow> kdc_error + ticket_times" where
  "tgs_ticket_times ca now pol body enc_tkt subject_authtime client server set_transited_flag =
     (let opts = rb_kdc_options body;
          header_start = (case tk_starttime enc_tkt of None \<Rightarrow> tk_authtime enc_tkt | Some t \<Rightarrow> t) in
      if flag opts BIT_RENEW then
        (if \<not> flag (tk_flags enc_tkt) BIT_RENEWABLE then Inl (proto ERR_BADOPTION STATUS_TICKET_NOT_RENEWABLE)
         else
           let starttime = requested_start body now;
               start_s = unix_seconds header_start;
               end_s = unix_seconds (tk_endtime enc_tkt);
               hlife = sint (end_s - start_s);
               hlife = (if end_s > start_s \<and> hlife < 0 then 2 ^ 31 - 1 else hlife);
               fin = (case add_seconds ca starttime hlife of Inr e \<Rightarrow> e | Inl _ \<Rightarrow> starttime);
               fin = (case tk_renew_till enc_tkt of
                        Some till \<Rightarrow> if unix_seconds till < unix_seconds fin then till else fin
                      | None \<Rightarrow> fin);
               flags = get_ticket_flags opts client server (Some (tk_flags enc_tkt));
               (flags, renew_till) = kdc_get_ticket_renewtime ca pol body (Some enc_tkt) client server flags starttime fin in
           Inr \<lparr>tt_authtime = tk_authtime enc_tkt, tt_starttime = starttime, tt_end = fin,
                tt_flags = mark_transited set_transited_flag flags, tt_renew_till = renew_till\<rparr>)
      else if flag opts BIT_VALIDATE then
        Inr \<lparr>tt_authtime = tk_authtime enc_tkt, tt_starttime = header_start, tt_end = tk_endtime enc_tkt,
             tt_flags = mark_transited set_transited_flag
               (get_ticket_flags opts client server (Some (tk_flags enc_tkt))),
             tt_renew_till = tk_renew_till enc_tkt\<rparr>
      else
        let starttime = requested_start body now in
        andthen (kdc_get_ticket_endtime ca pol starttime (Some (tk_endtime enc_tkt)) (rb_till body) client server) (\<lambda>fin.
        let flags = mark_transited set_transited_flag
                      (get_ticket_flags opts client server (Some (tk_flags enc_tkt)));
            (flags, renew_till) = kdc_get_ticket_renewtime ca pol body (Some enc_tkt) client server flags starttime fin in
        Inr \<lparr>tt_authtime = subject_authtime, tt_starttime = starttime, tt_end = fin, tt_flags = flags,
             tt_renew_till = renew_till\<rparr>))"

subsection \<open>Keys of the header ticket\<close>

lemma find_server_key_Inr:
  assumes "find_server_key pol p et kvno = Inr (key, v)"
  shows "\<exists>k \<in> set (p_keys p). ke_key k = key \<and> ke_kvno k = v \<and> etype_permitted pol (ke_etype k) \<and>
    (kvno \<noteq> 0 \<longrightarrow> v = kvno) \<and> (\<forall>e. et = Some e \<longrightarrow> ke_etype k = e)"
proof -
  obtain k w where k: "policy_find_enctype pol p et w = Inr k" "kvno \<noteq> 0 \<longrightarrow> w = kvno" "ke_key k = key" "ke_kvno k = v"
  proof (cases "kvno = 0")
    case True
    let ?ok = "\<lambda>v. case policy_find_enctype pol p et v of Inl _ \<Rightarrow> None | Inr k \<Rightarrow> Some k"
    obtain k ks where l: "List.map_filter ?ok (kvnos_desc (p_keys p)) = k # ks" "ke_key k = key" "ke_kvno k = v"
      using assms True by (auto simp: find_server_key_def Let_def split: list.splits if_splits)
    then have "k \<in> set (List.map_filter ?ok (kvnos_desc (p_keys p)))"
      by simp
    then obtain w where "?ok w = Some k"
      by (auto simp: List.map_filter_def)
    then have "policy_find_enctype pol p et w = Inr k"
      by (auto split: sum.splits)
    with l True show ?thesis
      by (intro that [of w k]) simp_all
  next
    case False
    then show ?thesis
      using assms by (intro that [of kvno "projr (policy_find_enctype pol p et kvno)"])
        (auto simp: find_server_key_def Let_def split: sum.splits option.splits if_splits)
  qed
  then show ?thesis
    using find_enctype_Inr [of p et w "etype_permitted pol" k]
    by (auto simp: policy_find_enctype_def split: option.splits)
qed

text \<open>A ticket decrypted by the loop was decrypted by one of the entry's permitted keys; by the one of the
  ticket's key version if it names one.\<close>

definition opened_by ::
  "tgs_env \<Rightarrow> policy \<Rightarrow> principal \<Rightarrow> encrypted_data \<Rightarrow> u32 \<Rightarrow> enc_ticket_part \<Rightarrow> protocol_key \<Rightarrow> bool" where
  "opened_by env pol p ed tkvno part key \<longleftrightarrow>
     (\<exists>k \<in> set (p_keys p). ke_key k = key \<and> etype_permitted pol (ke_etype k) \<and> (tkvno \<noteq> 0 \<longrightarrow> ke_kvno k = tkvno)) \<and>
     (\<exists>plain. decrypt_enc_data (te_prims env) key KU_TICKET (ed_etype ed) (ed_cipher ed) = Inr plain \<and>
        te_decode_ticket_part env plain = Inr part)"

lemma try_server_key_Inr:
  assumes "try_server_key env pol p ed et se kvno = (v, Inr (part, key, plain))"
  shows "etype_permitted pol et \<and> opened_by env pol p ed kvno part key"
  using assms find_server_key_Inr [of pol p se kvno key]
  by (auto simp: try_server_key_def opened_by_def split: sum.splits if_splits prod.splits)

lemma decrypt_tgt_loop_Inr:
  assumes "decrypt_tgt_loop env pol p ed et se tkvno left kvno = Inr (part, key, plain)" and "tkvno \<noteq> 0 \<longrightarrow> kvno = tkvno"
  shows "etype_permitted pol et \<and> opened_by env pol p ed tkvno part key"
  using assms
proof (induction left arbitrary: kvno)
  case 0
  then show ?case
    using try_server_key_Inr [of env pol p ed et se kvno _ part key plain]
    by (subst (asm) decrypt_tgt_loop.simps) (auto simp: opened_by_def split: prod.splits sum.splits if_splits)
next
  case (Suc n)
  obtain v r where t: "try_server_key env pol p ed et se kvno = (v, r)"
    by (cases "try_server_key env pol p ed et se kvno")
  show ?case
  proof (cases r)
    case (Inr x)
    then have "r = Inr (part, key, plain)"
      using Suc.prems(1) t by (subst (asm) decrypt_tgt_loop.simps) simp
    then show ?thesis
      using t try_server_key_Inr [of env pol p ed et se kvno v part key plain] Suc.prems(2)
      by (auto simp: opened_by_def)
  next
    case (Inl e)
    with t have "decrypt_tgt_loop env pol p ed et se tkvno (Suc n) kvno =
        (if tkvno \<noteq> 0 \<or> v \<le> 1 then Inl e else decrypt_tgt_loop env pol p ed et se tkvno n (v - 1))"
      by (simp add: decrypt_tgt_loop.simps [of env pol p ed et se tkvno "Suc n" kvno])
    with Suc.prems(1) have "tkvno = 0" "decrypt_tgt_loop env pol p ed et se tkvno n (v - 1) = Inr (part, key, plain)"
      by (auto split: if_splits)
    then show ?thesis
      using Suc.IH by simp
  qed
qed

lemma utf8_realm_Inr [simp]: "utf8_realm r = Inr x \<longleftrightarrow> utf8_valid r \<and> x = r"
  by (auto simp: utf8_realm_def from_utf8_def)

lemma decrypt_presented_tgt_Inr:
  assumes "decrypt_presented_tgt env s ap et = Inr (part, key, plain, p)"
  shows "store_get s (lookup_principal_id (tkt_sname (ap_ticket ap)) (tkt_realm (ap_ticket ap))) = Some p \<and>
    \<not> attr p KDB_DISALLOW_ALL_TIX \<and> \<not> attr p KDB_DISALLOW_SVR \<and> etype_permitted (s_policy s) et \<and>
    opened_by env (s_policy s) p (tkt_enc_part (ap_ticket ap))
      (case ed_kvno (tkt_enc_part (ap_ticket ap)) of None \<Rightarrow> 0 | Some v \<Rightarrow> v) part key"
proof -
  let ?ed = "tkt_enc_part (ap_ticket ap)"
  let ?v = "case ed_kvno ?ed of None \<Rightarrow> 0 | Some v \<Rightarrow> v"
  obtain se where "store_get s (lookup_principal_id (tkt_sname (ap_ticket ap)) (tkt_realm (ap_ticket ap))) = Some p"
    "\<not> attr p KDB_DISALLOW_ALL_TIX" "\<not> attr p KDB_DISALLOW_SVR"
    "decrypt_tgt_loop env (s_policy s) p ?ed et se ?v 2 ?v = Inr (part, key, plain)"
    using assms by (auto simp: decrypt_presented_tgt_def Let_def split: option.splits if_splits)
  then show ?thesis
    using decrypt_tgt_loop_Inr by fastforce
qed

lemma key_from_bytes_Inr: "key_from_bytes e b = Inr k \<longleftrightarrow> k = \<lparr>pk_etype = e, pk_bytes = b\<rparr> \<and> length b = key_len e"
  by (auto simp: key_from_bytes_def)

lemma known_or_iana_Inr: "known_or_iana n = Inr e \<Longrightarrow> known n = Inr e"
  by (auto simp: known_or_iana_def from_iana_def from_iana_policy_def split: sum.splits if_splits)

definition times_ok :: "tgs_env \<Rightarrow> policy \<Rightarrow> enc_ticket_part \<Rightarrow> bool" where
  "times_ok env pol part \<longleftrightarrow>
     (case tk_starttime part of None \<Rightarrow> tk_authtime part | Some t \<Rightarrow> t) \<le> te_now env + po_skew pol \<and>
     te_now env \<le> tk_endtime part + po_skew pol"

lemma delta_seconds_less: "- (2 ^ 62) < c \<Longrightarrow> c \<le> 2 ^ 62 \<Longrightarrow> delta_seconds a b < c \<longleftrightarrow> a - b < c"
  by (auto simp: delta_seconds_def saturate_i64_def i64_min_def i64_max_def)

lemma check_header_times_Inr:
  assumes "0 \<le> po_skew pol" and "po_skew pol < 2 ^ 62"
  shows "check_header_times_rd_req env pol part = Inr () \<longleftrightarrow> times_ok env pol part"
  using assms by (auto simp: check_header_times_rd_req_def times_ok_def Let_def delta_seconds_less)

text \<open>What \<open>read_tgs_header\<close> has checked of the header it returns.\<close>

lemma read_tgs_header_Inr:
  assumes "read_tgs_header env s ap_raw sender = Inr h"
  shows "te_decode_ap env ap_raw = Inr (h_ap h) \<and>
    \<not> flag (ap_options (h_ap h)) AP_USE_SESSION_KEY \<and> \<not> flag (ap_options (h_ap h)) AP_MUTUAL_REQUIRED \<and>
    h_header_realm h = tkt_realm (ap_ticket (h_ap h)) \<and>
    (\<exists>et plain. known (ed_etype (tkt_enc_part (ap_ticket (h_ap h)))) = Inr et \<and>
       decrypt_presented_tgt env s (h_ap h) et = Inr (h_enc_tkt h, h_tgt_key h, plain, h_header_server h)) \<and>
    known (keytype (tk_key (h_enc_tkt h))) = Inr (pk_etype (h_session h)) \<and>
    key_from_bytes (pk_etype (h_session h)) (keyvalue (tk_key (h_enc_tkt h))) = Inr (h_session h) \<and>
    (\<exists>plain. decrypt_enc_data (te_prims env) (h_session h) KU_TGS_REQ_AUTHENTICATOR (ed_etype (ap_authenticator (h_ap h)))
        (ed_cipher (ap_authenticator (h_ap h))) = Inr plain \<and>
       te_decode_authenticator env plain = Inr (h_authenticator h)) \<and>
    principal_compare (au_cname (h_authenticator h)) (au_crealm (h_authenticator h))
      (tk_cname (h_enc_tkt h)) (tk_crealm (h_enc_tkt h)) \<and>
    (case sender of None \<Rightarrow> True | Some remote \<Rightarrow> address_search remote (tk_caddr (h_enc_tkt h))) \<and>
    check_transited (h_enc_tkt h) (h_header_realm h) (te_capaths env) = Inr () \<and>
    check_header_times_rd_req env (s_policy s) (h_enc_tkt h) = Inr ()"
  using assms unfolding read_tgs_header_def
  apply (simp only: andthen_eq_Inr map_err_eq_Inr if_guard_Inr split_paired_Ex prod.case utf8_realm_Inr sum.inject)
  apply (elim exE conjE)
  apply (drule known_or_iana_Inr)+
  apply hypsubst
  apply (cases sender)
   apply (simp_all add: key_from_bytes_Inr key_usage_new_def)
  done

text \<open>An octet string is sealed under a key if it is the encryption of the plaintext under some confounder.\<close>

definition sealed :: "prims \<Rightarrow> protocol_key \<Rightarrow> u32 \<Rightarrow> bytes \<Rightarrow> bytes \<Rightarrow> bool" where
  "sealed P key usage plain ct \<longleftrightarrow>
     (\<exists>conf. length conf = 16 \<and> fst (encrypt_inner_state P (\<lambda>_. None) key usage conf plain initial_iv) = Inr ct)"

lemma decrypt_enc_data_sealed:
  assumes "prims_ok P" and "key_ok key" and "pk_etype key \<noteq> Des3CbcSha1"
    and "decrypt_enc_data P key usage e ct = Inr plain"
  shows "sealed P key usage plain ct"
proof -
  have "fst (decrypt_inner_state P key usage ct initial_iv) = Inr plain"
    using assms(4) by (auto simp: decrypt_enc_data_def decrypt_def)
  then obtain iv' where "decrypt_inner_state P key usage ct initial_iv = (Inr plain, iv')"
    by (metis prod.collapse)
  then obtain conf where "length conf = 16" "encrypt_inner_state P (\<lambda>_. None) key usage conf plain initial_iv = (Inr ct, iv')"
    using decrypt_iff_encrypt [OF assms(1,2) length_initial_iv assms(3)] by blast
  then show ?thesis
    unfolding sealed_def by (intro exI [of _ conf]) simp
qed

lemma header_cksum_Inr:
  "header_cksum env session body auth = Inr () \<longleftrightarrow>
     (\<exists>ck. au_cksum auth = Some ck \<and> cksumtype_is_known (cksumtype ck) \<and>
        verify_checksum_type (te_prims env) session KU_TGS_REQ_AUTH_CKSUM body (cksumtype ck) (cksum_octets ck) = Inr ())"
  by (auto simp: header_cksum_def key_usage_new_def cksumtype_is_coll_proof_def split: option.splits)

lemma process_tgs_header_Inr:
  assumes "process_tgs_header env s ap_raw body sender = Some (Inr h)"
  shows "read_tgs_header env s ap_raw sender = Inr h \<and>
    header_cksum env (h_session h) body (h_authenticator h) = Inr () \<and>
    find_authdata (\<lambda>raw. map_err (asn1_refusal raw 0 16) (te_decode_authdata env raw))
      (tk_authorization_data (h_enc_tkt h)) (au_authorization_data (h_authenticator h)) AD_FX_ARMOR = Some (Inr [])"
  using assms by (auto simp: process_tgs_header_def split: sum.splits)

subsection \<open>Flags and times of the ticket\<close>

lemma flag_mark_transited:
  "n \<noteq> BIT_TRANSITED_POLICY_CHECKED \<Longrightarrow> flag (mark_transited b fl) n = flag fl n"
  by (simp add: mark_transited_def flag_with_bit)

lemma length_mark_transited [simp]: "length (mark_transited b fl) = length fl"
  by (simp add: mark_transited_def)

lemma length_get_ticket_flags:
  "length h = 32 \<Longrightarrow> length (get_ticket_flags req client server (Some h)) = 32"
  by (simp add: get_ticket_flags_def drop_disallowed_def apply_header_def Let_def length_flags_if)

lemma flag_copied:
  "length h = 32 \<Longrightarrow> flag req BIT_VALIDATE \<or> flag req BIT_RENEW \<Longrightarrow>
     flag (get_ticket_flags req client server (Some h)) n = (flag h n \<and> n \<noteq> BIT_INVALID)"
  by (auto simp: get_ticket_flags_def flag_with_bit)

text \<open>The flags a header ticket entitles its holder to.\<close>

definition flags_entitled :: "kerberos_flags \<Rightarrow> kerberos_flags \<Rightarrow> bool" where
  "flags_entitled h fl \<longleftrightarrow>
     (\<forall>n \<in> {BIT_FORWARDABLE, BIT_PROXIABLE, BIT_MAY_POSTDATE, BIT_INITIAL, BIT_PRE_AUTHENT, BIT_HW_AUTHENT,
            BIT_ANONYMOUS, BIT_RENEWABLE}. flag fl n \<longrightarrow> flag h n) \<and>
     (flag fl BIT_FORWARDED \<longrightarrow> flag h BIT_FORWARDED \<or> flag h BIT_FORWARDABLE) \<and>
     (flag fl BIT_PROXY \<longrightarrow> flag h BIT_PROXY \<or> flag h BIT_PROXIABLE) \<and>
     (flag fl BIT_POSTDATED \<longrightarrow> flag h BIT_POSTDATED \<or> flag h BIT_MAY_POSTDATE)"

lemma flags_entitled_mark [simp]: "flags_entitled h (mark_transited b fl) = flags_entitled h fl"
  by (simp add: flags_entitled_def flag_mark_transited)

lemma flags_entitled_copied:
  "length h = 32 \<Longrightarrow> flag req BIT_VALIDATE \<or> flag req BIT_RENEW \<Longrightarrow>
     flags_entitled h (get_ticket_flags req client server (Some h))"
  by (simp add: flags_entitled_def flag_copied)

lemma flags_entitled_fresh:
  assumes "length h = 32" and "\<not> flag req BIT_VALIDATE" and "\<not> flag req BIT_RENEW"
    and "flag req BIT_FORWARDED \<longrightarrow> flag h BIT_FORWARDABLE" and "flag req BIT_PROXY \<longrightarrow> flag h BIT_PROXIABLE"
    and "flag req BIT_MAY_POSTDATE \<or> flag req BIT_POSTDATED \<longrightarrow> flag h BIT_MAY_POSTDATE"
  shows "flags_entitled h (get_ticket_flags req client server (Some h))"
  using assms by (auto simp: flags_entitled_def flag_tgs_ticket flag_apply_header flag_requested)

lemma flags_entitled_renewtime:
  assumes "kdc_get_ticket_renewtime ca pol body (Some tkt) client server flags start endt = (fl, r)"
    and "length flags = 32" and "flags_entitled (tk_flags tkt) flags"
  shows "flags_entitled (tk_flags tkt) fl"
proof -
  have "flag fl n = (if n = BIT_RENEWABLE then r \<noteq> None else flag flags n)" for n
    by (rule renewtime_result(1) [OF assms(1,2)])
  moreover have "flag (tk_flags tkt) BIT_RENEWABLE" if "r \<noteq> None"
    using that renewtime_result(3) [OF assms(1,2) _ refl] by auto
  ultimately show ?thesis
    using assms(3) by (auto simp: flags_entitled_def)
qed

lemma unix_seconds_le: "t \<le> uint w \<Longrightarrow> unix_seconds t \<le> w"
  using uint_lt2p [of w] by (auto simp: unix_seconds_def word_le_def word_of_int_inverse max_def)

lemma renewtime_till:
  assumes "kdc_get_ticket_renewtime ca pol body (Some tkt) client server flags start endt = (fl, Some t)"
    and "length flags = 32" and "tk_renew_till tkt = Some till"
  shows "unix_seconds t \<le> unix_seconds till"
proof -
  obtain rt where "t = uint (renew_limited ca pol (Some tkt) client server start (unix_seconds rt))"
    using renewtime_result(4) [OF assms(1,2) refl] by blast
  moreover have "renew_limited ca pol (Some tkt) client server start (unix_seconds rt) \<le> unix_seconds till"
    by (rule renew_limited_le(2) [OF refl assms(3)])
  ultimately show ?thesis
    by (intro unix_seconds_le) (simp add: word_le_def)
qed

lemma endtime_until:
  "start + Min (insert (min (u - start) c) (life_limits client server pol)) \<le> (u :: int)"
proof -
  have "finite (life_limits client server pol)"
    by (cases client) (simp_all add: life_limits_def)
  then have "Min (insert (min (u - start) c) (life_limits client server pol)) \<le> min (u - start) c"
    by (intro Min_le) simp_all
  then show ?thesis
    by linarith
qed

lemma until_of_header: "until_of till (Some e) \<le> uint (unix_seconds e)"
  by (simp add: until_of_def)

subsection \<open>All flags of an issued ticket\<close>




subsection \<open>Properties\<close>

text \<open>
  C1: An accepted header is authentic.  When \<open>process_tgs_header\<close> accepts a request, the ticket is for a
  server in the database that may be a server, it was sealed (key usage 2) under a permitted key of that
  entry, of the ticket's version if it names one; the session key is the well-formed key inside the ticket, the
  authenticator was sealed under it (key usage 7) and names the ticket's client; the sender's address is one of
  the ticket's, the transited realms were checked, the ticket is valid now up to the clock skew, the ticket is not
  for armor only, and the authenticator's checksum (key usage 6) covers the request body.
\<close>
theorem tgs_header_authentic:
  assumes "process_tgs_header env s ap_raw body sender = Some (Inr h)" and "prims_ok (te_prims env)"
    and "\<forall>k \<in> set (p_keys (h_header_server h)). key_ok (ke_key k) \<and> pk_etype (ke_key k) \<noteq> Des3CbcSha1"
    and "0 \<le> po_skew (s_policy s)" and "po_skew (s_policy s) < 2 ^ 62"
  shows "let P = te_prims env; tkt = ap_ticket (h_ap h); part = h_enc_tkt h; auth = h_authenticator h;
             server = h_header_server h; session = h_session h in
    store_get s (lookup_principal_id (tkt_sname tkt) (tkt_realm tkt)) = Some server \<and>
    \<not> attr server KDB_DISALLOW_ALL_TIX \<and> \<not> attr server KDB_DISALLOW_SVR \<and>
    (\<exists>k \<in> set (p_keys server). ke_key k = h_tgt_key h \<and> etype_permitted (s_policy s) (ke_etype k) \<and>
       (\<forall>v. ed_kvno (tkt_enc_part tkt) = Some v \<and> v \<noteq> 0 \<longrightarrow> ke_kvno k = v)) \<and>
    (\<exists>plain. sealed P (h_tgt_key h) KU_TICKET plain (ed_cipher (tkt_enc_part tkt)) \<and>
       te_decode_ticket_part env plain = Inr part) \<and>
    key_ok session \<and> known (keytype (tk_key part)) = Inr (pk_etype session) \<and> pk_bytes session = keyvalue (tk_key part) \<and>
    (pk_etype session \<noteq> Des3CbcSha1 \<longrightarrow>
       (\<exists>plain. sealed P session KU_TGS_REQ_AUTHENTICATOR plain (ed_cipher (ap_authenticator (h_ap h))) \<and>
          te_decode_authenticator env plain = Inr auth)) \<and>
    principal_compare (au_cname auth) (au_crealm auth) (tk_cname part) (tk_crealm part) \<and>
    (\<forall>remote. sender = Some remote \<longrightarrow> address_search remote (tk_caddr part)) \<and>
    check_transited part (tkt_realm tkt) (te_capaths env) = Inr () \<and> times_ok env (s_policy s) part \<and>
    find_authdata (\<lambda>raw. map_err (asn1_refusal raw 0 16) (te_decode_authdata env raw))
      (tk_authorization_data part) (au_authorization_data auth) AD_FX_ARMOR = Some (Inr []) \<and>
    (\<exists>ck. au_cksum auth = Some ck \<and>
       verify_checksum_type P session KU_TGS_REQ_AUTH_CKSUM body (cksumtype ck) (cksum_octets ck) = Inr ())"
proof -
  note r = process_tgs_header_Inr [OF assms(1)]
  note h = read_tgs_header_Inr [OF conjunct1 [OF r]]
  obtain et plain where d: "decrypt_presented_tgt env s (h_ap h) et = Inr (h_enc_tkt h, h_tgt_key h, plain, h_header_server h)"
    using h by (elim conjE exE) (rule that)
  note p = decrypt_presented_tgt_Inr [OF d, unfolded opened_by_def]
  obtain k where k: "k \<in> set (p_keys (h_header_server h))" "ke_key k = h_tgt_key h" "etype_permitted (s_policy s) (ke_etype k)"
    "(case ed_kvno (tkt_enc_part (ap_ticket (h_ap h))) of None \<Rightarrow> 0 | Some v \<Rightarrow> v) \<noteq> 0 \<longrightarrow>
      ke_kvno k = (case ed_kvno (tkt_enc_part (ap_ticket (h_ap h))) of None \<Rightarrow> 0 | Some v \<Rightarrow> v)"
    using p by (elim conjE bexE) (rule that)
  obtain tplain where tplain: "decrypt_enc_data (te_prims env) (h_tgt_key h) KU_TICKET (ed_etype (tkt_enc_part (ap_ticket (h_ap h))))
      (ed_cipher (tkt_enc_part (ap_ticket (h_ap h)))) = Inr tplain" "te_decode_ticket_part env tplain = Inr (h_enc_tkt h)"
    using p by (elim conjE exE) (rule that)
  have tkey: "key_ok (h_tgt_key h)" "pk_etype (h_tgt_key h) \<noteq> Des3CbcSha1"
    using assms(3) k(1,2) by auto
  note tsealed = decrypt_enc_data_sealed [OF assms(2) tkey tplain(1)]
  obtain aplain where aplain: "decrypt_enc_data (te_prims env) (h_session h) KU_TGS_REQ_AUTHENTICATOR
      (ed_etype (ap_authenticator (h_ap h))) (ed_cipher (ap_authenticator (h_ap h))) = Inr aplain"
    "te_decode_authenticator env aplain = Inr (h_authenticator h)"
    using h by (elim conjE exE) (rule that)
  have session: "h_session h = \<lparr>pk_etype = pk_etype (h_session h), pk_bytes = keyvalue (tk_key (h_enc_tkt h))\<rparr>"
    "length (keyvalue (tk_key (h_enc_tkt h))) = key_len (pk_etype (h_session h))"
    using h by (simp_all only: key_from_bytes_Inr)
  then have sbytes: "pk_bytes (h_session h) = keyvalue (tk_key (h_enc_tkt h))"
    by (metis protocol_key.select_convs(2))
  then have sok: "key_ok (h_session h)"
    using session(2) by (simp add: key_ok_def)
  note asealed = decrypt_enc_data_sealed [OF assms(2) sok _ aplain(1)]
  have times: "times_ok env (s_policy s) (h_enc_tkt h)"
    using h check_header_times_Inr [OF assms(4,5)] by blast
  obtain ck where ck: "au_cksum (h_authenticator h) = Some ck"
    "verify_checksum_type (te_prims env) (h_session h) KU_TGS_REQ_AUTH_CKSUM body (cksumtype ck) (cksum_octets ck) = Inr ()"
    using r header_cksum_Inr by blast
  have 1: "\<exists>k \<in> set (p_keys (h_header_server h)). ke_key k = h_tgt_key h \<and> etype_permitted (s_policy s) (ke_etype k) \<and>
       (\<forall>v. ed_kvno (tkt_enc_part (ap_ticket (h_ap h))) = Some v \<and> v \<noteq> 0 \<longrightarrow> ke_kvno k = v)"
    using k by auto
  have 2: "\<forall>remote. sender = Some remote \<longrightarrow> address_search remote (tk_caddr (h_enc_tkt h))"
    using h by (cases sender) simp_all
  have 3: "\<exists>plain. sealed (te_prims env) (h_tgt_key h) KU_TICKET plain (ed_cipher (tkt_enc_part (ap_ticket (h_ap h)))) \<and>
      te_decode_ticket_part env plain = Inr (h_enc_tkt h)"
    using tsealed tplain(2) by (intro exI [of _ tplain] conjI)
  have 4: "pk_etype (h_session h) \<noteq> Des3CbcSha1 \<longrightarrow>
      (\<exists>plain. sealed (te_prims env) (h_session h) KU_TGS_REQ_AUTHENTICATOR plain (ed_cipher (ap_authenticator (h_ap h))) \<and>
        te_decode_authenticator env plain = Inr (h_authenticator h))"
    using asealed aplain(2) by (intro impI exI [of _ aplain] conjI)
  have 5: "check_transited (h_enc_tkt h) (tkt_realm (ap_ticket (h_ap h))) (te_capaths env) = Inr ()"
    using h by (elim conjE) (simp only:)
  have 6: "\<exists>ck. au_cksum (h_authenticator h) = Some ck \<and>
      verify_checksum_type (te_prims env) (h_session h) KU_TGS_REQ_AUTH_CKSUM body (cksumtype ck) (cksum_octets ck) = Inr ()"
    using ck by (intro exI [of _ ck] conjI)
  have 7: "known (keytype (tk_key (h_enc_tkt h))) = Inr (pk_etype (h_session h))"
    using h by (elim conjE)
  have 8: "principal_compare (au_cname (h_authenticator h)) (au_crealm (h_authenticator h))
      (tk_cname (h_enc_tkt h)) (tk_crealm (h_enc_tkt h))"
    using h by (elim conjE)
  have 9: "store_get s (lookup_principal_id (tkt_sname (ap_ticket (h_ap h))) (tkt_realm (ap_ticket (h_ap h)))) = Some (h_header_server h)"
    using p by (elim conjE)
  have 10: "\<not> attr (h_header_server h) KDB_DISALLOW_ALL_TIX"
    using p by (elim conjE)
  have 11: "\<not> attr (h_header_server h) KDB_DISALLOW_SVR"
    using p by (elim conjE)
  have 12: "find_authdata (\<lambda>raw. map_err (asn1_refusal raw 0 16) (te_decode_authdata env raw))
      (tk_authorization_data (h_enc_tkt h)) (au_authorization_data (h_authenticator h)) AD_FX_ARMOR = Some (Inr [])"
    using r by (elim conjE)
  show ?thesis
    unfolding Let_def using 1 2 3 4 5 6 7 8 9 10 11 12 times sok sbytes by (intro conjI)
qed

definition example_tgt_part :: enc_ticket_part where
  "example_tgt_part =
     \<lparr>tk_flags = flags_none, tk_key = \<lparr>keytype = 23, keyvalue = replicate 16 1\<rparr>, tk_crealm = ''R'',
      tk_cname = \<lparr>name_type = NT_PRINCIPAL, name_string = [''u'']\<rparr>, tk_transited = \<lparr>tr_type = 1, tr_contents = []\<rparr>,
      tk_authtime = 1000, tk_starttime = None, tk_endtime = 5000, tk_renew_till = None, tk_caddr = None,
      tk_authorization_data = None\<rparr>"

definition example_authenticator :: authenticator where
  "example_authenticator =
     \<lparr>au_vno = 5, au_crealm = ''R'', au_cname = \<lparr>name_type = NT_PRINCIPAL, name_string = [''u'']\<rparr>,
      au_cksum = Some \<lparr>cksumtype = - 138, cksum_octets = replicate 16 7\<rparr>, au_cusec = 0, au_ctime = 2000,
      au_subkey = None, au_seq_number = None, au_authorization_data = None\<rparr>"

definition example_ap :: ap_req where
  "example_ap =
     (let ed = \<lparr>ed_etype = 23, ed_kvno = Some 3, ed_cipher = replicate 16 7 @ replicate 8 2 @ [5]\<rparr> in
      \<lparr>ap_pvno = 5, ap_msg_type = 14, ap_options = flags_none,
       ap_ticket = \<lparr>tkt_vno = 5, tkt_realm = ''R'', tkt_sname = \<lparr>name_type = 2, name_string = [''krbtgt'', ''R'']\<rparr>,
         tkt_enc_part = ed\<rparr>,
       ap_authenticator = ed\<rparr>)"

definition example_tgs_env :: tgs_env where
  "example_tgs_env =
     \<lparr>te_prims = example_prims, te_decode_ap = (\<lambda>_. Inr example_ap),
      te_decode_ticket_part = (\<lambda>_. Inr example_tgt_part), te_decode_authenticator = (\<lambda>_. Inr example_authenticator),
      te_decode_authdata = (\<lambda>_. Inl []), te_decode_etypes = (\<lambda>_. Inl []), te_error_message = (\<lambda>_. []),
      te_capaths = (\<lambda>_. None), te_now = 2000\<rparr>"

definition example_tgs_entry :: principal where
  "example_tgs_entry =
     (example_principal 0 [\<lparr>ke_etype = Rc4Hmac, ke_key = example_rc4_key, ke_kvno = 3, ke_salt_type = None,
        ke_kdb_salt = None\<rparr>])\<lparr>p_name := \<lparr>name_type = 2, name_string = [''krbtgt'', ''R'']\<rparr>\<rparr>"

definition example_tgs_store :: store where
  "example_tgs_store =
     \<lparr>s_realm = ''R'', s_map = (\<lambda>pid. if pid = ''krbtgt/R@R'' then Some example_tgs_entry else None),
      s_policy = policy_default, s_policies = Map.empty\<rparr>"

definition example_header :: header_tgt where
  "example_header =
     \<lparr>h_ap = example_ap, h_enc_tkt = example_tgt_part, h_tgt_key = example_rc4_key, h_session = example_rc4_key,
      h_authenticator = example_authenticator, h_header_realm = ''R'', h_header_server = example_tgs_entry\<rparr>"

lemma example_header_accepted:
  "process_tgs_header example_tgs_env example_tgs_store [] [1] None = Some (Inr example_header)"
  by code_simp

lemma example_keys_ok:
  "\<forall>k \<in> set (p_keys (h_header_server example_header)). key_ok (ke_key k) \<and> pk_etype (ke_key k) \<noteq> Des3CbcSha1"
  using example_rc4_key_ok by (simp add: example_header_def example_tgs_entry_def example_principal_def)

theorem tgs_header_authentic_witness:
  "process_tgs_header example_tgs_env example_tgs_store [] [1] None = Some (Inr example_header) \<and>
   times_ok example_tgs_env policy_default example_tgt_part \<and>
   (\<exists>plain. sealed example_prims example_rc4_key 2 plain (replicate 16 7 @ replicate 8 2 @ [5]))"
proof -
  have "0 \<le> po_skew (s_policy example_tgs_store)" "po_skew (s_policy example_tgs_store) < 2 ^ 62"
    by (simp_all add: example_tgs_store_def policy_default_def)
  moreover have "prims_ok (te_prims example_tgs_env)"
    by (simp add: example_tgs_env_def example_prims_ok)
  ultimately show ?thesis
    using tgs_header_authentic [OF example_header_accepted _ example_keys_ok] example_header_accepted
    by (auto simp: Let_def example_header_def example_tgs_store_def example_tgs_env_def example_ap_def)
qed

text \<open>
  C2: A ticket-granting request escalates nothing.  If the request passes \<open>check_tgs_constraints_skeleton\<close>,
  the ticket it gets (by renewal, validation or afresh) has only flags its header ticket entitles it to: the
  forwardable, proxiable, postdatable, initial, authentication and renewable flags are the header's,
  and it is forwarded, a proxy or postdated only if the header allowed that.  A renewed ticket ends at most
  at the header's renew-till time, which is in the future, any other at most at the header's end time (for
  a start time that the 32-bit time difference of the code reaches); its renew-till time is at most the header's.
\<close>
theorem tgs_ticket_bounded:
  assumes "check_tgs_constraints_skeleton now body hs hr tkt rs rr
      (flag (rb_kdc_options body) BIT_RENEW) (flag (rb_kdc_options body) BIT_VALIDATE) = Inr ()"
    and "tgs_ticket_times ca now pol body tkt sauth client server tr = Inr tt"
    and "length (tk_flags tkt) = 32" and "chrono_ok ca"
    and "0 \<le> requested_start body now" and "requested_start body now < 2 ^ 32"
    and "requested_start body now \<le> until_of (rb_till body) (Some (tk_endtime tkt)) + 2 ^ 31"
  shows "flags_entitled (tk_flags tkt) (tt_flags tt) \<and>
    (if flag (rb_kdc_options body) BIT_RENEW
     then \<exists>till. tk_renew_till tkt = Some till \<and> unix_seconds now < unix_seconds till \<and>
            unix_seconds (tt_end tt) \<le> unix_seconds till
     else unix_seconds (tt_end tt) \<le> unix_seconds (tk_endtime tkt)) \<and>
    (\<forall>t till. tt_renew_till tt = Some t \<and> tk_renew_till tkt = Some till \<longrightarrow> unix_seconds t \<le> unix_seconds till)"
proof -
  let ?o = "rb_kdc_options body"
  have chk: "flag ?o BIT_FORWARDED \<longrightarrow> flag (tk_flags tkt) BIT_FORWARDABLE"
    "flag ?o BIT_PROXY \<longrightarrow> flag (tk_flags tkt) BIT_PROXIABLE"
    "flag ?o BIT_MAY_POSTDATE \<or> flag ?o BIT_POSTDATED \<longrightarrow> flag (tk_flags tkt) BIT_MAY_POSTDATE"
    "flag ?o BIT_RENEW \<longrightarrow> (\<exists>till. tk_renew_till tkt = Some till \<and> unix_seconds now < unix_seconds till)"
    using assms(1) by (auto simp: check_tgs_constraints_skeleton_def Let_def split: if_splits option.splits)
  consider (renew) "flag ?o BIT_RENEW" | (validate) "\<not> flag ?o BIT_RENEW" "flag ?o BIT_VALIDATE"
    | (fresh) "\<not> flag ?o BIT_RENEW" "\<not> flag ?o BIT_VALIDATE"
    by blast
  then show ?thesis
  proof cases
    case renew
    then obtain till where till: "tk_renew_till tkt = Some till" "unix_seconds now < unix_seconds till"
      using chk(4) by blast
    let ?g = "get_ticket_flags ?o client server (Some (tk_flags tkt))"
    obtain fin fl r where f: "kdc_get_ticket_renewtime ca pol body (Some tkt) client server ?g (requested_start body now) fin = (fl, r)"
      "unix_seconds fin \<le> unix_seconds till" "tt_end tt = fin" "tt_flags tt = mark_transited tr fl" "tt_renew_till tt = r"
      using assms(2) renew till(1)
      by (auto simp: tgs_ticket_times_def Let_def not_less split: if_splits prod.splits)
    have len: "length ?g = 32"
      by (rule length_get_ticket_flags [OF assms(3)])
    have "flags_entitled (tk_flags tkt) fl"
      using flags_entitled_renewtime [OF f(1) len] flags_entitled_copied [OF assms(3)] renew by blast
    then show ?thesis
      using renew till f renewtime_till [OF _ len till(1)] by auto
  next
    case validate
    then have "tt_flags tt = mark_transited tr (get_ticket_flags ?o client server (Some (tk_flags tkt)))"
      "tt_end tt = tk_endtime tkt" "tt_renew_till tt = tk_renew_till tkt"
      using assms(2) by (auto simp: tgs_ticket_times_def Let_def)
    then show ?thesis
      using validate flags_entitled_copied [OF assms(3)] by auto
  next
    case fresh
    let ?g = "mark_transited tr (get_ticket_flags ?o client server (Some (tk_flags tkt)))"
    obtain fin where fin: "kdc_get_ticket_endtime ca pol (requested_start body now) (Some (tk_endtime tkt)) (rb_till body) client server = Inr fin"
      using assms(2) fresh by (auto simp: tgs_ticket_times_def Let_def)
    obtain fl r where r: "kdc_get_ticket_renewtime ca pol body (Some tkt) client server ?g (requested_start body now) fin = (fl, r)"
      by (cases "kdc_get_ticket_renewtime ca pol body (Some tkt) client server ?g (requested_start body now) fin")
    have "tt_end tt = fin" "tt_flags tt = fl" "tt_renew_till tt = r"
      using assms(2) fresh fin r by (auto simp: tgs_ticket_times_def Let_def)
    note f = fin r this
    have len: "length ?g = 32"
      using length_get_ticket_flags [OF assms(3)] by simp
    have "flags_entitled (tk_flags tkt) ?g"
      using flags_entitled_fresh [OF assms(3) fresh(2,1)] chk(1-3) by simp
    then have "flags_entitled (tk_flags tkt) fl"
      by (rule flags_entitled_renewtime [OF f(2) len])
    moreover have "fin \<le> uint (unix_seconds (tk_endtime tkt))"
    proof -
      have "fin \<le> until_of (rb_till body) (Some (tk_endtime tkt))"
        using f(1) unfolding kdc_endtime_exact [OF assms(4-7)] by (auto intro: endtime_until)
      then show ?thesis
        using until_of_header order_trans by blast
    qed
    ultimately show ?thesis
      using fresh f renewtime_till [OF _ len] unix_seconds_le by auto
  qed
qed

lemma example_request_allowed:
  "check_tgs_constraints_skeleton 1500 example_body \<lparr>name_type = 2, name_string = [''krbtgt'', ''R'']\<rparr> ''R'' example_tgt_part
     \<lparr>name_type = 3, name_string = [''host'', ''a'']\<rparr> ''R''
     (flag (rb_kdc_options example_body) BIT_RENEW) (flag (rb_kdc_options example_body) BIT_VALIDATE) = Inr ()"
  by code_simp

theorem tgs_ticket_bounded_witness:
  "\<exists>tt. tgs_ticket_times (\<lambda>t s. Some (t + s)) 1500 policy_default example_body example_tgt_part 1000 None
       (example_principal 0 []) False = Inr tt \<and> flags_entitled flags_none (tt_flags tt) \<and>
     unix_seconds (tt_end tt) \<le> unix_seconds 5000"
proof -
  let ?t = "tgs_ticket_times (\<lambda>t s. Some (t + s)) 1500 policy_default example_body example_tgt_part 1000 None (example_principal 0 []) False"
  have "is_ok ?t"
    by code_simp
  then obtain tt where tt: "?t = Inr tt"
    by (auto simp: is_ok_iff)
  have start: "requested_start example_body 1500 = 1500"
    by (simp add: requested_start_def example_body_def flag_with_bit)
  have until: "until_of (rb_till example_body) (Some (tk_endtime example_tgt_part)) = 2000"
    by (simp add: until_of_def unix_seconds_def example_body_def example_tgt_part_def)
  have "flags_entitled (tk_flags example_tgt_part) (tt_flags tt) \<and>
      unix_seconds (tt_end tt) \<le> unix_seconds (tk_endtime example_tgt_part)"
    using tgs_ticket_bounded [OF example_request_allowed tt _ chrono_ok_plus] start until
    by (simp add: example_body_def example_tgt_part_def flag_with_bit)
  with tt show ?thesis
    by (intro exI [of _ tt]) (simp add: example_tgt_part_def)
qed



text \<open>
  A postdated request whose start time is more than 2^31 seconds after the end time of its header ticket: the
  32-bit difference is positive, and the ticket ends long after the header ticket and its own start.
\<close>
theorem postdated_end_wraps:
  "map_err (\<lambda>_. ()) (andthen (tgs_ticket_times (\<lambda>t s. Some (t + s)) 1500 policy_default
       (example_body\<lparr>rb_kdc_options := with_bit flags_none BIT_POSTDATED True, rb_from := Some 3000000000\<rparr>)
       (example_tgt_part\<lparr>tk_flags := with_bit flags_none BIT_MAY_POSTDATE True\<rparr>) 1000 None (example_principal 0 []) False)
     (\<lambda>tt. Inr (tt_starttime tt, tt_end tt, tk_endtime example_tgt_part))) = Inr (3000000000, 3000086400, 5000)"
  by code_simp

end
