(* ===== verification/AsReq.thy ===== *)
theory AsReq
  imports Tgs
begin

text \<open>
  The decisions of an AS request (\<open>crates/krb5-kdc/src/issue/as_req.rs\<close>): the lookup of client and server with the
  checks on them (\<open>lookup_client\<close>), the rule for anonymous requests and the one that holds back a ticket
  from a client that has not pre-authenticated (\<open>finish_preauth\<close>), and the flags and times of the ticket with the
  adjustments of the policy modules (\<open>finish_process_as_req\<close>, \<open>plugins.rs\<close>).  The database is its method \<open>fetch\<close>; what the
  pre-authentication mechanisms decided is the argument \<open>skip_timestamp\<close>, as in the code, and \<open>hw_preauth\<close>, which the code
  never sets, is one too.  \<open>hint\<close> is the encoded list of mechanisms an error carries, and the outcomes of the policy modules
  on the request are a list.
\<close>

subsection \<open>Looking up client and server\<close>








subsection \<open>Anonymous requests and pre-authentication\<close>



subsection \<open>Policy modules\<close>







subsection \<open>Flags and times of the ticket\<close>


subsection \<open>What an accepted request has passed\<close>



subsection \<open>Policy modules only shorten\<close>



subsection \<open>Flags and times of an issued ticket\<close>








subsection \<open>Properties\<close>







end
