(* ===== verification/Replay.thy ===== *)
theory Replay
  imports Crypto
begin

text \<open>
  The replay cache in memory (\<open>crates/krb5-protocol/src/replay.rs\<close>): tags of messages and the cache with its set
  of tags and its queue of buckets by expiry.  The mutex makes each call a step of a machine; a poisoned mutex
  is the flag \<open>rc_poisoned\<close>.  \<open>now\<close> is the number of seconds since the cache was made, read once per call; it
  and the expiry times are natural numbers, far from the limit of \<open>u64\<close>.
\<close>

abbreviation (input) TAG_MAX :: nat where "TAG_MAX \<equiv> 24"
abbreviation (input) FILE2_TAG_LEN :: nat where "FILE2_TAG_LEN \<equiv> 12"

subsection \<open>Tags\<close>

record replay_key =
  rk_len :: u8
  rk_tag :: bytes

definition replay_tag :: "bytes \<Rightarrow> replay_key" where
  "replay_tag bs =
     (let n = min (length bs) TAG_MAX in
      \<lparr>rk_len = of_nat n, rk_tag = take n bs @ replicate (TAG_MAX - n) 0\<rparr>)"

definition tag_from_ciphertext :: "enctype \<Rightarrow> bytes \<Rightarrow> replay_key option" where
  "tag_from_ciphertext e cipher =
     (case checksum_output_size (checksum_type e) of
        None \<Rightarrow> None
      | Some len \<Rightarrow>
          if length cipher < len then None else Some (replay_tag (drop (length cipher - len) cipher)))"

definition file2 :: "replay_key \<Rightarrow> replay_key" where
  "file2 k =
     \<lparr>rk_len = of_nat FILE2_TAG_LEN, rk_tag = take FILE2_TAG_LEN (rk_tag k) @ replicate (TAG_MAX - FILE2_TAG_LEN) 0\<rparr>"

subsection \<open>The cache\<close>

record replay_cache =
  rc_poisoned :: bool
  rc_seen :: "replay_key set"
  rc_buckets :: "(nat \<times> replay_key list) list"
  rc_max_entries :: nat

definition rc_with_limits :: "nat \<Rightarrow> replay_cache" where
  "rc_with_limits max_entries =
     \<lparr>rc_poisoned = False, rc_seen = {}, rc_buckets = [], rc_max_entries = max max_entries 1\<rparr>"

definition rc_new :: replay_cache where
  "rc_new = rc_with_limits 250000"

fun rc_prune :: "nat \<Rightarrow> (nat \<times> replay_key list) list \<Rightarrow> replay_key set \<Rightarrow> (nat \<times> replay_key list) list \<times> replay_key set" where
  "rc_prune now [] seen = ([], seen)"
| "rc_prune now ((expiry, ks) # bs) seen =
     (if expiry < now then rc_prune now bs (fold (\<lambda>k s. s - {k}) ks seen) else ((expiry, ks) # bs, seen))"

definition rc_push :: "nat \<Rightarrow> replay_key \<Rightarrow> (nat \<times> replay_key list) list \<Rightarrow> (nat \<times> replay_key list) list" where
  "rc_push expiry key bs =
     (if bs \<noteq> [] \<and> fst (last bs) = expiry then butlast bs @ [(expiry, snd (last bs) @ [key])]
      else bs @ [(expiry, [key])])"

text \<open>The result is whether the message is a replay (or cannot be accepted).\<close>

definition check_and_store :: "nat \<Rightarrow> replay_cache \<Rightarrow> replay_key \<Rightarrow> int \<Rightarrow> replay_cache \<times> bool" where
  "check_and_store now g key skew =
     (if rc_poisoned g then (g, True)
      else if key \<in> rc_seen g then (g, True)
      else
        let (buckets, seen) = rc_prune now (rc_buckets g) (rc_seen g);
            g = g\<lparr>rc_buckets := buckets, rc_seen := seen\<rparr> in
        if card seen \<ge> rc_max_entries g then (g, True)
        else
          let expiry = now + nat skew in
          (g\<lparr>rc_buckets := rc_push expiry key buckets, rc_seen := insert key seen\<rparr>, False))"

type_synonym rc_input = "nat \<times> replay_key \<times> int"

definition rc_step :: "replay_cache \<Rightarrow> rc_input \<Rightarrow> replay_cache \<times> bool" where
  "rc_step g i = check_and_store (fst i) g (fst (snd i)) (snd (snd i))"

subsection \<open>The invariant\<close>

definition rc_keys :: "(nat \<times> replay_key list) list \<Rightarrow> replay_key list" where
  "rc_keys bs = concat (map snd bs)"

definition rc_inv :: "replay_cache \<Rightarrow> bool" where
  "rc_inv g \<longleftrightarrow> rc_seen g = set (rc_keys (rc_buckets g)) \<and> distinct (rc_keys (rc_buckets g)) \<and>
     card (rc_seen g) \<le> rc_max_entries g \<and> 1 \<le> rc_max_entries g"

text \<open>The expiry time a held tag has.\<close>

definition held_until :: "replay_cache \<Rightarrow> replay_key \<Rightarrow> nat \<Rightarrow> bool" where
  "held_until g key t \<longleftrightarrow> (\<exists>(expiry, ks) \<in> set (rc_buckets g). key \<in> set ks \<and> t \<le> expiry)"

lemma rc_keys_simps [simp]: "rc_keys [] = []" "rc_keys ((e, ks) # bs) = ks @ rc_keys bs"
  "rc_keys (xs @ ys) = rc_keys xs @ rc_keys ys"
  by (simp_all add: rc_keys_def)

lemma fold_remove: "fold (\<lambda>k s. s - {k}) ks seen = seen - set ks"
  by (induction ks arbitrary: seen) auto

lemma rc_prune_split:
  "\<exists>dropped. bs = dropped @ fst (rc_prune now bs seen) \<and> (\<forall>(e, ks) \<in> set dropped. e < now) \<and>
     snd (rc_prune now bs seen) = seen - set (rc_keys dropped)"
proof (induction now bs seen rule: rc_prune.induct)
  case (1 now seen)
  then show ?case by simp
next
  case (2 now e ks bs seen)
  show ?case
  proof (cases "e < now")
    case True
    then obtain dropped where "bs = dropped @ fst (rc_prune now bs (seen - set ks))"
      "\<forall>(e, ks) \<in> set dropped. e < now" "snd (rc_prune now bs (seen - set ks)) = seen - set ks - set (rc_keys dropped)"
      using 2 by (auto simp: fold_remove)
    with True show ?thesis
      by (intro exI [of _ "(e, ks) # dropped"]) (auto simp: fold_remove)
  qed (simp add: exI [of _ "[]"])
qed

lemma rc_push_keys: "rc_keys (rc_push e k bs) = rc_keys bs @ [k]"
proof (cases "bs \<noteq> [] \<and> fst (last bs) = e")
  case True
  then have "bs = butlast bs @ [(e, snd (last bs))]"
    by (metis append_butlast_last_id prod.collapse)
  then have "rc_keys bs = rc_keys (butlast bs) @ snd (last bs)"
    by (metis append_Nil2 rc_keys_simps)
  with True show ?thesis
    by (simp add: rc_push_def)
qed (auto simp: rc_push_def)

lemma rc_push_holds:
  "(e', ks) \<in> set bs \<Longrightarrow> \<exists>ks'. (e', ks') \<in> set (rc_push e k bs) \<and> set ks \<subseteq> set ks'"
  "\<exists>ks'. (e, ks') \<in> set (rc_push e k bs) \<and> k \<in> set ks'"
proof -
  assume in_bs: "(e', ks) \<in> set bs"
  show "\<exists>ks'. (e', ks') \<in> set (rc_push e k bs) \<and> set ks \<subseteq> set ks'"
  proof (cases "bs \<noteq> [] \<and> fst (last bs) = e \<and> (e', ks) = last bs")
    case True
    then show ?thesis
      by (intro exI [of _ "ks @ [k]"]) (auto simp: rc_push_def, metis fst_conv, metis snd_conv)
  next
    case False
    have "bs = butlast bs @ [last bs]" if "bs \<noteq> []"
      using that by simp
    then have "(e', ks) \<in> set (butlast bs) \<or> (e', ks) = last bs"
      using in_bs by (metis Un_iff empty_iff list.set(1,2) insert_iff set_append)
    with False in_bs show ?thesis
      by (intro exI [of _ ks]) (auto simp: rc_push_def)
  qed
next
  show "\<exists>ks'. (e, ks') \<in> set (rc_push e k bs) \<and> k \<in> set ks'"
    by (auto simp: rc_push_def)
qed

lemma check_and_store_cases:
  assumes "rc_inv g"
  obtains (refused) "check_and_store now g key skew = (g, True)"
  | (full) bs dropped where "rc_buckets g = dropped @ bs" "\<forall>(e, ks) \<in> set dropped. e < now" "key \<notin> rc_seen g"
      "check_and_store now g key skew = (g\<lparr>rc_buckets := bs, rc_seen := set (rc_keys bs)\<rparr>, True)"
  | (stored) bs dropped where "rc_buckets g = dropped @ bs" "\<forall>(e, ks) \<in> set dropped. e < now" "key \<notin> rc_seen g"
      "card (set (rc_keys bs)) < rc_max_entries g"
      "check_and_store now g key skew =
         (g\<lparr>rc_buckets := rc_push (now + nat skew) key bs, rc_seen := insert key (set (rc_keys bs))\<rparr>, False)"
proof (cases "rc_poisoned g \<or> key \<in> rc_seen g")
  case True
  then show ?thesis
    by (intro refused) (auto simp: check_and_store_def)
next
  case False
  obtain bs seen where p: "rc_prune now (rc_buckets g) (rc_seen g) = (bs, seen)"
    by (cases "rc_prune now (rc_buckets g) (rc_seen g)")
  then obtain dropped where d: "rc_buckets g = dropped @ bs" "\<forall>(e, ks) \<in> set dropped. e < now"
    "seen = rc_seen g - set (rc_keys dropped)"
    using rc_prune_split [of "rc_buckets g" now "rc_seen g"] by auto
  have "seen = set (rc_keys bs)"
    using assms d(1,3) by (auto simp: rc_inv_def)
  with False p d show ?thesis
    by (cases "card seen \<ge> rc_max_entries g")
      (auto simp: check_and_store_def Let_def not_le intro: full stored)
qed

lemma check_and_store_inv:
  assumes "rc_inv g"
  shows "rc_inv (fst (check_and_store now g key skew)) \<and>
    rc_max_entries (fst (check_and_store now g key skew)) = rc_max_entries g"
  using assms
proof (cases rule: check_and_store_cases [of g now key skew])
  case refused
  with assms show ?thesis by simp
next
  case (full bs dropped)
  with assms have "card (set (rc_keys bs)) \<le> rc_max_entries g"
    by (auto simp: rc_inv_def elim: order_trans [rotated] intro!: card_mono)
  with full assms show ?thesis
    by (simp add: rc_inv_def)
next
  case (stored bs dropped)
  have "key \<notin> set (rc_keys bs)"
    using assms stored by (auto simp: rc_inv_def)
  with stored assms show ?thesis
    by (simp add: rc_inv_def rc_push_keys)
qed

interpretation rc: machine rc_step rc_inv
  by unfold_locales (simp add: rc_step_def check_and_store_inv)

lemma check_and_store_holds:
  assumes "rc_inv g" and "held_until g key t" and "now \<le> t"
  shows "held_until (fst (check_and_store now g k skew)) key t"
  using assms(1)
proof (cases rule: check_and_store_cases [of g now k skew])
  case refused
  with assms show ?thesis by simp
next
  case (full bs dropped)
  with assms(2,3) show ?thesis
    by (fastforce simp: held_until_def)
next
  case (stored bs dropped)
  obtain e ks where e: "(e, ks) \<in> set bs" "key \<in> set ks" "t \<le> e"
    using assms(2,3) stored(1,2) by (fastforce simp: held_until_def)
  then obtain ks' where "(e, ks') \<in> set (rc_push (now + nat skew) k bs)" "set ks \<subseteq> set ks'"
    using rc_push_holds(1) by blast
  with e stored show ?thesis
    by (auto simp: held_until_def)
qed

lemma check_and_store_stores:
  assumes "rc_inv g" and "\<not> snd (check_and_store now g key skew)"
  shows "held_until (fst (check_and_store now g key skew)) key (now + nat skew)"
  using assms(1)
proof (cases rule: check_and_store_cases [of g now key skew])
  case (stored bs dropped)
  then show ?thesis
    using rc_push_holds(2) [of "now + nat skew" key bs] by (auto simp: held_until_def)
qed (use assms(2) in simp_all)

lemma held_is_replay:
  assumes "rc_inv g" and "held_until g key t"
  shows "snd (check_and_store now g key skew)"
proof -
  have "key \<in> rc_seen g"
    using assms by (force simp: rc_inv_def held_until_def rc_keys_def)
  then show ?thesis
    by (simp add: check_and_store_def)
qed

lemma run_holds:
  assumes "rc_inv g" and "held_until g key t" and "\<forall>(u, _) \<in> set ys. u \<le> t"
  shows "held_until (fst (run rc_step g ys)) key t"
  using assms
proof (induction ys arbitrary: g)
  case (Cons y ys)
  then have "held_until (fst (rc_step g y)) key t" "rc_inv (fst (rc_step g y))"
    using check_and_store_holds [of g key t "fst y"] rc.step_inv by (auto simp: rc_step_def)
  with Cons show ?case
    by (simp add: split_beta)
qed simp

lemma run_max_entries: "rc_inv g \<Longrightarrow> rc_max_entries (fst (run rc_step g ys)) = rc_max_entries g"
proof (induction ys arbitrary: g)
  case (Cons y ys)
  have "rc_inv (fst (rc_step g y)) \<and> rc_max_entries (fst (rc_step g y)) = rc_max_entries g"
    unfolding rc_step_def by (rule check_and_store_inv [OF Cons.prems])
  with Cons.IH [of "fst (rc_step g y)"] show ?case
    by (simp add: split_beta)
qed simp

lemma rc_inv_new: "rc_inv (rc_with_limits n)"
  by (simp add: rc_inv_def rc_with_limits_def)

subsection \<open>Properties\<close>

text \<open>
  C12: A replayed message is refused.  In every sequence of calls on a new cache, once a tag has been accepted
  at some time with some skew it is refused at every later call, as long as the calls between happen before the
  skew has passed, whatever other messages arrive; and the cache never holds more tags than its limit, each
  one once and in exactly one bucket.
\<close>
theorem replay_refused:
  assumes "run rc_step (rc_with_limits n) (xs @ (t, key, skew) # ys @ [(t', key, skew')]) = (g, outs)"
    and "\<not> outs ! length xs" and "\<forall>(u, _) \<in> set ys. u \<le> t + nat skew"
  shows "last outs \<and> rc_inv g \<and> card (rc_seen g) \<le> max n 1"
proof -
  obtain g1 o1 where r1: "run rc_step (rc_with_limits n) xs = (g1, o1)"
    by (cases "run rc_step (rc_with_limits n) xs")
  obtain g2 b where s: "rc_step g1 (t, key, skew) = (g2, b)"
    by (cases "rc_step g1 (t, key, skew)")
  obtain g3 o3 where r3: "run rc_step g2 ys = (g3, o3)"
    by (cases "run rc_step g2 ys")
  obtain g4 c where l: "rc_step g3 (t', key, skew') = (g4, c)"
    by (cases "rc_step g3 (t', key, skew')")
  have outs: "outs = o1 @ b # o3 @ [c]" "g = g4"
    using assms(1) r1 s r3 l by (simp_all add: run_append)
  have "length o1 = length xs"
    using length_run [of rc_step "rc_with_limits n" xs] r1 by simp
  then have "\<not> b"
    using assms(2) outs by simp
  have inv1: "rc_inv g1"
    using rc.run_inv [OF rc_inv_new, of n xs] r1 by simp
  then have inv2: "rc_inv g2"
    using rc.step_inv [OF inv1, of "(t, key, skew)"] s by simp
  then have inv3: "rc_inv g3"
    using rc.run_inv [OF inv2, of ys] r3 by simp
  have "held_until g2 key (t + nat skew)"
    using check_and_store_stores [OF inv1, of t key skew] s \<open>\<not> b\<close> by (simp add: rc_step_def)
  then have "held_until g3 key (t + nat skew)"
    using run_holds [OF inv2 _ assms(3)] r3 by simp
  then have "c"
    using held_is_replay [OF inv3, of key _ t' skew'] l by (simp add: rc_step_def)
  moreover have "rc_inv g" "rc_max_entries g = max n 1"
    using rc.run_inv [OF rc_inv_new, of n "xs @ (t, key, skew) # ys @ [(t', key, skew')]"]
      run_max_entries [OF rc_inv_new, of n "xs @ (t, key, skew) # ys @ [(t', key, skew')]"] assms(1)
    by (simp_all add: rc_with_limits_def)
  moreover from this have "card (rc_seen g) \<le> max n 1"
    unfolding rc_inv_def by (elim conjE) (simp only:)
  ultimately show ?thesis
    using outs by simp
qed

theorem replay_refused_witness:
  "snd (run rc_step (rc_with_limits 2) [(0, replay_tag [1], 5), (3, replay_tag [2], 5), (4, replay_tag [1], 5)]) =
     [False, False, True]"
proof -
  obtain g outs where r: "run rc_step (rc_with_limits 2) ([] @ (0, replay_tag [1], 5) # [(3, replay_tag [2], 5)] @ [(4, replay_tag [1], 5)]) = (g, outs)"
    by (cases "run rc_step (rc_with_limits 2) ([] @ (0, replay_tag [1], 5) # [(3, replay_tag [2], 5)] @ [(4, replay_tag [1], 5)])")
  have "length outs = 3"
    using length_run [of rc_step "rc_with_limits 2" "[] @ (0, replay_tag [1], 5) # [(3, replay_tag [2], 5)] @ [(4, replay_tag [1], 5)]"] r
    by simp
  moreover have "\<not> outs ! 0" "\<not> outs ! 1"
    using r by (auto simp: rc_step_def check_and_store_def rc_with_limits_def replay_tag_def Let_def rc_push_def split_beta)
  moreover from this have "last outs"
    using replay_refused [OF r] by simp
  ultimately show ?thesis
    using r by (cases outs; cases "tl outs"; cases "tl (tl outs)") auto
qed

end
