(* ===== verification/SafePriv.thy ===== *)
theory SafePriv
  imports Tgs Replay
begin

text \<open>
  Protected messages (\<open>crates/krb5-protocol/src/safe_priv.rs\<close>): \<open>KRB-SAFE\<close> with its checksum over the message
  with a zero checksum spliced in, \<open>KRB-PRIV\<close> with its encrypted part, the address check and the freshness
  policies.  The record \<open>sp_env\<close> holds what the code takes from elsewhere: the cryptographic primitives, random
  octets, the \<open>rasn\<close> encoders and decoders (a failure gives its text), the addresses of the machine and the
  clocks.  \<open>se_elapsed\<close> is the time of the replay cache, in seconds since it was made.
\<close>

subsection \<open>Errors\<close>

text \<open>The variants of \<open>crates/krb5-protocol/src/error.rs\<close> that the modelled code returns.\<close>

datatype pr_error =
    PrCrypto string | PrAsn1 string | PrIo string | PrKrbError int "string option" | PrReplyMismatch string
  | PrConfigEtypeNosupp | PrProgEtypeNosupp | PrBadS2kParams | PrBadEnctype | PrDesBadParity | PrDesWeakKey
  | PrProgSumtypeNosupp | PrNopermEtype string

fun pr_from_crypto :: "crypto_error \<Rightarrow> pr_error" where
  "pr_from_crypto (BadEnctype _) = PrBadEnctype"
| "pr_from_crypto DesBadParity = PrDesBadParity"
| "pr_from_crypto DesWeakKey = PrDesWeakKey"
| "pr_from_crypto BadS2kParams = PrBadS2kParams"
| "pr_from_crypto e = PrCrypto (crypto_error_str e)"

definition pr_decode_error :: "string \<Rightarrow> pr_error" where
  "pr_decode_error txt =
     (if str_contains txt ''KRB5KDC_ERR_BAD_PVNO''
      then PrKrbError ERR_BAD_PVNO (Some ''Protocol version mismatch'') else PrAsn1 txt)"

abbreviation (input) krb_error :: "int \<Rightarrow> string \<Rightarrow> pr_error" where
  "krb_error code txt \<equiv> PrKrbError code (Some txt)"

subsection \<open>Messages\<close>

text \<open>\<open>EncKrbPrivPart\<close> and \<open>KrbSafeBody\<close> have the same fields.\<close>

record priv_part =
  pp_user_data :: bytes
  pp_timestamp :: "ktime option"
  pp_usec :: "u32 option"
  pp_seq_number :: "u32 option"
  pp_s_address :: host_address
  pp_r_address :: "host_address option"

type_synonym safe_body = priv_part

record krb_priv =
  kp_pvno :: int
  kp_msg_type :: int
  kp_enc_part :: encrypted_data

record krb_safe =
  ks_pvno :: int
  ks_msg_type :: int
  ks_safe_body :: safe_body
  ks_cksum :: cksum

record sp_env =
  se_prims :: prims
  se_rng :: "nat \<Rightarrow> bytes option"
  se_timeofday :: "ktime \<times> u32"
  se_now :: ktime
  se_elapsed :: nat
  se_localaddr :: "pr_error + host_address list"
  se_encode_priv_part :: "priv_part \<Rightarrow> string + bytes"
  se_decode_priv_part :: "bytes \<Rightarrow> string + priv_part"
  se_decode_priv :: "bytes \<Rightarrow> string + krb_priv"
  se_encode_safe_body :: "safe_body \<Rightarrow> string + bytes"
  se_decode_safe :: "bytes \<Rightarrow> string + krb_safe"
  se_encode_cksum :: "cksum \<Rightarrow> string + bytes"

abbreviation (input) PVNO :: int where "PVNO \<equiv> 5"
abbreviation (input) SAFE_MSG_TYPE :: int where "SAFE_MSG_TYPE \<equiv> 20"
abbreviation (input) PRIV_MSG_TYPE :: int where "PRIV_MSG_TYPE \<equiv> 21"
abbreviation (input) KU_KRB_PRIV_ENC_PART :: u32 where "KU_KRB_PRIV_ENC_PART \<equiv> 13"
abbreviation (input) KU_KRB_SAFE_CKSUM :: u32 where "KU_KRB_SAFE_CKSUM \<equiv> 15"

definition local_addr :: host_address where
  "local_addr = \<lparr>addr_type = 2, address = [127, 0, 0, 1]\<rparr>"

subsection \<open>Splicing the octets of a body into a message\<close>

definition der_take_rest :: "bytes \<Rightarrow> (u8 \<times> bytes \<times> bytes) option" where
  "der_take_rest input =
     (case input of
        [] \<Rightarrow> None
      | tag # after \<Rightarrow>
          Option.bind (read_len after) (\<lambda>(ln, hdr).
            let start = 1 + hdr; fin = start + ln in
            if 2 ^ 64 \<le> fin \<or> length input < fin then None
            else Some (tag, take ln (drop start input), drop fin input)))"

lemma der_take_rest_is: "der_take_rest input = take_der input"
  by (auto simp: der_take_rest_def take_der_def Let_def split: list.splits option.splits)

function find_safe_body :: "bytes \<Rightarrow> bytes option" where
  "find_safe_body rest =
     (if rest = [] then None
      else
        case der_take_rest rest of
          None \<Rightarrow> None
        | Some (tag, inner, next) \<Rightarrow> if tag AND 0x1f = 2 then Some inner else find_safe_body next)"
  by auto
termination
  by (relation "measure length") (auto simp: der_take_rest_def Let_def Option.bind_eq_Some_conv split: list.splits if_splits)

declare find_safe_body.simps [simp del]

definition safe_body_der :: "bytes \<Rightarrow> bytes option" where
  "safe_body_der raw =
     Option.bind (der_take_rest raw) (\<lambda>(_, app, _).
     Option.bind (der_take_rest app) (\<lambda>(_, seq, _). find_safe_body seq))"

fun trim_i32 :: "bytes \<Rightarrow> bytes" where
  "trim_i32 (b0 # b1 # bs) =
     (if b0 = 0 \<and> b1 < 0x80 \<or> b0 = 0xff \<and> 0x80 \<le> b1 then trim_i32 (b1 # bs) else b0 # b1 # bs)"
| "trim_i32 bs = bs"

definition der_i32 :: "int \<Rightarrow> bytes" where
  "der_i32 v = push_tlv 0x02 (trim_i32 (be32 (word_of_int v)))"

definition ctx_explicit :: "u8 \<Rightarrow> bytes \<Rightarrow> bytes" where
  "ctx_explicit n inner = push_tlv (0xa0 OR n) inner"

definition zero_safe_cksum :: cksum where
  "zero_safe_cksum = \<lparr>cksumtype = 0, cksum_octets = []\<rparr>"

definition encode_safe_with_body ::
  "'z sp_env_scheme \<Rightarrow> int \<Rightarrow> int \<Rightarrow> bytes \<Rightarrow> cksum \<Rightarrow> pr_error + bytes" where
  "encode_safe_with_body E pvno msg_type body ck =
     andthen (map_err pr_decode_error (se_encode_cksum E ck)) (\<lambda>cksum_der.
       Inr (push_tlv 0x74 (push_tlv 0x30
         (ctx_explicit 0 (der_i32 pvno) @ ctx_explicit 1 (der_i32 msg_type) @ ctx_explicit 2 body @
          ctx_explicit 3 cksum_der))))"

definition decode_safe_with_body :: "'z sp_env_scheme \<Rightarrow> bytes \<Rightarrow> pr_error + (krb_safe \<times> bytes)" where
  "decode_safe_with_body E raw =
     andthen (map_err pr_decode_error (se_decode_safe E raw)) (\<lambda>msg.
     andthen (ok_or (PrAsn1 ''KRB-SAFE-BODY'') (safe_body_der raw)) (\<lambda>body. Inr (msg, body)))"

subsection \<open>Addresses\<close>

definition address_in_list :: "host_address \<Rightarrow> host_address list \<Rightarrow> bool" where
  "address_in_list a l = (length l = 1 \<and> addr_type (l ! 0) = ADDRTYPE_NETBIOS \<or> a \<in> set l)"

definition check_privsafe_addrs_in ::
  "'z sp_env_scheme \<Rightarrow> host_address \<Rightarrow> host_address option \<Rightarrow> host_address option \<Rightarrow> host_address option \<Rightarrow>
   host_address list option \<Rightarrow> pr_error + unit" where
  "check_privsafe_addrs_in E msg_s msg_r remote local hosts =
     (let badaddr = krb_error ERR_BADADDR ''Incorrect net address'' in
      if \<exists>want \<in> set_option remote. want \<noteq> msg_s then Inl badaddr
      else
        case msg_r of
          None \<Rightarrow> Inr ()
        | Some got_r \<Rightarrow>
            (case local of
               Some want \<Rightarrow> if want = got_r then Inr () else Inl badaddr
             | None \<Rightarrow>
                 andthen
                   (case hosts of
                      Some l \<Rightarrow> Inr (address_in_list got_r l)
                    | None \<Rightarrow> andthen (se_localaddr E) (\<lambda>l. Inr (address_in_list got_r l)))
                   (\<lambda>found. if found then Inr () else Inl badaddr)))"

subsection \<open>KRB-SAFE\<close>

definition build_krb_safe_from ::
  "'z sp_env_scheme \<Rightarrow> protocol_key \<Rightarrow> bytes \<Rightarrow> u32 option \<Rightarrow> bool \<Rightarrow> host_address \<Rightarrow> pr_error + krb_safe" where
  "build_krb_safe_from E session user_data seq_number include_time s_address =
     (let body = \<lparr>pp_user_data = user_data,
                  pp_timestamp = (if include_time then Some (fst (se_timeofday E)) else None),
                  pp_usec = (if include_time then Some (snd (se_timeofday E)) else None),
                  pp_seq_number = seq_number, pp_s_address = s_address, pp_r_address = None\<rparr> in
      andthen (map_err pr_decode_error (se_encode_safe_body E body)) (\<lambda>body_der.
      andthen (map_err pr_from_crypto (key_usage_new KU_KRB_SAFE_CKSUM)) (\<lambda>usage.
      andthen (encode_safe_with_body E PVNO SAFE_MSG_TYPE body_der zero_safe_cksum) (\<lambda>dummy.
      andthen (map_err pr_from_crypto (checksum_inner (se_prims E) session usage dummy)) (\<lambda>mic.
        Inr \<lparr>ks_pvno = PVNO, ks_msg_type = SAFE_MSG_TYPE, ks_safe_body = body,
             ks_cksum = \<lparr>cksumtype = checksum_type (pk_etype session), cksum_octets = mic\<rparr>\<rparr>)))))"

definition is_krb_safe :: "bytes \<Rightarrow> bool" where
  "is_krb_safe raw = (raw \<noteq> [] \<and> hd raw AND NOT 0x20 = 0x54)"

definition verify_krb_safe_checksum_in ::
  "'z sp_env_scheme \<Rightarrow> protocol_key \<Rightarrow> bytes \<Rightarrow> host_address option \<Rightarrow> host_address option \<Rightarrow> host_address list option \<Rightarrow>
   pr_error + krb_safe" where
  "verify_krb_safe_checksum_in E session raw remote local hosts =
     (if \<not> is_krb_safe raw then Inl (krb_error ERR_MSG_TYPE ''Invalid message type'')
      else
        andthen (decode_safe_with_body E raw) (\<lambda>(msg, body_der).
          let ctype = cksumtype (ks_cksum msg) in
          if \<not> cksumtype_is_known ctype then Inl PrProgSumtypeNosupp
          else if \<not> cksumtype_is_coll_proof ctype \<or> \<not> cksumtype_is_keyed ctype
            then Inl (krb_error ERR_INAPP_CKSUM ''inapp checksum'')
          else
            andthen (check_privsafe_addrs_in E (pp_s_address (ks_safe_body msg)) (pp_r_address (ks_safe_body msg))
                       remote local hosts) (\<lambda>_.
            andthen (map_err pr_from_crypto (key_usage_new KU_KRB_SAFE_CKSUM)) (\<lambda>usage.
            let mac = cksum_octets (ks_cksum msg) in
            andthen (encode_safe_with_body E (ks_pvno msg) (ks_msg_type msg) body_der zero_safe_cksum) (\<lambda>dummy.
              if is_ok (verify_checksum_type (se_prims E) session usage dummy ctype mac) then Inr msg
              else if is_ok (verify_checksum_type (se_prims E) session usage body_der ctype mac) then Inr msg
              else Inl (krb_error ERR_MODIFIED ''safe checksum''))))))"

subsection \<open>Freshness\<close>

datatype fresh_policy = SeqAndTime | TimeOnly | HashOnly | SeqOnly

fun fresh_policy_of :: "bool \<Rightarrow> bool \<Rightarrow> fresh_policy" where
  "fresh_policy_of True True = SeqAndTime"
| "fresh_policy_of True False = SeqOnly"
| "fresh_policy_of False True = TimeOnly"
| "fresh_policy_of False False = HashOnly"

definition enc_tag :: "encrypted_data \<Rightarrow> pr_error + replay_key" where
  "enc_tag enc =
     ok_or (PrCrypto ''ciphertext shorter than its checksum'')
       (case known (ed_etype enc) of Inl _ \<Rightarrow> None | Inr et \<Rightarrow> tag_from_ciphertext et (ed_cipher enc))"

definition accept_fresh ::
  "'z sp_env_scheme \<Rightarrow> replay_cache \<Rightarrow> string \<Rightarrow> ktime option \<Rightarrow> u32 option \<Rightarrow> fresh_policy \<Rightarrow> replay_key \<Rightarrow>
   (pr_error + unit) \<times> replay_cache" where
  "accept_fresh E replay kind ts seq policy key =
     (let require_time = (policy = SeqAndTime \<or> policy = TimeOnly);
          require_seq = (policy = SeqAndTime \<or> policy = SeqOnly) in
      if require_time \<and> ts = None then (Inl (PrReplyMismatch (kind @ '' missing timestamp'')), replay)
      else if \<exists>t \<in> set_option ts. \<bar>uint (unix_seconds (se_now E)) - uint (unix_seconds t)\<bar> > 300
        then (Inl (PrReplyMismatch (kind @ '' timestamp window'')), replay)
      else if require_seq \<and> (seq = None \<or> seq = Some 0 \<and> policy = SeqAndTime)
        then (Inl (PrReplyMismatch (kind @ '' seq'')), replay)
      else
        let (replay, seen) = check_and_store (se_elapsed E) replay key 300 in
        (if seen then Inl (PrReplyMismatch (kind @ '' replay'')) else Inr (), replay))"

definition unwrap_krb_safe_ex ::
  "'z sp_env_scheme \<Rightarrow> protocol_key \<Rightarrow> bytes \<Rightarrow> replay_cache \<Rightarrow> bool \<Rightarrow> bool \<Rightarrow> (pr_error + bytes) \<times> replay_cache" where
  "unwrap_krb_safe_ex E session raw replay require_seq require_time =
     (case verify_krb_safe_checksum_in E session raw None None None of
        Inl e \<Rightarrow> (Inl e, replay)
      | Inr msg \<Rightarrow>
          let (r, replay) = accept_fresh E replay ''SAFE'' (pp_timestamp (ks_safe_body msg))
                (pp_seq_number (ks_safe_body msg)) (fresh_policy_of require_seq require_time)
                (replay_tag (cksum_octets (ks_cksum msg))) in
          (andthen r (\<lambda>_. Inr (pp_user_data (ks_safe_body msg))), replay))"

subsection \<open>KRB-PRIV\<close>

definition krb_priv_part ::
  "'z sp_env_scheme \<Rightarrow> protocol_key \<Rightarrow> bytes \<Rightarrow> u32 option \<Rightarrow> bool \<Rightarrow> bytes \<Rightarrow> host_address \<Rightarrow> (pr_error + krb_priv) \<times> bytes" where
  "krb_priv_part E session user_data seq_number include_time state s_address =
     (let part = \<lparr>pp_user_data = user_data,
                  pp_timestamp = (if include_time then Some (fst (se_timeofday E)) else None),
                  pp_usec = (if include_time then Some (snd (se_timeofday E)) else None),
                  pp_seq_number = seq_number, pp_s_address = s_address, pp_r_address = None\<rparr> in
      case map_err pr_decode_error (se_encode_priv_part E part) of Inl e \<Rightarrow> (Inl e, state)
      | Inr der \<Rightarrow>
      case map_err pr_from_crypto (key_usage_new KU_KRB_PRIV_ENC_PART) of Inl e \<Rightarrow> (Inl e, state)
      | Inr usage \<Rightarrow>
          let (r, state) = encrypt_with_state (se_prims E) (se_rng E) session usage state der in
          (andthen (map_err pr_from_crypto r) (\<lambda>cipher.
             Inr \<lparr>kp_pvno = PVNO, kp_msg_type = PRIV_MSG_TYPE,
                  kp_enc_part = \<lparr>ed_etype = to_iana (pk_etype session), ed_kvno = None, ed_cipher = cipher\<rparr>\<rparr>), state))"

definition unwrap_krb_priv_chained ::
  "'z sp_env_scheme \<Rightarrow> protocol_key \<Rightarrow> bytes \<Rightarrow> replay_cache \<Rightarrow> bool \<Rightarrow> bool \<Rightarrow> bytes \<Rightarrow>
   (pr_error + bytes) \<times> replay_cache \<times> bytes" where
  "unwrap_krb_priv_chained E session raw replay require_seq require_time state =
     (case andthen (map_err pr_decode_error (se_decode_priv E raw)) (\<lambda>msg.
           andthen (map_err pr_from_crypto (key_usage_new KU_KRB_PRIV_ENC_PART)) (\<lambda>usage. Inr (msg, usage))) of
        Inl e \<Rightarrow> (Inl e, replay, state)
      | Inr (msg, usage) \<Rightarrow>
          let enc = kp_enc_part msg;
              (r, state) = decrypt_enc_data_with_state (se_prims E) session usage state (ed_etype enc) (ed_cipher enc) in
          case andthen (map_err pr_from_crypto r) (\<lambda>plain.
               andthen (map_err pr_decode_error (se_decode_priv_part E plain)) (\<lambda>part.
               andthen (enc_tag enc) (\<lambda>tag. Inr (part, tag)))) of
            Inl e \<Rightarrow> (Inl e, replay, state)
          | Inr (part, tag) \<Rightarrow>
              let (r, replay) = accept_fresh E replay ''PRIV'' (pp_timestamp part) (pp_seq_number part)
                    (fresh_policy_of require_seq require_time) tag in
              (andthen r (\<lambda>_. Inr (pp_user_data part)), replay, state))"

definition read_krb_priv :: "'z sp_env_scheme \<Rightarrow> protocol_key \<Rightarrow> bytes \<Rightarrow> pr_error + priv_part" where
  "read_krb_priv E key raw =
     (if raw = [] \<or> hd raw AND NOT 0x20 \<noteq> 0x55 then Inl (krb_error ERR_MSG_TYPE ''Invalid message type'')
      else
        andthen (map_err pr_decode_error (se_decode_priv E raw)) (\<lambda>msg.
        andthen (map_err pr_from_crypto (key_usage_new KU_KRB_PRIV_ENC_PART)) (\<lambda>usage.
        andthen (map_err pr_from_crypto
                   (decrypt_enc_data (se_prims E) key usage (ed_etype (kp_enc_part msg)) (ed_cipher (kp_enc_part msg))))
          (\<lambda>plain. map_err pr_decode_error (se_decode_priv_part E plain)))))"

subsection \<open>The spliced message\<close>

lemma find_safe_body_skip:
  assumes "length v < 2 ^ 63" and "t AND 0x1f \<noteq> 2"
  shows "find_safe_body (push_tlv t v @ rest) = find_safe_body rest"
  using assms by (subst find_safe_body.simps) (simp add: der_take_rest_is take_der_push, simp add: push_tlv_def)

lemma find_safe_body_here:
  assumes "length v < 2 ^ 63" and "t AND 0x1f = 2"
  shows "find_safe_body (push_tlv t v @ rest) = Some v"
  using assms by (subst find_safe_body.simps) (simp add: der_take_rest_is take_der_push, simp add: push_tlv_def)

lemma length_trim_i32: "length (trim_i32 bs) \<le> length bs"
  by (induction bs rule: trim_i32.induct) auto

lemma length_push_tlv: "length val < 2 ^ 63 \<Longrightarrow> length (push_tlv t val) \<le> length val + 10"
  using length_push_len [of "length val"] by (simp add: push_tlv_def)

lemma length_der_i32: "length (der_i32 v) \<le> 14"
  using length_trim_i32 [of "be32 (word_of_int v)"] length_push_tlv [of "trim_i32 (be32 (word_of_int v))" 2]
  by (simp add: der_i32_def)

text \<open>The octets of the body are found again in the message they were spliced into.\<close>

lemma safe_body_der_encode:
  assumes "encode_safe_with_body E pvno mt body ck = Inr raw" and "se_encode_cksum E ck = Inr ckd"
    and "length body + length ckd < 2 ^ 62"
  shows "safe_body_der raw = Some body \<and> is_krb_safe raw"
proof -
  let ?p = "ctx_explicit 0 (der_i32 pvno)" and ?m = "ctx_explicit 1 (der_i32 mt)"
  let ?b = "ctx_explicit 2 body" and ?c = "ctx_explicit 3 ckd"
  have raw: "raw = push_tlv 0x74 (push_tlv 0x30 (?p @ ?m @ ?b @ ?c))"
    using assms(1,2) by (simp add: encode_safe_with_body_def)
  have sz: "length (der_i32 pvno) < 2 ^ 63" "length (der_i32 mt) < 2 ^ 63" "length body < 2 ^ 63" "length ckd < 2 ^ 63"
    using length_der_i32 [of pvno] length_der_i32 [of mt] assms(3) by simp_all
  have len: "length (?p @ ?m @ ?b @ ?c) \<le> length body + length ckd + 68"
    using length_push_tlv [OF sz(1), of "0xa0 OR 0"] length_push_tlv [OF sz(2), of "0xa0 OR 1"]
      length_push_tlv [OF sz(3), of "0xa0 OR 2"] length_push_tlv [OF sz(4), of "0xa0 OR 3"]
      length_der_i32 [of pvno] length_der_i32 [of mt] by (simp add: ctx_explicit_def)
  then have l1: "length (?p @ ?m @ ?b @ ?c) < 2 ^ 63"
    using assms(3) by simp
  then have l2: "length (push_tlv 0x30 (?p @ ?m @ ?b @ ?c)) < 2 ^ 63"
    using length_push_tlv [OF l1, of "0x30"] len assms(3) by simp
  have "find_safe_body (?p @ ?m @ ?b @ ?c) = Some body"
    using sz by (simp add: ctx_explicit_def find_safe_body_skip find_safe_body_here)
  then show ?thesis
    using take_der_push [OF l2, of "0x74" "[]"] take_der_push [OF l1, of "0x30" "[]"]
    by (simp add: raw safe_body_der_def der_take_rest_is is_krb_safe_def) (simp add: push_tlv_def)
qed

text \<open>The checksum types a message under a key of each encryption type may carry: those of the key's cipher, and
  HMAC-MD5, which takes the octets of any key; never one without a key.\<close>

fun safe_cksumtypes :: "enctype \<Rightarrow> int set" where
  "safe_cksumtypes Aes128CtsHmacSha196 = {15, 19, - 138}"
| "safe_cksumtypes Aes128CtsHmacSha256128 = {15, 19, - 138}"
| "safe_cksumtypes Aes256CtsHmacSha196 = {16, 20, - 138}"
| "safe_cksumtypes Aes256CtsHmacSha384192 = {16, 20, - 138}"
| "safe_cksumtypes Des3CbcSha1 = {12, - 138}"
| "safe_cksumtypes Rc4Hmac = {- 137, - 138}"
| "safe_cksumtypes Camellia128CtsCmac = {17, - 138}"
| "safe_cksumtypes Camellia256CtsCmac = {18, - 138}"

lemma safe_cksumtypes_iff:
  "t \<in> safe_cksumtypes e \<longleftrightarrow> cksumtype_is_known t \<and> cksumtype_is_coll_proof t \<and> cksumtype_is_keyed t \<and> keyed_cksum_accepts_key t e"
  by (cases e) (auto simp: cksumtype_is_known_def cksumtype_is_coll_proof_def cksumtype_is_keyed_def keyed_cksum_accepts_key_def cksum_enc_def)

lemma own_cksumtype: "checksum_type e \<in> safe_cksumtypes e"
  by (cases e) simp_all

lemma is_ok_unit: "is_ok r \<longleftrightarrow> r = Inr ()" for r :: "'e + unit"
  by (cases r) (simp_all add: is_ok_def)

text \<open>The message carries the checksum of its type under the key, over the octets of the body with a zero checksum
  in place, or over the body alone.\<close>

definition safe_sealed :: "'z sp_env_scheme \<Rightarrow> protocol_key \<Rightarrow> krb_safe \<Rightarrow> bytes \<Rightarrow> bool" where
  "safe_sealed E session msg body \<longleftrightarrow>
     (let keyed = (\<lambda>m. keyed_checksum_for_type (se_prims E) session KU_KRB_SAFE_CKSUM m (cksumtype (ks_cksum msg))) in
      \<exists>dummy. encode_safe_with_body E (ks_pvno msg) (ks_msg_type msg) body zero_safe_cksum = Inr dummy \<and>
        (keyed dummy = Inr (cksum_octets (ks_cksum msg)) \<or> keyed body = Inr (cksum_octets (ks_cksum msg))))"

lemma verify_krb_safe_iff:
  assumes "prims_ok (se_prims E)"
  shows "verify_krb_safe_checksum_in E session raw remote local hosts = Inr msg \<longleftrightarrow>
    is_krb_safe raw \<and> se_decode_safe E raw = Inr msg \<and>
    cksumtype (ks_cksum msg) \<in> safe_cksumtypes (pk_etype session) \<and>
    check_privsafe_addrs_in E (pp_s_address (ks_safe_body msg)) (pp_r_address (ks_safe_body msg)) remote local hosts = Inr () \<and>
    (\<exists>body. safe_body_der raw = Some body \<and> safe_sealed E session msg body)"
proof -
  let ?t = "cksumtype (ks_cksum msg)"
  have v: "is_ok (verify_checksum_type (se_prims E) session u m ?t mac) \<longleftrightarrow>
      keyed_cksum_accepts_key ?t (pk_etype session) \<and> keyed_checksum_for_type (se_prims E) session u m ?t = Inr mac"
    if "cksumtype_is_keyed ?t" for u m mac
    using verify_keyed_checksum [OF assms that] by (simp add: is_ok_unit)
  show ?thesis
  proof (cases "cksumtype_is_known ?t \<and> cksumtype_is_coll_proof ?t \<and> cksumtype_is_keyed ?t")
    case True
    then show ?thesis
      unfolding verify_krb_safe_checksum_in_def decode_safe_with_body_def safe_sealed_def safe_cksumtypes_iff
      by (auto simp: v key_usage_new_def Let_def andthen_def map_err_def ok_or_def split: sum.splits option.splits if_splits)
  next
    case False
    then show ?thesis
      unfolding verify_krb_safe_checksum_in_def decode_safe_with_body_def safe_cksumtypes_iff
      by (auto simp: Let_def andthen_def map_err_def ok_or_def split: sum.splits option.splits if_splits)
  qed
qed

lemma build_krb_safe_sealed:
  assumes "build_krb_safe_from E session data seq time addr = Inr msg" and "key_ok session"
  shows "\<exists>body. se_encode_safe_body E (ks_safe_body msg) = Inr body \<and> safe_sealed E session msg body \<and>
    cksumtype (ks_cksum msg) = checksum_type (pk_etype session)"
  using assms(1) keyed_checksum_own [OF assms(2)] unfolding build_krb_safe_from_def safe_sealed_def
  by (auto simp: key_usage_new_def Let_def andthen_def map_err_def split: sum.splits)

lemma accept_fresh_once:
  assumes "rc_inv g" and "accept_fresh E g kind ts seq pol key = (Inr (), g')"
  shows "fst (accept_fresh E' g' kind' ts' seq' pol' key) \<noteq> Inr ()"
proof -
  have "\<not> snd (check_and_store (se_elapsed E) g key 300)" "g' = fst (check_and_store (se_elapsed E) g key 300)"
    using assms(2) by (auto simp: accept_fresh_def Let_def split_beta split: if_splits)
  then have "held_until g' key (se_elapsed E + 300)" "rc_inv g'"
    using check_and_store_stores [OF assms(1), of "se_elapsed E" key 300] check_and_store_inv [OF assms(1)] by auto
  then have "snd (check_and_store (se_elapsed E') g' key 300)"
    by (rule held_is_replay [rotated])
  then show ?thesis
    by (auto simp: accept_fresh_def Let_def split_beta)
qed

subsection \<open>Properties\<close>

text \<open>
  C10: A \<open>KRB-SAFE\<close> message is accepted exactly when it is authentic.  \<open>verify_krb_safe_checksum_in\<close> returns a message if
  and only if the octets have the message's tag and decode to it, its checksum is of one of the keyed types for the
  cipher of the session key, its addresses are acceptable, and its checksum is the one that type gives under the
  session key for the octets of the body as received, spliced into a message with a zero checksum (or alone, as
  RFC 1510 has it).  What \<open>build_krb_safe_from\<close> makes has such a type and such a checksum once it is written as DER.
\<close>
theorem safe_authentic:
  assumes "prims_ok (se_prims E)" and "key_ok session"
  shows "(verify_krb_safe_checksum_in E session raw remote local hosts = Inr msg \<longleftrightarrow>
      is_krb_safe raw \<and> se_decode_safe E raw = Inr msg \<and>
      cksumtype (ks_cksum msg) \<in> safe_cksumtypes (pk_etype session) \<and>
      check_privsafe_addrs_in E (pp_s_address (ks_safe_body msg)) (pp_r_address (ks_safe_body msg)) remote local hosts = Inr () \<and>
      (\<exists>body. safe_body_der raw = Some body \<and> safe_sealed E session msg body)) \<and>
    (\<forall>data seq time addr body ckd.
      build_krb_safe_from E session data seq time addr = Inr msg \<and>
      se_encode_safe_body E (ks_safe_body msg) = Inr body \<and> se_encode_cksum E (ks_cksum msg) = Inr ckd \<and>
      length body + length ckd < 2 ^ 62 \<and>
      encode_safe_with_body E (ks_pvno msg) (ks_msg_type msg) body (ks_cksum msg) = Inr raw \<longrightarrow>
      is_krb_safe raw \<and> safe_body_der raw = Some body \<and> safe_sealed E session msg body \<and>
      cksumtype (ks_cksum msg) \<in> safe_cksumtypes (pk_etype session))"
proof (intro conjI allI impI)
  fix data seq time addr body ckd
  assume h: "build_krb_safe_from E session data seq time addr = Inr msg \<and>
      se_encode_safe_body E (ks_safe_body msg) = Inr body \<and> se_encode_cksum E (ks_cksum msg) = Inr ckd \<and>
      length body + length ckd < 2 ^ 62 \<and>
      encode_safe_with_body E (ks_pvno msg) (ks_msg_type msg) body (ks_cksum msg) = Inr raw"
  then show "is_krb_safe raw" "safe_body_der raw = Some body"
    using safe_body_der_encode [of E "ks_pvno msg" "ks_msg_type msg" body "ks_cksum msg" raw ckd] by simp_all
  from h show "safe_sealed E session msg body" "cksumtype (ks_cksum msg) \<in> safe_cksumtypes (pk_etype session)"
    using build_krb_safe_sealed [OF _ assms(2), of E data seq time addr msg] by (elim conjE, auto simp: own_cksumtype)+
qed (rule verify_krb_safe_iff [OF assms(1)])

definition example_safe :: krb_safe where
  "example_safe =
     \<lparr>ks_pvno = 5, ks_msg_type = 20,
      ks_safe_body = \<lparr>pp_user_data = [1, 2], pp_timestamp = None, pp_usec = None, pp_seq_number = Some 7,
        pp_s_address = local_addr, pp_r_address = None\<rparr>,
      ks_cksum = \<lparr>cksumtype = - 138, cksum_octets = replicate 16 7\<rparr>\<rparr>"

definition example_sp_env :: sp_env where
  "example_sp_env =
     \<lparr>se_prims = example_prims, se_rng = \<lambda>n. Some (replicate n 0), se_timeofday = (1000, 5), se_now = 1001, se_elapsed = 3,
      se_localaddr = Inr [], se_encode_priv_part = \<lambda>p. Inr (pp_user_data p),
      se_decode_priv_part = \<lambda>_. Inl [], se_decode_priv = \<lambda>_. Inl [],
      se_encode_safe_body = \<lambda>b. Inr (pp_user_data b), se_decode_safe = \<lambda>_. Inr example_safe,
      se_encode_cksum = \<lambda>c. Inr (cksum_octets c)\<rparr>"

theorem safe_authentic_witness:
  "\<exists>raw. encode_safe_with_body example_sp_env 5 20 [1, 2] (ks_cksum example_safe) = Inr raw \<and>
     verify_krb_safe_checksum_in example_sp_env example_rc4_key raw None None None = Inr example_safe"
proof -
  obtain raw where raw: "encode_safe_with_body example_sp_env 5 20 [1, 2] (ks_cksum example_safe) = Inr raw"
    by (simp add: encode_safe_with_body_def example_sp_env_def)
  have b: "build_krb_safe_from example_sp_env example_rc4_key [1, 2] (Some 7) False local_addr = Inr example_safe"
    by code_simp
  have e: "se_encode_safe_body example_sp_env (ks_safe_body example_safe) = Inr [1, 2]"
    "se_encode_cksum example_sp_env (ks_cksum example_safe) = Inr (replicate 16 7)"
    "ks_pvno example_safe = 5" "ks_msg_type example_safe = 20"
    by (simp_all add: example_sp_env_def example_safe_def)
  have ok: "prims_ok (se_prims example_sp_env)" "key_ok example_rc4_key"
    using example_prims_ok by (simp_all add: example_sp_env_def key_ok_def example_rc4_key_def)
  have "is_krb_safe raw \<and> safe_body_der raw = Some [1, 2] \<and> safe_sealed example_sp_env example_rc4_key example_safe [1, 2] \<and>
      cksumtype (ks_cksum example_safe) \<in> safe_cksumtypes (pk_etype example_rc4_key)"
    by (rule safe_authentic [OF ok, THEN conjunct2, rule_format]) (intro conjI, rule b, rule e, rule e, simp, use raw e in simp)
  moreover have "se_decode_safe example_sp_env raw = Inr example_safe"
    by (simp add: example_sp_env_def)
  moreover have "check_privsafe_addrs_in example_sp_env (pp_s_address (ks_safe_body example_safe))
      (pp_r_address (ks_safe_body example_safe)) None None None = Inr ()"
    by (simp add: check_privsafe_addrs_in_def example_safe_def)
  ultimately have "verify_krb_safe_checksum_in example_sp_env example_rc4_key raw None None None = Inr example_safe"
    using safe_authentic [OF ok, of raw None None None] by blast
  with raw show ?thesis
    by blast
qed

end
