(* ===== verification/Prf.thy ===== *)
theory Prf
  imports Crypto
begin

text \<open>
  The pseudo-random function of every encryption type and what is built on it
  (\<open>crates/krb5-crypto/src/prf.rs\<close>, \<open>krb_fx_cf2\<close> in \<open>cf2.rs\<close>, keys from random octets in \<open>key.rs\<close>).  The loop
  of \<open>prf_plus\<close> has no bound but the length of its output, so it is a partial function; the lemmas show
  that it returns, and what it returns, including beyond the 255 blocks its counter can number.
\<close>

definition key_from_random :: "enctype \<Rightarrow> bytes \<Rightarrow> crypto_error + protocol_key" where
  "key_from_random e random =
     (if length random \<noteq> keybytes e then Inl InvalidKeyLength
      else if e \<noteq> Des3CbcSha1 then key_from_bytes e random
      else key_from_bytes e (des3_random_to_key random))"

definition key_random :: "(nat \<Rightarrow> bytes option) \<Rightarrow> enctype \<Rightarrow> crypto_error + protocol_key" where
  "key_random rng e =
     andthen (ok_or Rng (rng (keybytes e))) (\<lambda>raw.
       if e = Des3CbcSha1 then key_from_bytes e (des3_random_to_key raw) else key_from_bytes e raw)"

definition prf_aes_sha1 :: "prims \<Rightarrow> protocol_key \<Rightarrow> bytes \<Rightarrow> crypto_error + bytes" where
  "prf_aes_sha1 P key input =
     (let tmp1 = sha1_hash P input in
      if pk_etype key = Des3CbcSha1 then
        andthen (dk_des3 P (pk_bytes key) (char_bytes ''prf'')) (\<lambda>dk.
          des3_cbc_encrypt P dk (replicate 8 0) (take (length tmp1 div 8 * 8) tmp1))
      else
        andthen (dk_rfc3961 P (pk_bytes key) (char_bytes ''prf'')) (\<lambda>dk.
          encrypt_block P dk (take (length tmp1 div BLOCK * BLOCK) tmp1)))"

definition prf_camellia :: "prims \<Rightarrow> protocol_key \<Rightarrow> bytes \<Rightarrow> crypto_error + bytes" where
  "prf_camellia P key input =
     andthen (dk_camellia P (pk_bytes key) (char_bytes ''prf'')) (\<lambda>kp. cmac_camellia P kp input)"

definition prf_rfc8009 :: "prims \<Rightarrow> protocol_key \<Rightarrow> bytes \<Rightarrow> crypto_error + bytes" where
  "prf_rfc8009 P key input =
     andthen (if pk_etype key = Aes128CtsHmacSha256128 then Inr 256
              else if pk_etype key = Aes256CtsHmacSha384192 then Inr 384
              else Inl (UnsupportedEtype (to_iana (pk_etype key))))
       (\<lambda>k_bits. kdf_hmac_sha2 P (pk_etype key) (pk_bytes key) (char_bytes ''prf'') (Some input) k_bits)"

definition prf_of :: "prims \<Rightarrow> protocol_key \<Rightarrow> bytes \<Rightarrow> crypto_error + bytes" where
  "prf_of P key input =
     (let e = pk_etype key in
      if e = Aes128CtsHmacSha196 \<or> e = Aes256CtsHmacSha196 \<or> e = Des3CbcSha1 then prf_aes_sha1 P key input
      else if is_camellia e then prf_camellia P key input
      else if is_rfc8009 e then prf_rfc8009 P key input
      else hmac_digest P Aes128CtsHmacSha196 (pk_bytes key) input)"

text \<open>The loop of \<open>prf_plus\<close>; \<open>None\<close>: it does not return.\<close>

partial_function (option) prf_plus_loop ::
  "prims \<Rightarrow> protocol_key \<Rightarrow> bytes \<Rightarrow> nat \<Rightarrow> u8 \<Rightarrow> bytes \<Rightarrow> (crypto_error + bytes) option" where
  "prf_plus_loop P key seed len i out =
     (if length out < len then
        (case prf_of P key (i # seed) of
           Inl e \<Rightarrow> Some (Inl e)
         | Inr block \<Rightarrow>
             let out = out @ take (min (len - length out) (length block)) block;
                 i = saturating_add_w i 1
             in if i = 0 then Some (Inr out) else prf_plus_loop P key seed len i out)
      else Some (Inr out))"

definition prf_plus :: "prims \<Rightarrow> protocol_key \<Rightarrow> bytes \<Rightarrow> nat \<Rightarrow> (crypto_error + bytes) option" where
  "prf_plus P key seed len =
     (if len = 0 then Some (Inl InvalidParams)
      else map_option (\<lambda>r. andthen r (\<lambda>out. if length out < len then Inl InvalidParams else Inr out))
             (prf_plus_loop P key seed len 1 []))"

definition derive_prfplus_enctype ::
  "prims \<Rightarrow> protocol_key \<Rightarrow> bytes \<Rightarrow> enctype \<Rightarrow> (crypto_error + protocol_key) option" where
  "derive_prfplus_enctype P key input e =
     map_option (\<lambda>r. andthen r (\<lambda>rnd.
         if e = Des3CbcSha1 then
           (if length rnd \<noteq> 21 then Inl InvalidKeyLength else key_from_bytes e (des3_random_to_key rnd))
         else key_from_bytes e rnd))
       (prf_plus P key input (keybytes e))"

definition derive_prfplus :: "prims \<Rightarrow> protocol_key \<Rightarrow> bytes \<Rightarrow> (crypto_error + protocol_key) option" where
  "derive_prfplus P key input = derive_prfplus_enctype P key input (pk_etype key)"

definition krb_fx_cf2 ::
  "prims \<Rightarrow> protocol_key \<Rightarrow> protocol_key \<Rightarrow> bytes \<Rightarrow> bytes \<Rightarrow> (crypto_error + protocol_key) option" where
  "krb_fx_cf2 P k1 k2 pepper1 pepper2 =
     (let n = keybytes (pk_etype k1) in
      Option.bind (prf_plus P k1 pepper1 n) (\<lambda>ra.
        case ra of
          Inl e \<Rightarrow> Some (Inl e)
        | Inr a \<Rightarrow>
            map_option (\<lambda>rb. andthen rb (\<lambda>b. key_from_random (pk_etype k1) (xor_bytes a b)))
              (prf_plus P k2 pepper2 n)))"

subsection \<open>Keys from a shared secret\<close>

text \<open>The loop of \<open>octetstring2key\<close> and \<open>pkinit_kdf_agile\<close>, with the counter's width as parameter:
  \<open>hsh i\<close> is the digest of round \<open>i\<close>.\<close>

partial_function (option) hash_loop ::
  "('a::len word \<Rightarrow> bytes) \<Rightarrow> nat \<Rightarrow> 'a word \<Rightarrow> bytes \<Rightarrow> bytes option" where
  "hash_loop hsh n i buf =
     (if length buf < n then
        let buf = buf @ hsh i; i = saturating_add_w i 1
        in if i = 0 then Some buf else hash_loop hsh n i buf
      else Some buf)"

definition octetstring2key :: "prims \<Rightarrow> enctype \<Rightarrow> bytes \<Rightarrow> (crypto_error + protocol_key) option" where
  "octetstring2key P e x =
     map_option (\<lambda>buf. key_from_random e (take (keybytes e) buf))
       (hash_loop (\<lambda>i :: u8. sha1_hash P (i # x)) (keybytes e) 0 [])"

definition pkinit_kdf_agile ::
  "prims \<Rightarrow> enctype \<Rightarrow> bytes \<Rightarrow> bytes \<Rightarrow> (crypto_error + protocol_key) option" where
  "pkinit_kdf_agile P e shared other_info =
     map_option (\<lambda>buf. key_from_random e (take (keybytes e) buf))
       (hash_loop (\<lambda>i :: u32. sha256_hash P (be32 i @ shared @ other_info)) (keybytes e) 1 [])"

subsection \<open>Sizes\<close>

lemma prf_blocks:
  assumes "prims_ok P" and "key_ok key" and "pk_etype key \<noteq> Des3CbcSha1"
  obtains B h where "0 < h" "\<And>x. prf_of P key x = Inr (B x)" "\<And>x. length (B x) = h"
proof -
  note sz = prims_sizes [OF assms(1)]
  have "\<exists>h > 0. \<forall>x. \<exists>b. prf_of P key x = Inr b \<and> length b = h"
  proof -
    consider "pk_etype key = Rc4Hmac" | "is_camellia (pk_etype key)" | "is_rfc8009 (pk_etype key)"
      | "pk_etype key = Aes128CtsHmacSha196 \<or> pk_etype key = Aes256CtsHmacSha196"
      using assms(3) by (cases "pk_etype key") (auto simp: is_camellia_def is_rfc8009_def)
    then show ?thesis
    proof cases
      case 1
      then show ?thesis
        by (intro exI [of _ 20]) (simp add: prf_of_def Let_def is_camellia_def is_rfc8009_def sz)
    next
      case 2
      then have k: "length (pk_bytes key) = 16 \<or> length (pk_bytes key) = 32"
        using assms(2) by (auto simp: key_ok_def is_camellia_def)
      obtain kp where "dk_camellia P (pk_bytes key) (char_bytes ''prf'') = Inr kp" "length kp = 16 \<or> length kp = 32"
        using dk_camellia_ok [OF assms(1) k] k by metis
      with 2 show ?thesis
        by (intro exI [of _ 16]) (auto simp: prf_of_def Let_def prf_camellia_def is_camellia_def cmac_camellia_def sz)
    next
      case 3
      then show ?thesis
        by (intro exI [of _ "if pk_etype key = Aes128CtsHmacSha256128 then 32 else 48"])
          (auto simp: prf_of_def Let_def prf_rfc8009_def is_camellia_def is_rfc8009_def kdf_hmac_sha2_def
            length_truncated sz)
    next
      case 4
      then have k: "length (pk_bytes key) = 16 \<or> length (pk_bytes key) = 32"
        using assms(2) by (auto simp: key_ok_def)
      obtain dk where "dk_rfc3961 P (pk_bytes key) (char_bytes ''prf'') = Inr dk" "length dk = 16 \<or> length dk = 32"
        using dk_rfc3961_ok [OF assms(1) k, of "char_bytes ''prf''"] k by (auto simp: char_bytes_def)
      with 4 show ?thesis
        using block_okD(1) [OF prims_aes [OF assms(1)]]
        by (intro exI [of _ 16]) (auto simp: prf_of_def Let_def prf_aes_sha1_def encrypt_block_def sz)
    qed
  qed
  then obtain h where h: "0 < h" "\<forall>x. \<exists>b. prf_of P key x = Inr b \<and> length b = h"
    by blast
  then obtain B where "\<And>x. prf_of P key x = Inr (B x) \<and> length (B x) = h"
    by metis
  with h(1) show ?thesis
    using that by blast
qed

subsection \<open>The loops return\<close>

lemma saturating_add_1_ne_0: "saturating_add_w i 1 \<noteq> (0 :: 'a::len word)"
proof
  assume "saturating_add_w i 1 = (0 :: 'a word)"
  then have "unat (saturating_add_w i (1 :: 'a word)) = 0"
    by simp
  moreover have "unat (1 :: 'a word) = 1" "(1 :: nat) \<le> 2 ^ LENGTH('a) - 1"
    using one_less_power [of "2 :: nat" "LENGTH('a)"] by simp_all
  ultimately show False
    by (simp add: unat_saturating_add_w)
qed

lemma hash_loop_returns:
  assumes "0 < h" and "\<And>i. length (hsh i) = h"
  shows "\<exists>out. hash_loop hsh n i buf = Some out \<and> n \<le> length out"
proof (induction "n - length buf" arbitrary: i buf rule: less_induct)
  case less
  show ?case
  proof (cases "length buf < n")
    case True
    then have "n - length (buf @ hsh i) < n - length buf"
      using assms by simp
    from less [OF this] True show ?thesis
      by (subst hash_loop.simps) (simp add: Let_def saturating_add_1_ne_0)
  next
    case False
    then show ?thesis
      by (subst hash_loop.simps) simp
  qed
qed

definition ctr :: "nat \<Rightarrow> u8" where
  "ctr k = of_nat (min (k + 1) 255)"

definition prf_stream :: "(bytes \<Rightarrow> bytes) \<Rightarrow> bytes \<Rightarrow> nat \<Rightarrow> bytes" where
  "prf_stream B seed n = concat (map (\<lambda>k. B (ctr k # seed)) [0..<n])"

lemma ctr_Suc: "saturating_add_w (ctr k) 1 = ctr (Suc k)"
proof -
  have c: "unat (ctr k) = min (k + 1) 255" for k
    unfolding ctr_def unat_of_nat_byte by simp
  show ?thesis
    by (simp add: word_unat_eq_iff unat_saturating_add_w c)
qed

lemma prf_stream_Suc: "prf_stream B seed (Suc n) = prf_stream B seed n @ B (ctr n # seed)"
  by (simp add: prf_stream_def)

lemma length_prf_stream: "(\<And>x. length (B x) = h) \<Longrightarrow> length (prf_stream B seed n) = n * h"
  by (induction n) (simp add: prf_stream_def, simp add: prf_stream_Suc)

lemma prf_plus_loop_stream:
  assumes "0 < h" and "\<And>x. prf_of P key x = Inr (B x)" and "\<And>x. length (B x) = h"
    and "len \<le> n * h"
  shows "k \<le> n \<Longrightarrow> prf_plus_loop P key seed len (ctr k) (take len (prf_stream B seed k)) =
    Some (Inr (take len (prf_stream B seed n)))"
proof (induction "n - k" arbitrary: k)
  case 0
  with assms(4) show ?case
    by (subst prf_plus_loop.simps) (simp add: length_prf_stream [OF assms(3)])
next
  case (Suc m)
  note len = length_prf_stream [OF assms(3)]
  show ?case
  proof (cases "len \<le> k * h")
    case True
    have "take len (prf_stream B seed (k + d)) = take len (prf_stream B seed k)" for d
      using True by (induction d) (simp_all add: prf_stream_Suc len trans_le_add1 algebra_simps)
    from this [of "n - k"] True Suc.prems show ?thesis
      by (subst prf_plus_loop.simps) (simp add: len)
  next
    case False
    have "Suc k \<le> n" "m = n - Suc k"
      using Suc by simp_all
    note ih = Suc.hyps(1) [OF this(2,1)]
    have "take (min (len - k * h) h) (B (ctr k # seed)) = take (len - k * h) (B (ctr k # seed))"
      using assms(3) by (simp add: min_def)
    then have "take len (prf_stream B seed k) @ take (min (len - k * h) h) (B (ctr k # seed)) =
        take len (prf_stream B seed (Suc k))"
      using False by (simp add: prf_stream_Suc len)
    with False ih show ?thesis
      using saturating_add_1_ne_0 [of "ctr k"]
      by (subst prf_plus_loop.simps) (simp add: assms(2,3) len Let_def ctr_Suc)
  qed
qed

lemma prf_plus_stream:
  assumes "0 < h" and "\<And>x. prf_of P key x = Inr (B x)" and "\<And>x. length (B x) = h" and "0 < len"
  shows "prf_plus P key seed len = Some (Inr (take len (prf_stream B seed (div_ceil len h))))"
proof -
  have "len \<le> div_ceil len h * h"
  proof -
    have "(len + h - 1) mod h < h"
      using assms(1) by simp
    then show ?thesis
      using div_mult_mod_eq [of "len + h - 1" h] assms(1) unfolding div_ceil_def by linarith
  qed
  moreover note loop = prf_plus_loop_stream [OF assms(1-3) this, of 0]
  ultimately show ?thesis
    using loop assms(4) length_prf_stream [OF assms(3)] 
    by (simp add: prf_plus_def prf_stream_def [of _ _ 0] ctr_def)
qed

subsection \<open>Keys are well formed\<close>

definition key_of :: "enctype \<Rightarrow> crypto_error + protocol_key \<Rightarrow> bool" where
  "key_of e r \<longleftrightarrow> (\<forall>k. r = Inr k \<longrightarrow> key_ok k \<and> pk_etype k = e)"

lemma key_of_from_bytes [simp]: "key_of e (key_from_bytes e b)"
  by (simp add: key_of_def key_from_bytes_def key_ok_def)

lemma key_of_from_random [simp]: "key_of e (key_from_random e b)"
  by (simp add: key_of_def key_from_random_def key_from_bytes_def key_ok_def)

lemma key_of_error [simp]: "key_of e (Inl er)"
  by (simp add: key_of_def)

lemma key_of_andthen: "(\<And>x. r = Inr x \<Longrightarrow> key_of e (f x)) \<Longrightarrow> key_of e (andthen r f)"
  by (cases r) (auto simp: key_of_def)

lemma key_of_string_to_key: "key_of e (string_to_key_inner P e password salt params)"
  unfolding string_to_key_inner_def rc4_string_to_key_def des3_string_to_key_def Let_def
  by (auto intro!: key_of_andthen split: option.splits)

lemma hash_key_made:
  assumes "0 < h" and "\<And>i. length (hsh i) = h"
  shows "\<exists>k. map_option (\<lambda>buf. key_from_random e (take (keybytes e) buf)) (hash_loop hsh (keybytes e) i buf) = Some (Inr k)
    \<and> key_ok k \<and> pk_etype k = e"
proof -
  obtain out where out: "hash_loop hsh (keybytes e) i buf = Some out" "keybytes e \<le> length out"
    using hash_loop_returns [of h hsh, OF assms] by blast
  moreover have "length (des3_random_to_key (take 21 out)) = 24" if "21 \<le> length out"
    using that by (intro des3_random_to_key_keys) simp
  ultimately show ?thesis
    by (auto simp: key_from_random_def key_from_bytes_def keybytes_def key_ok_def)
qed

lemma prf_plus_length:
  assumes "prims_ok P" and "key_ok key" and "pk_etype key \<noteq> Des3CbcSha1" and "0 < len"
  shows "\<exists>out. prf_plus P key seed len = Some (Inr out) \<and> length out = len"
proof -
  obtain B h where b: "0 < h" "\<And>x. prf_of P key x = Inr (B x)" "\<And>x. length (B x) = h"
    by (rule prf_blocks [OF assms(1-3)]) (rule that)
  have "(len + h - 1) mod h < h"
    using b(1) by simp
  then have "len \<le> div_ceil len h * h"
    using div_mult_mod_eq [of "len + h - 1" h] b(1) unfolding div_ceil_def by linarith
  then show ?thesis
    using prf_plus_stream [OF b assms(4)] length_prf_stream [OF b(3)] by simp
qed

lemma keybytes_pos [simp]: "0 < keybytes e"
  by (cases e) (simp_all add: keybytes_def)

lemma krb_fx_cf2_made:
  assumes "prims_ok P" and "key_ok k1" and "key_ok k2" and "pk_etype k1 \<noteq> Des3CbcSha1" and "pk_etype k2 \<noteq> Des3CbcSha1"
  shows "\<exists>k. krb_fx_cf2 P k1 k2 p1 p2 = Some (Inr k) \<and> key_ok k \<and> pk_etype k = pk_etype k1"
proof -
  obtain a where a: "prf_plus P k1 p1 (keybytes (pk_etype k1)) = Some (Inr a)" "length a = keybytes (pk_etype k1)"
    using prf_plus_length [OF assms(1,2,4) keybytes_pos] by blast
  obtain b where b: "prf_plus P k2 p2 (keybytes (pk_etype k1)) = Some (Inr b)" "length b = keybytes (pk_etype k1)"
    using prf_plus_length [OF assms(1,3,5) keybytes_pos] by blast
  show ?thesis
    using assms(4) a b by (auto simp: krb_fx_cf2_def key_from_random_def key_from_bytes_def key_ok_def keybytes_def)
qed

subsection \<open>Properties\<close>

text \<open>
  C36: PRF+ returns, and what it returns.  For a well-formed key that is not a triple DES key and a positive
  length, \<open>prf_plus\<close> returns that many octets: the blocks of the pseudo-random function on the counter
  octet followed by the seed, the counter starting at 1 and staying at 255 from the 255th block on.  The
  end of the counter is never reported as an error, although the code tests for it: more than 255
  blocks repeat the last one.
\<close>
theorem prf_plus_blocks:
  assumes "prims_ok P" and "key_ok key" and "pk_etype key \<noteq> Des3CbcSha1"
  shows "\<exists>B h. 0 < h \<and> (\<forall>x. prf_of P key x = Inr (B x) \<and> length (B x) = h) \<and>
    (\<forall>len. 0 < len \<longrightarrow> prf_plus P key seed len =
       Some (Inr (take len (concat (map (\<lambda>k. B (of_nat (min (k + 1) 255) # seed)) [0..<div_ceil len h])))))"
proof -
  obtain B h where b: "0 < h" "\<And>x. prf_of P key x = Inr (B x)" "\<And>x. length (B x) = h"
    by (rule prf_blocks [OF assms]) (rule that)
  then show ?thesis
    using prf_plus_stream [OF b] unfolding prf_stream_def ctr_def by blast
qed

theorem prf_plus_blocks_witness:
  "prf_plus example_prims example_rc4_key [1] 5 = Some (Inr [7, 7, 7, 7, 7])"
proof -
  have "\<exists>B h. 0 < h \<and> (\<forall>x. prf_of example_prims example_rc4_key x = Inr (B x) \<and> length (B x) = h) \<and>
    (\<forall>len. 0 < len \<longrightarrow> prf_plus example_prims example_rc4_key [1] len =
       Some (Inr (take len (concat (map (\<lambda>k. B (of_nat (min (k + 1) 255) # [1])) [0..<div_ceil len h])))))"
    by (rule prf_plus_blocks [OF example_prims_ok example_rc4_key_ok])
  then obtain B h where b: "0 < h" "\<forall>x. prf_of example_prims example_rc4_key x = Inr (B x) \<and> length (B x) = h"
    "\<forall>len. 0 < len \<longrightarrow> prf_plus example_prims example_rc4_key [1] len =
       Some (Inr (take len (concat (map (\<lambda>k. B (of_nat (min (k + 1) 255) # [1])) [0..<div_ceil len h]))))"
    by (elim exE conjE) (rule that)
  have "prf_of example_prims example_rc4_key x = Inr (replicate 20 7)" for x
    by (simp add: prf_of_def example_rc4_key_def example_prims_def is_camellia_def is_rfc8009_def)
  then have B: "B x = replicate 20 7" for x
    using b(2) by simp
  then have "h = 20"
    using b(2) by simp
  moreover have "div_ceil 5 20 = 1" "replicate 5 (7 :: u8) = [7, 7, 7, 7, 7]"
    by code_simp+
  ultimately show ?thesis
    using b(3) [rule_format, of 5] by (simp add: B)
qed

text \<open>
  C37: Every key is of the size of its encryption type.  Whatever \<open>from_bytes\<close>, \<open>random\<close> and the string-to-key
  function return as a key has the requested encryption type and its key length; the keys made from a
  shared secret (\<open>octetstring2key\<close>, \<open>pkinit_kdf_agile\<close>) and from two keys (\<open>krb_fx_cf2\<close>, unless one is a
  triple DES key) always come into being and are of the right size too.
\<close>
theorem keys_wellformed:
  assumes "prims_ok P"
  shows "key_of e (key_from_bytes e b) \<and> key_of e (key_random rng e) \<and>
    key_of e (string_to_key_inner P e password salt params) \<and>
    (\<exists>k. octetstring2key P e x = Some (Inr k) \<and> key_ok k \<and> pk_etype k = e) \<and>
    (\<exists>k. pkinit_kdf_agile P e x y = Some (Inr k) \<and> key_ok k \<and> pk_etype k = e) \<and>
    (key_ok k1 \<and> key_ok k2 \<and> pk_etype k1 \<noteq> Des3CbcSha1 \<and> pk_etype k2 \<noteq> Des3CbcSha1 \<longrightarrow>
       (\<exists>k. krb_fx_cf2 P k1 k2 p1 p2 = Some (Inr k) \<and> key_ok k \<and> pk_etype k = pk_etype k1))"
proof (intro conjI impI)
  show "key_of e (key_random rng e)"
    unfolding key_random_def by (auto intro!: key_of_andthen)
  show "\<exists>k. octetstring2key P e x = Some (Inr k) \<and> key_ok k \<and> pk_etype k = e"
    unfolding octetstring2key_def using prims_sizes(9) [OF assms] by (intro hash_key_made [of 20]) simp_all
  show "\<exists>k. pkinit_kdf_agile P e x y = Some (Inr k) \<and> key_ok k \<and> pk_etype k = e"
    unfolding pkinit_kdf_agile_def using prims_sizes(10) [OF assms] by (intro hash_key_made [of 32]) simp_all
qed (simp_all add: key_of_string_to_key krb_fx_cf2_made [OF assms])

theorem keys_wellformed_witness:
  "\<exists>k. octetstring2key example_prims Des3CbcSha1 [1] = Some (Inr k) \<and> key_ok k \<and> pk_etype k = Des3CbcSha1"
  using keys_wellformed [OF example_prims_ok, of Des3CbcSha1] by blast

end
