(* ===== verification/AuthCon.thy ===== *)
theory AuthCon
  imports SafePriv Prf
begin

text \<open>
  The acceptor's authentication context (\<open>crates/krb5-protocol/src/auth_con.rs\<close>): the record of keys, sequence
  numbers, addresses, chained cipher state and replay cache, the operations that build and read protected
  messages through it, and the sequence number check with its allowance for old Heimdal peers.  An operation
  takes the context and returns it updated.  \<open>ac_env\<close> adds to \<open>sp_env\<close> the decoders and the random number only
  this code uses.
\<close>

abbreviation (input) AUTH_CONTEXT_DO_TIME :: u32 where "AUTH_CONTEXT_DO_TIME \<equiv> 1"
abbreviation (input) AUTH_CONTEXT_DO_SEQUENCE :: u32 where "AUTH_CONTEXT_DO_SEQUENCE \<equiv> 4"
abbreviation (input) AUTH_CONTEXT_USE_SUBKEY :: u32 where "AUTH_CONTEXT_USE_SUBKEY \<equiv> 0x20"
abbreviation (input) KU_AP_REP_ENC_PART :: u32 where "KU_AP_REP_ENC_PART \<equiv> 12"

subsection \<open>Sequence numbers\<close>

record remote_seq =
  rs_expected :: u32
  rs_sane :: bool
  rs_heimdal :: bool

definition rs_new :: "u32 \<Rightarrow> remote_seq" where
  "rs_new expected = \<lparr>rs_expected = expected, rs_sane = False, rs_heimdal = False\<rparr>"

definition chk_heimdal_seqnum :: "u32 \<Rightarrow> u32 \<Rightarrow> bool" where
  "chk_heimdal_seqnum exp_seq in_seq =
     (exp_seq AND 0xFF800000 = 0x00800000 \<and> in_seq AND 0xFF800000 = 0xFF800000 \<and> in_seq AND 0x00FFFFFF = exp_seq \<or>
      exp_seq AND 0xFFFF8000 = 0x00008000 \<and> in_seq AND 0xFFFF8000 = 0xFFFF8000 \<and> in_seq AND 0x0000FFFF = exp_seq \<or>
      exp_seq AND 0xFFFFFF80 = 0x00000080 \<and> in_seq AND 0xFFFFFF80 = 0xFFFFFF80 \<and> in_seq AND 0x000000FF = exp_seq)"

definition rs_check :: "remote_seq \<Rightarrow> u32 \<Rightarrow> remote_seq \<times> bool" where
  "rs_check s in_seq =
     (let exp_seq = rs_expected s in
      if rs_sane s then (s, in_seq = exp_seq)
      else if in_seq AND 0xFF800000 = 0xFF800000 then
        (if exp_seq AND 0xFF800000 = 0xFF800000 \<and> in_seq = exp_seq then (s, True)
         else if \<not> rs_heimdal s \<and> in_seq = exp_seq then (s, True)
         else if chk_heimdal_seqnum exp_seq in_seq then (s\<lparr>rs_heimdal := True\<rparr>, True)
         else (s, False))
      else if in_seq = exp_seq then
        (if exp_seq AND 0xFFFFFF80 = 0x00000080 \<or> exp_seq AND 0xFFFF8000 = 0x00008000 \<or>
            exp_seq AND 0xFF800000 = 0x00800000
         then (s\<lparr>rs_sane := True\<rparr>, True) else (s, True))
      else if exp_seq = 0 \<and> \<not> rs_heimdal s then
        (if in_seq \<in> {0x100, 0x10000, 0x1000000} then (s\<lparr>rs_heimdal := True\<rparr>, True) else (s, False))
      else (s, False))"

definition rs_advance :: "remote_seq \<Rightarrow> remote_seq" where
  "rs_advance s = s\<lparr>rs_expected := rs_expected s + 1\<rparr>"

subsection \<open>The context\<close>

record auth_context =
  ac_flags :: u32
  ac_key :: protocol_key
  ac_authenticator :: authenticator
  ac_send_subkey :: "protocol_key option"
  ac_recv_subkey :: "protocol_key option"
  ac_local_seq :: u32
  ac_remote :: remote_seq
  ac_negotiated_etype :: enctype
  ac_ap_req_use_subkey :: bool
  ac_local_addr :: "host_address option"
  ac_remote_addr :: "host_address option"
  ac_host_addrs :: "host_address list option"
  ac_cstate :: "bytes option"
  ac_memrcache :: "replay_cache option"
  ac_clockskew :: int

record ap_rep_part =
  ar_ctime :: ktime
  ar_cusec :: u32
  ar_subkey :: "encryption_key option"
  ar_seq_number :: "u32 option"

record ap_rep =
  ap_rep_pvno :: int
  ap_rep_msg_type :: int
  ap_rep_enc_part :: encrypted_data

record ac_env = sp_env +
  ae_decode_authdata :: "bytes \<Rightarrow> string + authdata"
  ae_decode_etypes :: "bytes \<Rightarrow> string + int list"
  ae_encode_ap_rep_part :: "ap_rep_part \<Rightarrow> string + bytes"
  ae_seq_random :: "string + u32"

text \<open>What \<open>from_ap_req\<close> reads of a verified request and of the configuration.\<close>

record ap_verify_ok =
  vo_ticket_part :: enc_ticket_part
  vo_authenticator :: authenticator
  vo_mutual_required :: bool

record acceptor_config =
  cf_clockskew :: int
  cf_permitted_enctypes :: "enctype list"

definition conf_permitted :: "acceptor_config \<Rightarrow> pr_error + enctype list" where
  "conf_permitted conf =
     (if cf_permitted_enctypes conf = [] then Inl PrConfigEtypeNosupp else Inr (cf_permitted_enctypes conf))"

definition check_ticket_etype :: "int \<Rightarrow> enctype list \<Rightarrow> pr_error + unit" where
  "check_ticket_etype ticket_etype permitted =
     andthen (map_err (\<lambda>_. PrProgEtypeNosupp) (known ticket_etype)) (\<lambda>etype.
       if etype \<in> set permitted then Inr () else Inl (PrNopermEtype NOPERM_ETYPE))"

definition protocol_key_of :: "encryption_key \<Rightarrow> pr_error + protocol_key" where
  "protocol_key_of k =
     andthen (map_err pr_from_crypto (known (keytype k))) (\<lambda>etype.
       map_err pr_from_crypto (key_from_bytes etype (keyvalue k)))"

definition encryption_key_of :: "protocol_key \<Rightarrow> encryption_key" where
  "encryption_key_of k = \<lparr>keytype = to_iana (pk_etype k), keyvalue = pk_bytes k\<rparr>"

fun pr_from_proto :: "proto_error \<Rightarrow> pr_error" where
  "pr_from_proto (NopermEtype txt) = PrNopermEtype txt"
| "pr_from_proto (Asn1Failure txt) = pr_decode_error txt"

definition from_ap_req :: "ac_env \<Rightarrow> ap_verify_ok \<Rightarrow> acceptor_config \<Rightarrow> pr_error + auth_context" where
  "from_ap_req E ok conf =
     andthen (conf_permitted conf) (\<lambda>permitted.
     andthen (protocol_key_of (tk_key (vo_ticket_part ok))) (\<lambda>key.
     let auth = vo_authenticator ok in
     andthen (map_err pr_from_proto (negotiate_ap_req_etypes (ae_decode_authdata E) (ae_decode_etypes E) auth
                (keytype (tk_key (vo_ticket_part ok))) permitted)) (\<lambda>negotiated.
     let remote_seq = (case au_seq_number auth of None \<Rightarrow> 0 | Some n \<Rightarrow> n) in
     andthen (case au_subkey auth of
                None \<Rightarrow> Inr None
              | Some sk \<Rightarrow> andthen (protocol_key_of sk) (\<lambda>k. Inr (Some k))) (\<lambda>recv_subkey.
       Inr \<lparr>ac_flags = AUTH_CONTEXT_DO_TIME, ac_key = key, ac_authenticator = auth, ac_send_subkey = recv_subkey,
            ac_recv_subkey = recv_subkey,
            ac_local_seq = (if \<not> vo_mutual_required ok \<and> remote_seq \<noteq> 0 then 0 XOR remote_seq else 0),
            ac_remote = rs_new remote_seq, ac_negotiated_etype = negotiated,
            ac_ap_req_use_subkey = (negotiated \<noteq> pk_etype key), ac_local_addr = None, ac_remote_addr = None,
            ac_host_addrs = None, ac_cstate = None, ac_memrcache = None, ac_clockskew = cf_clockskew conf\<rparr>))))"

definition set_addrs :: "host_address option \<Rightarrow> host_address option \<Rightarrow> auth_context \<Rightarrow> auth_context" where
  "set_addrs local remote c = c\<lparr>ac_local_addr := local, ac_remote_addr := remote\<rparr>"

definition set_host_addrs :: "host_address list option \<Rightarrow> auth_context \<Rightarrow> auth_context" where
  "set_host_addrs hosts c = c\<lparr>ac_host_addrs := hosts\<rparr>"

definition init_ivector :: "auth_context \<Rightarrow> auth_context" where
  "init_ivector c = c\<lparr>ac_cstate := Some initial_iv\<rparr>"

definition set_flags :: "u32 \<Rightarrow> auth_context \<Rightarrow> auth_context" where
  "set_flags flags c = c\<lparr>ac_flags := flags\<rparr>"

definition send_key :: "auth_context \<Rightarrow> protocol_key" where
  "send_key c = (case ac_send_subkey c of None \<Rightarrow> ac_key c | Some k \<Rightarrow> k)"

definition recv_key :: "auth_context \<Rightarrow> protocol_key" where
  "recv_key c = (case ac_recv_subkey c of None \<Rightarrow> ac_key c | Some k \<Rightarrow> k)"

definition has_flag :: "auth_context \<Rightarrow> u32 \<Rightarrow> bool" where
  "has_flag c f = (ac_flags c AND f \<noteq> 0)"

subsection \<open>Building messages\<close>

definition generate_seq_number :: "ac_env \<Rightarrow> pr_error + u32" where
  "generate_seq_number E =
     andthen (map_err PrCrypto (ae_seq_random E)) (\<lambda>r. let n = r AND 0x3fffffff in Inr (if n = 0 then 1 else n))"

text \<open>The steps of \<open>mk_rep\<close> that set the sequence number and the subkey.\<close>

definition mk_rep_seq :: "ac_env \<Rightarrow> auth_context \<Rightarrow> pr_error + auth_context" where
  "mk_rep_seq E c =
     (if has_flag c AUTH_CONTEXT_DO_SEQUENCE \<and> ac_local_seq c = 0
      then andthen (generate_seq_number E) (\<lambda>n. Inr (c\<lparr>ac_local_seq := n\<rparr>)) else Inr c)"

definition mk_rep_subkey :: "ac_env \<Rightarrow> auth_context \<Rightarrow> pr_error + (encryption_key option \<times> auth_context)" where
  "mk_rep_subkey E c =
     (if has_flag c AUTH_CONTEXT_USE_SUBKEY then
        andthen (map_err pr_from_crypto (key_random (se_rng E) (ac_negotiated_etype c))) (\<lambda>fresh.
          Inr (Some (encryption_key_of fresh), c\<lparr>ac_send_subkey := Some fresh, ac_recv_subkey := Some fresh\<rparr>))
      else Inr (au_subkey (ac_authenticator c), c))"

definition mk_rep :: "ac_env \<Rightarrow> auth_context \<Rightarrow> (pr_error + ap_rep) \<times> auth_context" where
  "mk_rep E c =
     (case mk_rep_seq E c of Inl e \<Rightarrow> (Inl e, c) | Inr c \<Rightarrow>
      case mk_rep_subkey E c of Inl e \<Rightarrow> (Inl e, c) | Inr (subkey, c) \<Rightarrow>
        (andthen (map_err pr_decode_error (ae_encode_ap_rep_part E
           \<lparr>ar_ctime = au_ctime (ac_authenticator c), ar_cusec = au_cusec (ac_authenticator c), ar_subkey = subkey,
            ar_seq_number = (if ac_local_seq c \<noteq> 0 then Some (ac_local_seq c) else None)\<rparr>)) (\<lambda>der.
         andthen (map_err pr_from_crypto (key_usage_new KU_AP_REP_ENC_PART)) (\<lambda>usage.
         andthen (map_err pr_from_crypto (encrypt (se_prims E) (se_rng E) (ac_key c) usage der)) (\<lambda>cipher.
           Inr \<lparr>ap_rep_pvno = PVNO, ap_rep_msg_type = 15,
                ap_rep_enc_part = \<lparr>ed_etype = to_iana (pk_etype (ac_key c)), ed_kvno = None, ed_cipher = cipher\<rparr>\<rparr>))),
         c))"

definition mk_priv_part ::
  "ac_env \<Rightarrow> auth_context \<Rightarrow> bytes \<Rightarrow> host_address \<Rightarrow> host_address option \<Rightarrow> priv_part" where
  "mk_priv_part E c user_data local remote =
     (let time = has_flag c AUTH_CONTEXT_DO_TIME;
          seq = (if has_flag c AUTH_CONTEXT_DO_SEQUENCE then ac_local_seq c else 0) in
      \<lparr>pp_user_data = user_data,
       pp_timestamp = (if time then Some (fst (se_timeofday E)) else None),
       pp_usec = (if time then Some (snd (se_timeofday E)) else None),
       pp_seq_number = (if seq \<noteq> 0 then Some seq else None),
       pp_s_address = local, pp_r_address = remote\<rparr>)"

text \<open>Encryption and decryption under the context's cipher state, if it has one.\<close>

definition ac_encrypt :: "ac_env \<Rightarrow> u32 \<Rightarrow> bytes \<Rightarrow> auth_context \<Rightarrow> (crypto_error + bytes) \<times> auth_context" where
  "ac_encrypt E usage der c =
     (case ac_cstate c of
        Some state \<Rightarrow>
          let (r, state) = encrypt_with_state (se_prims E) (se_rng E) (send_key c) usage state der in
          (r, c\<lparr>ac_cstate := Some state\<rparr>)
      | None \<Rightarrow> (encrypt (se_prims E) (se_rng E) (send_key c) usage der, c))"

definition ac_decrypt :: "ac_env \<Rightarrow> u32 \<Rightarrow> encrypted_data \<Rightarrow> auth_context \<Rightarrow> (crypto_error + bytes) \<times> auth_context" where
  "ac_decrypt E usage enc c =
     (case ac_cstate c of
        Some state \<Rightarrow>
          let (r, state) = decrypt_enc_data_with_state (se_prims E) (recv_key c) usage state (ed_etype enc) (ed_cipher enc) in
          (r, c\<lparr>ac_cstate := Some state\<rparr>)
      | None \<Rightarrow> (decrypt_enc_data (se_prims E) (recv_key c) usage (ed_etype enc) (ed_cipher enc), c))"

definition mk_priv ::
  "ac_env \<Rightarrow> bytes \<Rightarrow> host_address \<Rightarrow> host_address option \<Rightarrow> auth_context \<Rightarrow> (pr_error + krb_priv) \<times> auth_context" where
  "mk_priv E user_data local remote c =
     (case map_err pr_decode_error (se_encode_priv_part E (mk_priv_part E c user_data local remote)) of
        Inl e \<Rightarrow> (Inl e, c)
      | Inr der \<Rightarrow>
          (case map_err pr_from_crypto (key_usage_new KU_KRB_PRIV_ENC_PART) of
             Inl e \<Rightarrow> (Inl e, c)
           | Inr usage \<Rightarrow>
               let (r, c) = ac_encrypt E usage der c in
               (case map_err pr_from_crypto r of
                  Inl e \<Rightarrow> (Inl e, c)
                | Inr cipher \<Rightarrow>
                    (Inr \<lparr>kp_pvno = PVNO, kp_msg_type = PRIV_MSG_TYPE,
                          kp_enc_part = \<lparr>ed_etype = to_iana (pk_etype (send_key c)), ed_kvno = None, ed_cipher = cipher\<rparr>\<rparr>,
                     if has_flag c AUTH_CONTEXT_DO_SEQUENCE then c\<lparr>ac_local_seq := ac_local_seq c + 1\<rparr> else c))))"

subsection \<open>Reading messages\<close>

definition ciphertext_tag :: "enctype \<Rightarrow> bytes \<Rightarrow> pr_error + bytes" where
  "ciphertext_tag etype cipher =
     andthen (ok_or (PrCrypto ''no checksum length for the enctype'') (checksum_output_size (checksum_type etype))) (\<lambda>len.
       if length cipher < len then Inl (PrCrypto ''ciphertext shorter than its checksum'')
       else Inr (drop (length cipher - len) cipher))"

text \<open>A cache that is made by the check has its time start there.\<close>

definition cache_time :: "ac_env \<Rightarrow> auth_context \<Rightarrow> nat" where
  "cache_time E c = (case ac_memrcache c of None \<Rightarrow> 0 | Some _ \<Rightarrow> se_elapsed E)"

definition cache_of :: "auth_context \<Rightarrow> replay_cache" where
  "cache_of c = (case ac_memrcache c of None \<Rightarrow> rc_new | Some g \<Rightarrow> g)"

definition check_replay :: "ac_env \<Rightarrow> ktime option \<Rightarrow> bytes \<Rightarrow> auth_context \<Rightarrow> (pr_error + unit) \<times> auth_context" where
  "check_replay E timestamp tag c =
     (if \<not> has_flag c AUTH_CONTEXT_DO_TIME then (Inr (), c)
      else
        let skew = ac_clockskew c;
            now = uint (unix_seconds (se_now E));
            then_s = (case timestamp of None \<Rightarrow> 0 | Some t \<Rightarrow> uint (unix_seconds t)) in
        if \<bar>now - then_s\<bar> > skew then (Inl (krb_error ERR_SKEW ''Clock skew too great''), c)
        else
          let (g, seen) = check_and_store (cache_time E c) (cache_of c) (replay_tag tag) skew in
          (if seen then Inl (krb_error ERR_REPEAT ''Request is a replay'') else Inr (), c\<lparr>ac_memrcache := Some g\<rparr>))"

definition check_seq :: "u32 option \<Rightarrow> auth_context \<Rightarrow> (pr_error + unit) \<times> auth_context" where
  "check_seq seq c =
     (if \<not> has_flag c AUTH_CONTEXT_DO_SEQUENCE then (Inr (), c)
      else
        let (s, ok) = rs_check (ac_remote c) (case seq of None \<Rightarrow> 0 | Some n \<Rightarrow> n) in
        if \<not> ok then (Inl (krb_error ERR_BADORDER ''Message out of order''), c\<lparr>ac_remote := s\<rparr>)
        else (Inr (), c\<lparr>ac_remote := rs_advance s\<rparr>))"

text \<open>The end of both readers: the replay check and then the sequence check, with the data of the message.\<close>

definition accept_part :: "ac_env \<Rightarrow> priv_part \<Rightarrow> bytes \<Rightarrow> auth_context \<Rightarrow> (pr_error + bytes) \<times> auth_context" where
  "accept_part E part tag c =
     (case check_replay E (pp_timestamp part) tag c of
        (Inl e, c) \<Rightarrow> (Inl e, c)
      | (Inr _, c) \<Rightarrow>
          (case check_seq (pp_seq_number part) c of
             (Inl e, c) \<Rightarrow> (Inl e, c)
           | (Inr _, c) \<Rightarrow> (Inr (pp_user_data part), c)))"

definition rd_priv :: "ac_env \<Rightarrow> bytes \<Rightarrow> auth_context \<Rightarrow> (pr_error + bytes) \<times> auth_context" where
  "rd_priv E raw c =
     (if raw = [] \<or> hd raw AND NOT 0x20 \<noteq> 0x55 then (Inl (krb_error ERR_MSG_TYPE ''Invalid message type''), c)
      else
        case andthen (map_err pr_decode_error (se_decode_priv E raw)) (\<lambda>msg.
             andthen (map_err pr_from_crypto (key_usage_new KU_KRB_PRIV_ENC_PART)) (\<lambda>usage. Inr (msg, usage))) of
          Inl e \<Rightarrow> (Inl e, c)
        | Inr (msg, usage) \<Rightarrow>
            let (r, c) = ac_decrypt E usage (kp_enc_part msg) c in
            (case andthen (map_err pr_from_crypto r) (\<lambda>plain.
                  andthen (map_err pr_decode_error (se_decode_priv_part E plain)) (\<lambda>part.
                  andthen (check_privsafe_addrs_in E (pp_s_address part) (pp_r_address part)
                             (ac_remote_addr c) (ac_local_addr c) (ac_host_addrs c)) (\<lambda>_.
                  andthen (ciphertext_tag (pk_etype (recv_key c)) (ed_cipher (kp_enc_part msg))) (\<lambda>tag.
                    Inr (part, tag))))) of
               Inl e \<Rightarrow> (Inl e, c)
             | Inr (part, tag) \<Rightarrow> accept_part E part tag c))"

definition rd_safe :: "ac_env \<Rightarrow> bytes \<Rightarrow> auth_context \<Rightarrow> (pr_error + bytes) \<times> auth_context" where
  "rd_safe E raw c =
     (case verify_krb_safe_checksum_in E (recv_key c) raw (ac_remote_addr c) (ac_local_addr c)
             (ac_host_addrs c) of
        Inl e \<Rightarrow> (Inl e, c)
      | Inr msg \<Rightarrow> accept_part E (ks_safe_body msg) (cksum_octets (ks_cksum msg)) c)"

subsection \<open>Sequence numbers that are accepted\<close>

lemma and_mask_mono:
  fixes n m k :: u32
  assumes "n AND m = m" and "k AND m = k"
  shows "n AND k = k"
  using assms by (metis and.assoc and.commute)

lemma heimdal_high_bits: "chk_heimdal_seqnum e n \<Longrightarrow> n AND 0xFF800000 = 0xFF800000"
  using and_mask_mono [of n "0xFFFF8000" "0xFF800000"] and_mask_mono [of n "0xFFFFFF80" "0xFF800000"]
  by (auto simp: chk_heimdal_seqnum_def)

text \<open>The number expected, its sign extension by an old Heimdal, or what such a peer sends for zero.\<close>

lemma rs_check_exact:
  "snd (rs_check s n) \<longleftrightarrow>
     n = rs_expected s \<or>
     \<not> rs_sane s \<and> (chk_heimdal_seqnum (rs_expected s) n \<or>
       rs_expected s = 0 \<and> \<not> rs_heimdal s \<and> n \<in> {0x100, 0x10000, 0x1000000})"
  using heimdal_high_bits [of "rs_expected s" n] by (auto simp: rs_check_def Let_def)

lemma rs_check_expected [simp]: "rs_expected (fst (rs_check s n)) = rs_expected s"
  by (simp add: rs_check_def Let_def)

subsection \<open>Sizes\<close>

lemma length_update_iv: "length iv = 16 \<Longrightarrow> length (update_iv iv ct) = 16"
  by (auto simp: update_iv_def Let_def div_ceil_def)

lemma length_decrypt_state:
  assumes "length iv = 16"
  shows "length (snd (decrypt_inner_state P key usage ct iv)) = 16"
  using assms by (auto simp: decrypt_inner_state_def camellia_decrypt_def Let_def length_update_iv
      split: sum.splits prod.splits)

lemma decrypt_tag_size:
  assumes "fst (decrypt_inner_state P key usage ct iv) = Inr pt"
  shows "\<exists>tag. ciphertext_tag (pk_etype key) ct = Inr tag"
proof -
  have "\<exists>n. checksum_output_size (checksum_type (pk_etype key)) = Some n \<and> n \<le> length ct"
    using assms
    by (cases "pk_etype key")
      (auto simp: decrypt_inner_state_def rc4_decrypt_def des3_decrypt_def camellia_decrypt_def checksum_output_size_def
        Let_def is_camellia_def split: if_splits)
  then show ?thesis
    by (auto simp: ciphertext_tag_def ok_or_def)
qed

subsection \<open>Delivery\<close>

text \<open>Contexts of two peers that agree, from the sender to the receiver.\<close>

definition in_step :: "auth_context \<Rightarrow> auth_context \<Rightarrow> bool" where
  "in_step a b \<longleftrightarrow>
     has_flag a AUTH_CONTEXT_DO_TIME = has_flag b AUTH_CONTEXT_DO_TIME \<and>
     has_flag a AUTH_CONTEXT_DO_SEQUENCE = has_flag b AUTH_CONTEXT_DO_SEQUENCE \<and>
     send_key a = recv_key b \<and> ac_cstate a = ac_cstate b \<and> (\<forall>iv. ac_cstate a = Some iv \<longrightarrow> length iv = 16) \<and>
     (has_flag b AUTH_CONTEXT_DO_SEQUENCE \<longrightarrow> ac_local_seq a = rs_expected (ac_remote b))"

definition tag_fresh :: "ac_env \<Rightarrow> auth_context \<Rightarrow> bytes \<Rightarrow> bool" where
  "tag_fresh E b cipher \<longleftrightarrow>
     (\<forall>tag. ciphertext_tag (pk_etype (recv_key b)) cipher = Inr tag \<longrightarrow>
        \<not> snd (check_and_store (cache_time E b) (cache_of b) (replay_tag tag) (ac_clockskew b)))"

lemma has_flag_simps [simp]:
  "has_flag (c\<lparr>ac_cstate := x\<rparr>) f = has_flag c f" "has_flag (c\<lparr>ac_memrcache := y\<rparr>) f = has_flag c f"
  "has_flag (c\<lparr>ac_remote := z\<rparr>) f = has_flag c f" "has_flag (c\<lparr>ac_local_seq := n\<rparr>) f = has_flag c f"
  by (simp_all add: has_flag_def)

lemma key_simps [simp]:
  "send_key (c\<lparr>ac_cstate := x\<rparr>) = send_key c" "send_key (c\<lparr>ac_local_seq := n\<rparr>) = send_key c"
  "recv_key (c\<lparr>ac_cstate := x\<rparr>) = recv_key c" "recv_key (c\<lparr>ac_memrcache := y\<rparr>) = recv_key c"
  "recv_key (c\<lparr>ac_remote := z\<rparr>) = recv_key c"
  by (simp_all add: send_key_def recv_key_def split: option.split)

lemma ac_crypt:
  assumes "prims_ok (se_prims E)" and "key_ok (send_key a)" and "pk_etype (send_key a) \<noteq> Des3CbcSha1"
    and "rng_ok (se_rng E)" and "se_rng E 16 \<noteq> None" and "in_step a b" and "se_prims E' = se_prims E"
  shows "\<exists>ct tag st. ac_encrypt E usage der a = (Inr ct, a\<lparr>ac_cstate := st\<rparr>) \<and>
    ac_decrypt E' usage \<lparr>ed_etype = to_iana (pk_etype (send_key a)), ed_kvno = None, ed_cipher = ct\<rparr> b
      = (Inr der, b\<lparr>ac_cstate := st\<rparr>) \<and>
    ciphertext_tag (pk_etype (recv_key b)) ct = Inr tag \<and> (\<forall>iv. st = Some iv \<longrightarrow> length iv = 16)"
proof -
  obtain conf where conf: "se_rng E 16 = Some conf" "length conf = 16"
    using assms(4,5) by (auto simp: rng_ok_def)
  define iv where "iv = (case ac_cstate a of None \<Rightarrow> initial_iv | Some iv \<Rightarrow> iv)"
  have iv: "length iv = 16"
    using assms(6) by (auto simp: iv_def in_step_def split: option.splits)
  obtain ct iv' where e: "encrypt_inner_state (se_prims E) (se_rng E) (send_key a) usage conf der iv = (Inr ct, iv')"
    using encrypt_inner_ok [OF assms(1,2) iv assms(3) conf(2)] by blast
  then have d: "decrypt_inner_state (se_prims E) (send_key a) usage ct iv = (Inr der, iv')"
    using decrypt_iff_encrypt [OF assms(1,2) iv assms(3)] conf(2) by blast
  then obtain tag where tag: "ciphertext_tag (pk_etype (send_key a)) ct = Inr tag"
    using decrypt_tag_size [of "se_prims E" "send_key a" usage ct iv der] by auto
  have iv': "length iv' = 16"
    using length_decrypt_state [OF iv, of "se_prims E" "send_key a" usage ct] d by simp
  have eq: "recv_key b = send_key a" "ac_cstate b = ac_cstate a"
    using assms(6) by (simp_all add: in_step_def)
  show ?thesis
  proof (cases "ac_cstate a")
    case None
    then have iv0: "iv = initial_iv"
      by (simp add: iv_def)
    have "ac_encrypt E usage der a = (Inr ct, a\<lparr>ac_cstate := None\<rparr>)"
      using None e conf(1) by (simp add: ac_encrypt_def encrypt_def encrypt_with_confounder_def ok_or_def iv0)
    moreover have "ac_decrypt E' usage \<lparr>ed_etype = to_iana (pk_etype (send_key a)), ed_kvno = None, ed_cipher = ct\<rparr> b
        = (Inr der, b\<lparr>ac_cstate := None\<rparr>)"
      using None d eq assms(7) by (simp add: ac_decrypt_def decrypt_enc_data_def decrypt_def check_enc_data_etype_def iv0)
    ultimately show ?thesis
      using tag eq by (intro exI [of _ ct] exI [of _ tag] exI [of _ None]) simp
  next
    case (Some state)
    then have iv0: "iv = state"
      by (simp add: iv_def)
    have "ac_encrypt E usage der a = (Inr ct, a\<lparr>ac_cstate := Some iv'\<rparr>)"
      using Some e conf(1) by (simp add: ac_encrypt_def encrypt_with_state_def iv0)
    moreover have "ac_decrypt E' usage \<lparr>ed_etype = to_iana (pk_etype (send_key a)), ed_kvno = None, ed_cipher = ct\<rparr> b
        = (Inr der, b\<lparr>ac_cstate := Some iv'\<rparr>)"
      using Some d eq assms(7) by (simp add: ac_decrypt_def decrypt_enc_data_with_state_def check_enc_data_etype_def iv0)
    ultimately show ?thesis
      using tag eq iv' by (intro exI [of _ ct] exI [of _ tag] exI [of _ "Some iv'"]) simp
  qed
qed

lemma accept_part_expected:
  assumes "has_flag b AUTH_CONTEXT_DO_TIME \<longrightarrow>
      \<bar>uint (unix_seconds (se_now E)) - (case pp_timestamp part of None \<Rightarrow> 0 | Some t \<Rightarrow> uint (unix_seconds t))\<bar> \<le> ac_clockskew b \<and>
      \<not> snd (check_and_store (cache_time E b) (cache_of b) (replay_tag tag) (ac_clockskew b))"
    and "has_flag b AUTH_CONTEXT_DO_SEQUENCE \<longrightarrow>
      (case pp_seq_number part of None \<Rightarrow> 0 | Some n \<Rightarrow> n) = rs_expected (ac_remote b)"
  shows "\<exists>g s. accept_part E part tag b = (Inr (pp_user_data part), b\<lparr>ac_memrcache := g, ac_remote := s\<rparr>) \<and>
    rs_expected s = (if has_flag b AUTH_CONTEXT_DO_SEQUENCE then rs_expected (ac_remote b) + 1 else rs_expected (ac_remote b))"
proof -
  obtain g where g: "check_replay E (pp_timestamp part) tag b = (Inr (), b\<lparr>ac_memrcache := g\<rparr>)"
  proof (cases "has_flag b AUTH_CONTEXT_DO_TIME")
    case True
    then show ?thesis
      using assms(1) that by (simp add: check_replay_def Let_def split_beta)
  next
    case False
    then show ?thesis
      using that [of "ac_memrcache b"] by (simp add: check_replay_def)
  qed
  have ok: "snd (rs_check (ac_remote b) (rs_expected (ac_remote b)))"
    by (simp add: rs_check_exact)
  obtain s where s: "check_seq (pp_seq_number part) (b\<lparr>ac_memrcache := g\<rparr>) = (Inr (), b\<lparr>ac_memrcache := g, ac_remote := s\<rparr>)"
    "rs_expected s = (if has_flag b AUTH_CONTEXT_DO_SEQUENCE then rs_expected (ac_remote b) + 1 else rs_expected (ac_remote b))"
  proof (cases "has_flag b AUTH_CONTEXT_DO_SEQUENCE")
    case True
    then show ?thesis
      using assms(2) ok that by (simp add: check_seq_def Let_def split_beta rs_advance_def)
  next
    case False
    then show ?thesis
      using that [of "ac_remote b"] by (simp add: check_seq_def)
  qed
  show ?thesis
    by (intro exI [of _ g] exI [of _ s]) (simp add: accept_part_def g s)
qed

lemma mk_priv_part_fields [simp]:
  "pp_user_data (mk_priv_part E a data local remote) = data"
  "pp_s_address (mk_priv_part E a data local remote) = local"
  "pp_r_address (mk_priv_part E a data local remote) = remote"
  "pp_timestamp (mk_priv_part E a data local remote) =
     (if has_flag a AUTH_CONTEXT_DO_TIME then Some (fst (se_timeofday E)) else None)"
  "(case pp_seq_number (mk_priv_part E a data local remote) of None \<Rightarrow> 0 | Some n \<Rightarrow> n) =
     (if has_flag a AUTH_CONTEXT_DO_SEQUENCE then ac_local_seq a else 0)"
  by (simp_all add: mk_priv_part_def Let_def)

lemma ac_encrypt_key: "send_key (snd (ac_encrypt E usage der c)) = send_key c"
  by (simp add: ac_encrypt_def Let_def split_beta split: option.split)

lemma mk_priv_form:
  assumes "mk_priv E data local remote a = (Inr msg, a')"
  shows "\<exists>ct. msg = \<lparr>kp_pvno = PVNO, kp_msg_type = PRIV_MSG_TYPE,
    kp_enc_part = \<lparr>ed_etype = to_iana (pk_etype (send_key a)), ed_kvno = None, ed_cipher = ct\<rparr>\<rparr>"
  using assms ac_encrypt_key unfolding mk_priv_def Let_def split_beta by (auto split: sum.splits)

text \<open>A message that decrypts to what the peer has sealed is read, and keeps the contexts in step.\<close>

lemma rd_priv_expected:
  assumes "in_step a b" and "raw \<noteq> []" and "hd raw = 0x75" and "se_decode_priv E' raw = Inr msg"
    and "ac_decrypt E' 13 (kp_enc_part msg) b = (Inr der, b\<lparr>ac_cstate := st\<rparr>)"
    and "se_decode_priv_part E' der = Inr (mk_priv_part E a data local remote)"
    and "check_privsafe_addrs_in E' local remote (ac_remote_addr b) (ac_local_addr b) (ac_host_addrs b) = Inr ()"
    and "ciphertext_tag (pk_etype (recv_key b)) (ed_cipher (kp_enc_part msg)) = Inr tag"
    and "has_flag b AUTH_CONTEXT_DO_TIME \<longrightarrow>
      \<bar>uint (unix_seconds (se_now E')) - uint (unix_seconds (fst (se_timeofday E)))\<bar> \<le> ac_clockskew b \<and>
      \<not> snd (check_and_store (cache_time E' b) (cache_of b) (replay_tag tag) (ac_clockskew b))"
  shows "\<exists>g s. rd_priv E' raw b = (Inr data, b\<lparr>ac_cstate := st, ac_memrcache := g, ac_remote := s\<rparr>) \<and>
    rs_expected s = (if has_flag b AUTH_CONTEXT_DO_SEQUENCE then rs_expected (ac_remote b) + 1 else rs_expected (ac_remote b))"
proof -
  let ?b = "b\<lparr>ac_cstate := st\<rparr>" and ?part = "mk_priv_part E a data local remote"
  have fl: "has_flag a 1 = has_flag b 1" "has_flag a 4 = has_flag b 4"
    "has_flag b 4 \<longrightarrow> ac_local_seq a = rs_expected (ac_remote b)"
    using assms(1) by (simp_all add: in_step_def)
  have cache: "cache_time E' ?b = cache_time E' b" "cache_of ?b = cache_of b"
    by (simp_all add: cache_time_def cache_of_def)
  have "rd_priv E' raw b = accept_part E' ?part tag ?b"
    using assms(2-8) by (simp add: rd_priv_def key_usage_new_def)
  moreover have "\<exists>g s. accept_part E' ?part tag ?b = (Inr (pp_user_data ?part), ?b\<lparr>ac_memrcache := g, ac_remote := s\<rparr>) \<and>
      rs_expected s = (if has_flag ?b 4 then rs_expected (ac_remote ?b) + 1 else rs_expected (ac_remote ?b))"
    using assms(9) fl by (intro accept_part_expected) (simp_all add: cache)
  ultimately show ?thesis
    by (cases "has_flag b 4") simp_all
qed

subsection \<open>A context keeps what it has seen\<close>

datatype ac_op = RdPriv bytes | RdSafe bytes

fun ac_step :: "auth_context \<Rightarrow> ac_env \<times> ac_op \<Rightarrow> auth_context \<times> (pr_error + bytes)" where
  "ac_step c (E, RdPriv raw) = prod.swap (rd_priv E raw c)"
| "ac_step c (E, RdSafe raw) = prod.swap (rd_safe E raw c)"

definition ac_inv :: "auth_context \<Rightarrow> bool" where
  "ac_inv c \<longleftrightarrow> (\<forall>g. ac_memrcache c = Some g \<longrightarrow> rc_inv g)"

text \<open>The tag of a message as the reader computes it, for a key.\<close>

fun op_tag :: "ac_env \<Rightarrow> protocol_key \<Rightarrow> ac_op \<Rightarrow> bytes option" where
  "op_tag E key (RdPriv raw) =
     (case se_decode_priv E raw of
        Inl _ \<Rightarrow> None
      | Inr msg \<Rightarrow>
          (case ciphertext_tag (pk_etype key) (ed_cipher (kp_enc_part msg)) of Inl _ \<Rightarrow> None | Inr t \<Rightarrow> Some t))"
| "op_tag E key (RdSafe raw) =
     (case se_decode_safe E raw of Inl _ \<Rightarrow> None | Inr msg \<Rightarrow> Some (cksum_octets (ks_cksum msg)))"

text \<open>Each reader either leaves the replay cache alone, and fails, or ends in \<open>accept_part\<close> on the message's tag.\<close>

definition same_policy :: "auth_context \<Rightarrow> auth_context \<Rightarrow> bool" where
  "same_policy c d \<longleftrightarrow> ac_flags d = ac_flags c \<and> recv_key d = recv_key c \<and> ac_clockskew d = ac_clockskew c"

lemma ac_decrypt_frame:
  "same_policy c (snd (ac_decrypt E usage enc c)) \<and> ac_memrcache (snd (ac_decrypt E usage enc c)) = ac_memrcache c"
  by (auto simp: ac_decrypt_def same_policy_def Let_def split_beta split: option.split)

lemma ac_step_cases:
  obtains (refused) d e where "ac_step c (E, op) = (d, Inl e)" "same_policy c d" "ac_memrcache d = ac_memrcache c"
  | (judged) d part tag where "ac_step c (E, op) = prod.swap (accept_part E part tag d)" "same_policy c d"
      "ac_memrcache d = ac_memrcache c" "op_tag E (recv_key c) op = Some tag"
proof (cases op)
  case (RdPriv raw)
  show ?thesis
  proof (cases "raw = [] \<or> hd raw AND NOT 0x20 \<noteq> 0x55 \<or> (\<exists>e. se_decode_priv E raw = Inl e)")
    case True
    then have "\<exists>e. rd_priv E raw c = (Inl e, c)"
      by (auto simp: rd_priv_def)
    then show ?thesis
      using refused [of c] RdPriv by (auto simp: same_policy_def)
  next
    case False
    then obtain msg where m: "se_decode_priv E raw = Inr msg" "\<not> (raw = [] \<or> hd raw AND NOT 0x20 \<noteq> 0x55)"
      by (cases "se_decode_priv E raw") auto
    obtain r d where d: "ac_decrypt E KU_KRB_PRIV_ENC_PART (kp_enc_part msg) c = (r, d)"
      by (cases "ac_decrypt E KU_KRB_PRIV_ENC_PART (kp_enc_part msg) c")
    then have fr: "same_policy c d" "ac_memrcache d = ac_memrcache c"
      using ac_decrypt_frame [of c E KU_KRB_PRIV_ENC_PART "kp_enc_part msg"] by simp_all
    define q where "q = andthen (map_err pr_from_crypto r) (\<lambda>plain.
      andthen (map_err pr_decode_error (se_decode_priv_part E plain)) (\<lambda>part.
      andthen (check_privsafe_addrs_in E (pp_s_address part) (pp_r_address part)
                 (ac_remote_addr d) (ac_local_addr d) (ac_host_addrs d)) (\<lambda>_.
      andthen (ciphertext_tag (pk_etype (recv_key d)) (ed_cipher (kp_enc_part msg))) (\<lambda>tag. Inr (part, tag)))))"
    have st: "ac_step c (E, op) = prod.swap (case q of Inl e \<Rightarrow> (Inl e, d) | Inr (part, tag) \<Rightarrow> accept_part E part tag d)"
      using m d RdPriv by (simp add: rd_priv_def key_usage_new_def q_def)
    show ?thesis
    proof (cases q)
      case (Inl e)
      with st fr show ?thesis
        by (intro refused [of d e]) simp_all
    next
      case (Inr pt)
      obtain part tag where pt: "pt = (part, tag)"
        by (cases pt)
      then have "ciphertext_tag (pk_etype (recv_key d)) (ed_cipher (kp_enc_part msg)) = Inr tag"
        using Inr unfolding q_def by (auto simp: andthen_def map_err_def split: sum.splits)
      then have "op_tag E (recv_key c) op = Some tag"
        using m RdPriv fr(1) by (simp add: same_policy_def)
      then show ?thesis
        using judged [of part tag d] st Inr pt fr by simp
    qed
  qed
next
  case (RdSafe raw)
  show ?thesis
  proof (cases "verify_krb_safe_checksum_in E (recv_key c) raw (ac_remote_addr c) (ac_local_addr c) (ac_host_addrs c)")
    case (Inl e)
    then show ?thesis
      using refused [of c e] RdSafe by (simp add: rd_safe_def same_policy_def)
  next
    case (Inr msg)
    then have "se_decode_safe E raw = Inr msg"
      by (auto simp: verify_krb_safe_checksum_in_def decode_safe_with_body_def Let_def andthen_def map_err_def
          split: if_splits sum.splits)
    then show ?thesis
      using judged [of "ks_safe_body msg" "cksum_octets (ks_cksum msg)" c] Inr RdSafe
      by (simp add: rd_safe_def same_policy_def)
  qed
qed

lemma accept_part_cache:
  assumes "accept_part E part tag d = (r, d')"
  defines "cas \<equiv> check_and_store (cache_time E d) (cache_of d) (replay_tag tag) (ac_clockskew d)"
  shows "same_policy d d' \<and> (ac_memrcache d' = ac_memrcache d \<or> ac_memrcache d' = Some (fst cas)) \<and>
    (has_flag d AUTH_CONTEXT_DO_TIME \<and> r = Inr x \<longrightarrow> ac_memrcache d' = Some (fst cas) \<and> \<not> snd cas)"
proof -
  obtain r1 d1 where r1: "check_replay E (pp_timestamp part) tag d = (r1, d1)"
    by (cases "check_replay E (pp_timestamp part) tag d")
  have 1: "same_policy d d1" "ac_memrcache d1 = ac_memrcache d \<or> ac_memrcache d1 = Some (fst cas)"
    "has_flag d AUTH_CONTEXT_DO_TIME \<and> r1 = Inr () \<longrightarrow> ac_memrcache d1 = Some (fst cas) \<and> \<not> snd cas"
    using r1 unfolding cas_def by (auto simp: check_replay_def same_policy_def Let_def split_beta split: if_splits)
  have 2: "same_policy d1 (snd (check_seq n d1)) \<and> ac_memrcache (snd (check_seq n d1)) = ac_memrcache d1" for n
    by (simp add: check_seq_def same_policy_def Let_def split_beta)
  show ?thesis
  proof (cases r1)
    case (Inl e)
    then show ?thesis
      using assms(1) r1 1 by (auto simp: accept_part_def)
  next
    case (Inr u)
    then have "d' = snd (check_seq (pp_seq_number part) d1)"
      using assms(1) r1 by (auto simp: accept_part_def split: sum.splits prod.splits)
    then show ?thesis
      using 1 2 [of "pp_seq_number part"] Inr by (auto simp: same_policy_def)
  qed
qed

definition ac_holds :: "auth_context \<Rightarrow> bytes \<Rightarrow> nat \<Rightarrow> bool" where
  "ac_holds c tag t \<longleftrightarrow> (\<exists>g. ac_memrcache c = Some g \<and> held_until g (replay_tag tag) t)"

lemma cache_of_inv: "ac_inv c \<Longrightarrow> rc_inv (cache_of c)"
  using rc_inv_new by (auto simp: ac_inv_def cache_of_def rc_new_def split: option.split)

text \<open>Same policy and cache: the cache operations see the same.\<close>

lemma same_cache:
  assumes "same_policy c d" and "ac_memrcache d = ac_memrcache c"
  shows "cache_of d = cache_of c" "cache_time E d = cache_time E c" "ac_clockskew d = ac_clockskew c"
    "has_flag d f = has_flag c f"
  using assms by (simp_all add: cache_of_def cache_time_def same_policy_def has_flag_def)

lemma ac_step_policy: "same_policy c (fst (ac_step c (E, op)))"
proof (cases rule: ac_step_cases [of c E op])
  case (judged d part tag)
  then show ?thesis
    using accept_part_cache [of E part tag d "fst (accept_part E part tag d)" "snd (accept_part E part tag d)"]
    by (simp add: same_policy_def)
qed simp

lemma ac_step_cache:
  "\<exists>tag. ac_memrcache (fst (ac_step c (E, op))) \<in> {ac_memrcache c, Some (fst (check_and_store (cache_time E c) (cache_of c)
     (replay_tag tag) (ac_clockskew c)))}"
proof (cases rule: ac_step_cases [of c E op])
  case (judged d part tag)
  then show ?thesis
    using accept_part_cache [of E part tag d "fst (accept_part E part tag d)" "snd (accept_part E part tag d)"]
    by (auto simp: same_cache [OF judged(2,3)])
qed simp

interpretation ac: machine ac_step ac_inv
proof unfold_locales
  fix c :: auth_context and x :: "ac_env \<times> ac_op"
  assume "ac_inv c"
  obtain E op where x: "x = (E, op)"
    by (cases x)
  show "ac_inv (fst (ac_step c x))"
    using ac_step_cache [of c E op] \<open>ac_inv c\<close> check_and_store_inv [OF cache_of_inv [OF \<open>ac_inv c\<close>]]
    unfolding x by (auto simp: ac_inv_def)
qed

lemma ac_step_holds:
  assumes "ac_inv c" and "ac_holds c tag t" and "se_elapsed E \<le> t"
  shows "ac_holds (fst (ac_step c (E, op))) tag t"
proof -
  obtain g where g: "ac_memrcache c = Some g" "held_until g (replay_tag tag) t" "rc_inv g"
    using assms(1,2) by (auto simp: ac_holds_def ac_inv_def)
  then have "cache_time E c = se_elapsed E" "cache_of c = g"
    by (simp_all add: cache_time_def cache_of_def)
  then show ?thesis
    using ac_step_cache [of c E op] g check_and_store_holds [OF g(3,2) assms(3)] by (auto simp: ac_holds_def)
qed

lemma ac_step_accepts:
  assumes "ac_inv c" and "has_flag c AUTH_CONTEXT_DO_TIME" and "snd (ac_step c (E, op)) = Inr x"
  shows "\<exists>tag. op_tag E (recv_key c) op = Some tag \<and> (\<forall>t. \<not> ac_holds c tag t) \<and>
    ac_holds (fst (ac_step c (E, op))) tag (cache_time E c + nat (ac_clockskew c))"
proof (cases rule: ac_step_cases [of c E op])
  case (judged d part tag)
  let ?cas = "check_and_store (cache_time E c) (cache_of c) (replay_tag tag) (ac_clockskew c)"
  have "ac_memrcache (fst (ac_step c (E, op))) = Some (fst ?cas)" "\<not> snd ?cas"
    using accept_part_cache [of E part tag d "fst (accept_part E part tag d)" "snd (accept_part E part tag d)" x]
      judged assms(2,3) by (simp_all add: same_cache [OF judged(2,3)])
  moreover from this have "held_until (fst ?cas) (replay_tag tag) (cache_time E c + nat (ac_clockskew c))"
    using check_and_store_stores [OF cache_of_inv [OF assms(1)]] by blast
  moreover have "\<not> ac_holds c tag t" for t
    using held_is_replay [OF cache_of_inv [OF assms(1)]] \<open>\<not> snd ?cas\<close> by (auto simp: ac_holds_def cache_of_def)
  ultimately show ?thesis
    using judged(4) by (auto simp: ac_holds_def)
qed (use assms(3) in simp)

lemma run_ac_holds:
  assumes "ac_inv c" and "ac_holds c tag t" and "\<forall>(E, _) \<in> set ys. se_elapsed E \<le> t"
  shows "ac_holds (fst (run ac_step c ys)) tag t \<and> same_policy c (fst (run ac_step c ys))"
  using assms
proof (induction ys arbitrary: c)
  case (Cons y ys)
  obtain E op where y: "y = (E, op)"
    by (cases y)
  have "ac_holds (fst (ac_step c y)) tag t" "ac_inv (fst (ac_step c y))"
    using Cons.prems ac_step_holds [of c tag t E op] ac.step_inv y by auto
  with Cons.IH [of "fst (ac_step c y)"] Cons.prems(3) ac_step_policy [of c E op] y show ?case
    by (simp add: split_beta same_policy_def)
qed (simp add: same_policy_def)

subsection \<open>Properties\<close>

text \<open>
  C7: Private messages are delivered.  When the contexts of two peers are in step (equal keys, flags and cipher
  states, and the number the sender uses next is the one the receiver expects), \<open>mk_priv\<close> succeeds for every
  content the encoder can write, and \<open>rd_priv\<close> returns the content from the message if it arrives in time, from an
  acceptable address and with a tag that the replay cache does not refuse; afterwards the contexts are in step again, so
  that the next message is delivered, too.  Triple DES, whose padding the decoder sees, is left out.
\<close>
theorem priv_delivered:
  assumes "prims_ok (se_prims E)" and "key_ok (send_key a)" and "pk_etype (send_key a) \<noteq> Des3CbcSha1"
    and "rng_ok (se_rng E)" and "se_rng E 16 \<noteq> None" and "in_step a b" and "se_prims E' = se_prims E"
    and "se_encode_priv_part E (mk_priv_part E a data local remote) = Inr der"
    and "se_decode_priv_part E' der = Inr (mk_priv_part E a data local remote)"
    and "check_privsafe_addrs_in E' local remote (ac_remote_addr b) (ac_local_addr b) (ac_host_addrs b) = Inr ()"
    and "has_flag b AUTH_CONTEXT_DO_TIME \<longrightarrow>
      \<bar>uint (unix_seconds (se_now E')) - uint (unix_seconds (fst (se_timeofday E)))\<bar> \<le> ac_clockskew b"
  shows "\<exists>msg a'. mk_priv E data local remote a = (Inr msg, a') \<and>
    (\<forall>raw. raw \<noteq> [] \<and> hd raw = 0x75 \<and> se_decode_priv E' raw = Inr msg \<and> tag_fresh E' b (ed_cipher (kp_enc_part msg)) \<longrightarrow>
       (\<exists>b'. rd_priv E' raw b = (Inr data, b') \<and> in_step a' b'))"
proof -
  obtain ct tag st where c: "ac_encrypt E 13 der a = (Inr ct, a\<lparr>ac_cstate := st\<rparr>)"
    "ac_decrypt E' 13 \<lparr>ed_etype = to_iana (pk_etype (send_key a)), ed_kvno = None, ed_cipher = ct\<rparr> b
      = (Inr der, b\<lparr>ac_cstate := st\<rparr>)"
    "ciphertext_tag (pk_etype (recv_key b)) ct = Inr tag" "\<forall>iv. st = Some iv \<longrightarrow> length iv = 16"
    using ac_crypt [OF assms(1-7), of 13 der] by (elim exE conjE)
  define msg where "msg = \<lparr>kp_pvno = PVNO, kp_msg_type = PRIV_MSG_TYPE,
    kp_enc_part = \<lparr>ed_etype = to_iana (pk_etype (send_key a)), ed_kvno = None, ed_cipher = ct\<rparr>\<rparr>"
  define a' where "a' = (if has_flag a AUTH_CONTEXT_DO_SEQUENCE
    then a\<lparr>ac_cstate := st, ac_local_seq := ac_local_seq a + 1\<rparr> else a\<lparr>ac_cstate := st\<rparr>)"
  have mk: "mk_priv E data local remote a = (Inr msg, a')"
    using assms(8) c(1) by (simp add: mk_priv_def key_usage_new_def msg_def a'_def)
  have "\<exists>b'. rd_priv E' raw b = (Inr data, b') \<and> in_step a' b'"
    if raw: "raw \<noteq> []" "hd raw = 0x75" "se_decode_priv E' raw = Inr msg" and fresh: "tag_fresh E' b (ed_cipher (kp_enc_part msg))"
    for raw
  proof -
    have "\<exists>g s. rd_priv E' raw b = (Inr data, b\<lparr>ac_cstate := st, ac_memrcache := g, ac_remote := s\<rparr>) \<and>
        rs_expected s = (if has_flag b 4 then rs_expected (ac_remote b) + 1 else rs_expected (ac_remote b))"
      using c(2,3) fresh assms(11)
      by (intro rd_priv_expected [OF assms(6) raw _ assms(9,10), where tag = tag]) (auto simp: msg_def tag_fresh_def)
    then show ?thesis
      using assms(6) c(4) by (elim exE conjE) (simp add: in_step_def a'_def)
  qed
  with mk show ?thesis
    by blast
qed

definition example_ac_env :: ac_env where
  "example_ac_env =
     \<lparr>se_prims = example_prims, se_rng = \<lambda>n. Some (replicate n 0), se_timeofday = (1000, 5), se_now = 1001, se_elapsed = 3,
      se_localaddr = Inr [], se_encode_priv_part = \<lambda>p. Inr (pp_user_data p),
      se_decode_priv_part = \<lambda>d. Inr \<lparr>pp_user_data = d, pp_timestamp = Some 1000, pp_usec = Some 5, pp_seq_number = Some 7,
        pp_s_address = local_addr, pp_r_address = None\<rparr>,
      se_decode_priv = \<lambda>raw. Inr \<lparr>kp_pvno = 5, kp_msg_type = 21,
        kp_enc_part = \<lparr>ed_etype = 23, ed_kvno = None, ed_cipher = tl raw\<rparr>\<rparr>,
      se_encode_safe_body = \<lambda>b. Inr (pp_user_data b), se_decode_safe = \<lambda>_. Inr example_safe,
      se_encode_cksum = \<lambda>c. Inr (cksum_octets c), ae_decode_authdata = \<lambda>_. Inl [], ae_decode_etypes = \<lambda>_. Inl [],
      ae_encode_ap_rep_part = \<lambda>_. Inr [], ae_seq_random = Inr 0\<rparr>"

definition example_ac :: auth_context where
  "example_ac =
     \<lparr>ac_flags = 5, ac_key = example_rc4_key,
      ac_authenticator = \<lparr>au_vno = 5, au_crealm = ''R'', au_cname = \<lparr>name_type = 1, name_string = [''u'']\<rparr>, au_cksum = None,
        au_cusec = 5, au_ctime = 1000, au_subkey = None, au_seq_number = Some 7, au_authorization_data = None\<rparr>,
      ac_send_subkey = None, ac_recv_subkey = None, ac_local_seq = 7, ac_remote = rs_new 7, ac_negotiated_etype = Rc4Hmac,
      ac_ap_req_use_subkey = False, ac_local_addr = None, ac_remote_addr = None, ac_host_addrs = None, ac_cstate = None,
      ac_memrcache = None, ac_clockskew = 300\<rparr>"

theorem priv_delivered_witness:
  "\<exists>msg a' b'. mk_priv example_ac_env [9] local_addr None example_ac = (Inr msg, a') \<and>
     rd_priv example_ac_env (0x75 # ed_cipher (kp_enc_part msg)) example_ac = (Inr [9], b') \<and> in_step a' b'"
proof -
  have keys: "send_key example_ac = example_rc4_key" "recv_key example_ac = example_rc4_key"
    "has_flag example_ac 1" "has_flag example_ac 4"
    by (simp_all add: send_key_def recv_key_def has_flag_def example_ac_def)
  have env: "prims_ok (se_prims example_ac_env)" "rng_ok (se_rng example_ac_env)" "se_rng example_ac_env 16 \<noteq> None"
    "in_step example_ac example_ac"
    using example_prims_ok by (simp_all add: example_ac_env_def rng_ok_def in_step_def keys) (simp_all add: example_ac_def rs_new_def)
  have part: "se_encode_priv_part example_ac_env (mk_priv_part example_ac_env example_ac [9] local_addr None) = Inr [9]"
    "se_decode_priv_part example_ac_env [9] = Inr (mk_priv_part example_ac_env example_ac [9] local_addr None)"
    by (simp_all add: example_ac_env_def mk_priv_part_def keys) (simp_all add: example_ac_def Let_def)
  have rest: "check_privsafe_addrs_in example_ac_env local_addr None (ac_remote_addr example_ac) (ac_local_addr example_ac)
      (ac_host_addrs example_ac) = Inr ()"
    "\<bar>uint (unix_seconds (se_now example_ac_env)) - uint (unix_seconds (fst (se_timeofday example_ac_env)))\<bar> \<le> ac_clockskew example_ac"
    by (simp_all add: example_ac_def check_privsafe_addrs_in_def example_ac_env_def unix_seconds_def)
  obtain msg a' where m: "mk_priv example_ac_env [9] local_addr None example_ac = (Inr msg, a')"
    "\<And>raw. raw \<noteq> [] \<and> hd raw = 0x75 \<and> se_decode_priv example_ac_env raw = Inr msg \<and>
       tag_fresh example_ac_env example_ac (ed_cipher (kp_enc_part msg)) \<Longrightarrow>
       \<exists>b'. rd_priv example_ac_env raw example_ac = (Inr [9], b') \<and> in_step a' b'"
    using priv_delivered [of example_ac_env example_ac example_ac example_ac_env "[9]" local_addr None "[9]",
        OF env(1) _ _ env(2,3,4) refl part rest(1)] rest(2) example_rc4_key_ok(1)
    by (auto simp: keys example_rc4_key_def)
  have "se_decode_priv example_ac_env (0x75 # ed_cipher (kp_enc_part msg)) = Inr msg"
    using mk_priv_form [OF m(1)] by (auto simp: keys example_ac_env_def example_rc4_key_def)
  moreover have "tag_fresh example_ac_env example_ac (ed_cipher (kp_enc_part msg))"
    by (simp add: tag_fresh_def example_ac_def cache_of_def cache_time_def rc_new_def rc_with_limits_def check_and_store_def Let_def)
  ultimately show ?thesis
    using m(1) m(2) [of "0x75 # ed_cipher (kp_enc_part msg)"] by auto
qed

text \<open>
  C4: No message is accepted twice.  Once a context that checks times has accepted a private or safe message, the same
  message is refused at every later call, whatever messages are read between, as long as those are read before
  the time for which the replay cache keeps the tag, the clock skew of the context, has passed.
\<close>
theorem messages_not_replayed:
  assumes "ac_inv c" and "has_flag c AUTH_CONTEXT_DO_TIME"
    and "run ac_step c ((E, op) # ys @ [(E', op)]) = (c', outs)" and "hd outs = Inr data"
    and "se_decode_priv E' = se_decode_priv E" and "se_decode_safe E' = se_decode_safe E"
    and "\<forall>(F, _) \<in> set ys. se_elapsed F \<le> cache_time E c + nat (ac_clockskew c)"
  shows "\<exists>e. last outs = Inl e"
proof -
  obtain c1 r where s: "ac_step c (E, op) = (c1, r)"
    by (cases "ac_step c (E, op)")
  obtain c2 os where r2: "run ac_step c1 ys = (c2, os)"
    by (cases "run ac_step c1 ys")
  obtain c3 r3 where l: "ac_step c2 (E', op) = (c3, r3)"
    by (cases "ac_step c2 (E', op)")
  have outs: "outs = r # os @ [r3]"
    using assms(3) s r2 l by (simp add: run_append)
  obtain tag where tag: "op_tag E (recv_key c) op = Some tag" "ac_holds c1 tag (cache_time E c + nat (ac_clockskew c))"
    using ac_step_accepts [OF assms(1,2), of E op data] assms(4) s outs by auto
  have inv: "ac_inv c1" "ac_inv c2"
    using ac.step_inv [OF assms(1), of "(E, op)"] ac.run_inv [of c1 ys] s r2 by simp_all
  have pol: "ac_holds c2 tag (cache_time E c + nat (ac_clockskew c))" "same_policy c1 c2" "same_policy c c1"
    using run_ac_holds [OF inv(1) tag(2) assms(7)] r2 ac_step_policy [of c E op] s by simp_all
  have "r3 \<noteq> Inr x" for x
  proof
    assume "r3 = Inr x"
    moreover have "has_flag c2 AUTH_CONTEXT_DO_TIME" "recv_key c2 = recv_key c"
      using assms(2) pol(2,3) by (simp_all add: same_policy_def has_flag_def)
    moreover have "op_tag E' key op = op_tag E key op" for key
      using assms(5,6) by (cases op) simp_all
    ultimately show False
      using ac_step_accepts [OF inv(2), of E' op x] l tag(1) pol(1) by auto
  qed
  then show ?thesis
    using outs by (cases r3) auto
qed

theorem messages_not_replayed_witness:
  "\<exists>c' e. run ac_step example_ac [(example_ac_env, RdPriv (0x75 # replicate 16 7 @ replicate 8 2 @ [5])),
     (example_ac_env, RdPriv (0x75 # replicate 16 7 @ replicate 8 2 @ [5]))] = (c', [Inr [5], Inl e])"
proof -
  let ?i = "(example_ac_env, RdPriv (0x75 # replicate 16 7 @ replicate 8 2 @ [5]))"
  obtain c' outs where r: "run ac_step example_ac (?i # [] @ [?i]) = (c', outs)"
    by (cases "run ac_step example_ac (?i # [] @ [?i])")
  have d: "ac_decrypt example_ac_env 13 \<lparr>ed_etype = 23, ed_kvno = None, ed_cipher = replicate 16 7 @ replicate 8 2 @ [5]\<rparr> example_ac
      = (Inr [5], example_ac)"
    by code_simp
  have "snd (ac_step example_ac ?i) = Inr [5]"
    using d by (simp add: rd_priv_def key_usage_new_def example_ac_env_def check_privsafe_addrs_in_def)
      (simp add: example_ac_def example_rc4_key_def recv_key_def ciphertext_tag_def checksum_output_size_def ok_or_def
        accept_part_def check_replay_def check_seq_def has_flag_def rs_new_def rs_check_def unix_seconds_def
        cache_of_def cache_time_def rc_new_def rc_with_limits_def check_and_store_def Let_def)
  then obtain y where outs: "outs = [Inr [5], y]"
    using r by (auto simp: split_beta)
  moreover have "\<exists>e. last outs = Inl e"
    using messages_not_replayed [OF _ _ r _ refl refl] outs by (simp add: ac_inv_def example_ac_def has_flag_def)
  ultimately show ?thesis
    using r by auto
qed

end
