(* ===== verification/GssSeq.thy ===== *)
theory GssSeq
  imports Prelude
begin

text \<open>
  The receive window of a GSS-API context (\<open>crates/krb5-gss/src/seqstate.rs\<close>, and \<open>accept_seq\<close> of
  \<open>context.rs\<close>): the next expected sequence number relative to a base and a map of 64 bits for the numbers before
  it.  It is shown to answer as a window over the list of all numbers received does.
\<close>

datatype gss_error = GssInner string | GssIntegrity | GssTruncated | GssSequence

datatype seq_status = SeqComplete | SeqGap | SeqUnseq | SeqOld | SeqDuplicate

record seq_state =
  ss_do_replay :: bool
  ss_do_sequence :: bool
  ss_wide :: bool
  ss_base :: u64
  ss_next :: u64
  ss_recvmap :: u64

abbreviation (input) GSS_C_REPLAY :: u32 where "GSS_C_REPLAY \<equiv> 4"
abbreviation (input) GSS_C_SEQUENCE :: u32 where "GSS_C_SEQUENCE \<equiv> 8"

definition seq_new :: "u64 \<Rightarrow> u32 \<Rightarrow> bool \<Rightarrow> seq_state" where
  "seq_new seqnum flags wide =
     \<lparr>ss_do_replay = (flags AND GSS_C_REPLAY \<noteq> 0), ss_do_sequence = (flags AND GSS_C_SEQUENCE \<noteq> 0), ss_wide = wide,
      ss_base = seqnum, ss_next = 0, ss_recvmap = 0\<rparr>"

definition seq_mask :: "seq_state \<Rightarrow> u64" where
  "seq_mask s = (if ss_wide s then - 1 else 0xFFFFFFFF)"

definition seq_rel :: "seq_state \<Rightarrow> u64 \<Rightarrow> u64" where
  "seq_rel s seqnum = (seqnum - ss_base s) AND seq_mask s"

definition past_window :: "seq_state \<Rightarrow> u64 \<Rightarrow> bool" where
  "past_window s seqnum = (let rel = seq_rel s seqnum in rel < ss_next s \<and> ss_next s - rel > 64)"

text \<open>\<open>checked_add\<close>, \<open>u32::try_from\<close> and \<open>checked_shl\<close>: a shift by 64 or more gives nothing.\<close>

definition shift_map :: "u64 \<Rightarrow> u64 \<Rightarrow> u64" where
  "shift_map recvmap offset =
     (if offset = - 1 then 0
      else if offset + 1 > 0xFFFFFFFF then 0
      else if offset + 1 \<ge> 64 then 0
      else push_bit (unat (offset + 1)) recvmap)"

definition seq_check :: "seq_state \<Rightarrow> u64 \<Rightarrow> seq_state \<times> seq_status" where
  "seq_check s seqnum =
     (if \<not> ss_do_replay s \<and> \<not> ss_do_sequence s then (s, SeqComplete)
      else
        let mask = seq_mask s; rel = seq_rel s seqnum in
        if rel \<ge> ss_next s then
          let offset = rel - ss_next s in
          (s\<lparr>ss_recvmap := shift_map (ss_recvmap s) offset OR 1, ss_next := (rel + 1) AND mask\<rparr>,
           if offset > 0 \<and> ss_do_sequence s then SeqGap else SeqComplete)
        else
          let offset = ss_next s - rel in
          if offset > 64 then (s, if ss_do_sequence s then SeqUnseq else SeqOld)
          else
            let b = push_bit (unat (offset - 1)) 1 in
            if ss_do_replay s \<and> ss_recvmap s AND b \<noteq> 0 then (s, SeqDuplicate)
            else (s\<lparr>ss_recvmap := ss_recvmap s OR b\<rparr>, if ss_do_sequence s then SeqUnseq else SeqComplete))"

definition accept_seq :: "seq_state \<Rightarrow> u64 \<Rightarrow> seq_state \<times> (gss_error + unit)" where
  "accept_seq s seq =
     (let past = ss_do_replay s \<and> past_window s seq in
      case seq_check s seq of
        (s, SeqDuplicate) \<Rightarrow> (s, Inl GssSequence)
      | (s, SeqOld) \<Rightarrow> (s, Inl GssSequence)
      | (s, SeqUnseq) \<Rightarrow> (s, if past then Inl GssSequence else Inr ())
      | (s, SeqComplete) \<Rightarrow> (s, Inr ())
      | (s, SeqGap) \<Rightarrow> (s, Inr ()))"

subsection \<open>The window over a history\<close>

text \<open>The answer to a relative number \<open>r\<close> after the relative numbers \<open>hs\<close>.\<close>

definition next_of :: "nat list \<Rightarrow> nat" where
  "next_of hs = (if hs = [] then 0 else Suc (Max (set hs)))"

definition window_status :: "bool \<Rightarrow> bool \<Rightarrow> nat list \<Rightarrow> nat \<Rightarrow> seq_status" where
  "window_status rp sq hs r =
     (let n = next_of hs in
      if \<not> rp \<and> \<not> sq then SeqComplete
      else if r \<ge> n then (if r > n \<and> sq then SeqGap else SeqComplete)
      else if n - r > 64 then (if sq then SeqUnseq else SeqOld)
      else if rp \<and> r \<in> set hs then SeqDuplicate
      else if sq then SeqUnseq else SeqComplete)"

definition window_inv :: "seq_state \<Rightarrow> nat list \<Rightarrow> bool" where
  "window_inv s hs \<longleftrightarrow>
     unat (ss_next s) = next_of hs \<and> ss_next s \<le> seq_mask s \<and>
     (\<forall>i < 64. bit (ss_recvmap s) i \<longleftrightarrow> i < next_of hs \<and> next_of hs - 1 - i \<in> set hs)"

lemma next_of_bound: "h \<in> set hs \<Longrightarrow> h < next_of hs"
  by (auto simp: next_of_def less_Suc_eq_le)

lemma next_of_Cons:
  "next_of (r # hs) = max (Suc r) (next_of hs)"
  by (cases "hs = []") (simp_all add: next_of_def)

lemma seq_rel_le: "seq_rel s q \<le> seq_mask s"
  by (simp add: seq_rel_def word_and_le1)

lemma rel_succ:
  assumes "seq_rel s q \<noteq> seq_mask s"
  shows "(seq_rel s q + 1) AND seq_mask s = seq_rel s q + 1" "unat (seq_rel s q + 1) = Suc (unat (seq_rel s q))"
    "seq_rel s q + 1 \<le> seq_mask s"
proof -
  have l: "seq_rel s q < seq_mask s"
    using assms seq_rel_le [of s q] by simp
  then show u: "unat (seq_rel s q + 1) = Suc (unat (seq_rel s q))"
    using unat_less_pow [of "seq_mask s"] by (simp add: unat_word_ariths word_less_nat_alt)
  show le: "seq_rel s q + 1 \<le> seq_mask s"
    using l u by (simp add: word_le_nat_alt word_less_nat_alt)
  show "(seq_rel s q + 1) AND seq_mask s = seq_rel s q + 1"
  proof (cases "ss_wide s")
    case False
    then have "unat (seq_rel s q + 1) < 2 ^ 32"
      using le by (simp add: seq_mask_def word_le_nat_alt)
    then have "take_bit 32 (seq_rel s q + 1) = seq_rel s q + 1"
      by (simp add: word_unat_eq_iff unsigned_take_bit_eq take_bit_nat_eq_self)
    then show ?thesis
      using False by (simp add: seq_mask_def take_bit_eq_mask mask_eq_exp_minus_1)
  qed (simp add: seq_mask_def)
qed

lemma shift_map_bit:
  assumes "i < 64"
  shows "bit (shift_map m off OR 1) i \<longleftrightarrow> i = 0 \<or> unat off < i \<and> bit m (i - unat off - 1)"
proof (cases "off = - 1")
  case True
  then have "63 \<le> unat off"
    by (simp add: unsigned_minus_1_eq_mask mask_eq_exp_minus_1)
  then show ?thesis
    using True assms by (auto simp: shift_map_def bit_or_iff bit_1_iff)
next
  case False
  then have "unat off \<noteq> 2 ^ 64 - 1"
    by (simp add: word_unat_eq_iff unsigned_minus_1_eq_mask mask_eq_exp_minus_1)
  then have u: "unat (off + 1) = Suc (unat off)"
    using unat_less_pow [of off] by (simp add: unat_word_ariths)
  show ?thesis
  proof (cases "Suc (unat off) < 64")
    case True
    then have sm: "shift_map m off = push_bit (Suc (unat off)) m"
      using False u by (simp add: shift_map_def word_less_nat_alt word_le_nat_alt del: push_bit_Suc)
    show ?thesis
      unfolding sm bit_or_iff bit_push_bit_iff using assms by (auto simp: bit_1_iff)
  next
    case far: False
    then have "shift_map m off = 0"
      using False u by (simp add: shift_map_def word_less_nat_alt word_le_nat_alt)
    then show ?thesis
      using far assms by (auto simp: bit_1_iff)
  qed
qed

lemma seq_check_step:
  assumes "window_inv s hs" and "seq_rel s q \<noteq> seq_mask s" and "ss_do_replay s \<or> ss_do_sequence s"
  shows "window_inv (fst (seq_check s q)) (unat (seq_rel s q) # hs) \<and>
    snd (seq_check s q) = window_status (ss_do_replay s) (ss_do_sequence s) hs (unat (seq_rel s q))"
proof -
  define r n where "r = unat (seq_rel s q)" and "n = next_of hs"
  have n: "unat (ss_next s) = n" "ss_next s \<le> seq_mask s"
    and bits: "\<And>i. i < 64 \<Longrightarrow> bit (ss_recvmap s) i \<longleftrightarrow> i < n \<and> n - 1 - i \<in> set hs"
    using assms(1) by (auto simp: window_inv_def n_def)
  have mask: "seq_mask (s\<lparr>ss_recvmap := x, ss_next := y\<rparr>) = seq_mask s" "seq_mask (s\<lparr>ss_recvmap := x\<rparr>) = seq_mask s" for x y
    by (simp_all add: seq_mask_def)
  show ?thesis
  proof (cases "seq_rel s q \<ge> ss_next s")
    case True
    then have rn: "n \<le> r" "unat (seq_rel s q - ss_next s) = r - n"
      using n(1) by (simp_all add: r_def word_le_nat_alt unat_sub)
    have st: "seq_check s q = (s\<lparr>ss_recvmap := shift_map (ss_recvmap s) (seq_rel s q - ss_next s) OR 1,
        ss_next := seq_rel s q + 1\<rparr>, if seq_rel s q - ss_next s > 0 \<and> ss_do_sequence s then SeqGap else SeqComplete)"
      using True assms(2,3) by (auto simp: seq_check_def Let_def rel_succ)
    have nx: "next_of (r # hs) = Suc r"
      using rn(1) by (simp add: next_of_Cons n_def)
    have "bit (shift_map (ss_recvmap s) (seq_rel s q - ss_next s) OR 1) i \<longleftrightarrow> i < Suc r \<and> r - i \<in> set (r # hs)" if "i < 64" for i
      using that rn next_of_bound [of "r - i" hs]
      by (auto simp: shift_map_bit bits n_def [symmetric])
    then have "window_inv (fst (seq_check s q)) (r # hs)"
      using rel_succ [OF assms(2)] by (simp add: st window_inv_def nx mask r_def [symmetric])
    moreover have "snd (seq_check s q) = window_status (ss_do_replay s) (ss_do_sequence s) hs r"
      using rn assms(3) by (auto simp: st window_status_def n_def [symmetric] word_less_nat_alt)
    ultimately show ?thesis
      by (simp add: r_def)
  next
    case False
    then have rn: "r < n" "unat (ss_next s - seq_rel s q) = n - r"
      using n(1) by (simp_all add: r_def word_le_nat_alt unat_sub not_le)
    have nx: "next_of (r # hs) = n"
      using rn(1) by (simp add: next_of_Cons n_def)
    show ?thesis
    proof (cases "n - r > 64")
      case True
      then have st: "seq_check s q = (s, if ss_do_sequence s then SeqUnseq else SeqOld)"
        using False assms(3) rn by (auto simp: seq_check_def Let_def word_less_nat_alt)
      have "window_inv s (r # hs)"
        using n bits True by (auto simp: window_inv_def nx)
      then show ?thesis
        using st rn True assms(3) by (simp add: r_def [symmetric] window_status_def n_def [symmetric])
    next
      case near: False
      define k where "k = n - r - 1"
      have k: "unat (ss_next s - seq_rel s q - 1) = k" "k < 64" "n - 1 - k = r" "k < n"
        using rn near by (simp_all add: k_def unat_sub word_le_nat_alt)
      have b: "ss_recvmap s AND push_bit k 1 \<noteq> 0 \<longleftrightarrow> r \<in> set hs"
        using bits [OF k(2)] k(2-4) by (simp add: and_exp_eq_0_iff_not_bit)
      have or: "bit (ss_recvmap s OR push_bit k 1) i \<longleftrightarrow> bit (ss_recvmap s) i \<or> i = k" if "i < 64" for i
        using that by (auto simp: bit_or_iff bit_exp_iff)
      have st: "seq_check s q = (if ss_do_replay s \<and> r \<in> set hs then (s, SeqDuplicate)
          else (s\<lparr>ss_recvmap := ss_recvmap s OR push_bit k 1\<rparr>, if ss_do_sequence s then SeqUnseq else SeqComplete))"
        using False near assms(3) rn k(1) b by (auto simp: seq_check_def Let_def word_less_nat_alt)
      have "window_inv (s\<lparr>ss_recvmap := ss_recvmap s OR push_bit k 1\<rparr>) (r # hs)"
        using n bits or k(2-) rn(1) by (auto simp: window_inv_def nx mask)
      moreover have "window_inv s (r # hs)" if "r \<in> set hs"
        using n bits that by (auto simp: window_inv_def nx insert_absorb)
      ultimately show ?thesis
        using st rn near assms(3) by (auto simp: r_def [symmetric] window_status_def n_def [symmetric])
    qed
  qed
qed

lemma seq_check_frame:
  "ss_do_replay (fst (seq_check s q)) = ss_do_replay s" "ss_do_sequence (fst (seq_check s q)) = ss_do_sequence s"
  "seq_rel (fst (seq_check s q)) = seq_rel s" "seq_mask (fst (seq_check s q)) = seq_mask s"
  by (auto simp: seq_check_def Let_def seq_rel_def seq_mask_def fun_eq_iff)

lemma accept_seq_state: "fst (accept_seq s q) = fst (seq_check s q)"
  by (auto simp: accept_seq_def Let_def split: prod.split seq_status.split)

lemma past_window_iff:
  assumes "window_inv s hs"
  shows "past_window s q \<longleftrightarrow> unat (seq_rel s q) + 64 < next_of hs"
proof -
  have n: "unat (ss_next s) = next_of hs"
    using assms by (simp add: window_inv_def)
  show ?thesis
  proof (cases "seq_rel s q < ss_next s")
    case True
    then have "unat (ss_next s - seq_rel s q) = next_of hs - unat (seq_rel s q)"
      by (simp add: unat_sub n)
    with True show ?thesis
      by (auto simp: past_window_def Let_def word_less_nat_alt n)
  qed (simp add: past_window_def Let_def word_less_nat_alt n)
qed

text \<open>With replay detection, a number is accepted if it is new and in the window.\<close>

lemma accept_seq_step:
  assumes "window_inv s hs" and "seq_rel s q \<noteq> seq_mask s" and "ss_do_replay s"
  shows "window_inv (fst (accept_seq s q)) (unat (seq_rel s q) # hs) \<and>
    snd (accept_seq s q) =
      (if unat (seq_rel s q) \<notin> set hs \<and> next_of hs \<le> unat (seq_rel s q) + 64 then Inr () else Inl GssSequence)"
proof -
  have st: "window_inv (fst (seq_check s q)) (unat (seq_rel s q) # hs)"
    "snd (seq_check s q) = window_status True (ss_do_sequence s) hs (unat (seq_rel s q))"
    using seq_check_step [OF assms(1,2)] assms(3) by simp_all
  have out: "snd (accept_seq s q) =
      (case snd (seq_check s q) of SeqDuplicate \<Rightarrow> Inl GssSequence | SeqOld \<Rightarrow> Inl GssSequence
       | SeqUnseq \<Rightarrow> if past_window s q then Inl GssSequence else Inr () | _ \<Rightarrow> Inr ())"
    using assms(3) by (auto simp: accept_seq_def Let_def split: prod.split seq_status.split)
  show ?thesis
    using st(1) next_of_bound [of "unat (seq_rel s q)" hs]
    by (auto simp: accept_seq_state out st(2) window_status_def Let_def past_window_iff [OF assms(1)])
qed

lemma run_accept_seq:
  assumes "window_inv s hs" and "ss_do_replay s" and "\<forall>q \<in> set qs. seq_rel s q \<noteq> seq_mask s" and "i < length qs"
  shows "snd (run accept_seq s qs) ! i =
    (let before = rev (map (\<lambda>q. unat (seq_rel s q)) (take i qs)) @ hs; r = unat (seq_rel s (qs ! i)) in
     if r \<notin> set before \<and> next_of before \<le> r + 64 then Inr () else Inl GssSequence)"
  using assms
proof (induction qs arbitrary: s hs i)
  case (Cons q qs)
  note step = accept_seq_step [OF Cons.prems(1) _ Cons.prems(2), of q]
  show ?case
  proof (cases i)
    case 0
    then show ?thesis
      using step Cons.prems(3) by (simp add: split_beta)
  next
    case (Suc j)
    let ?s = "fst (accept_seq s q)"
    have "snd (run accept_seq ?s qs) ! j =
        (let before = rev (map (\<lambda>q. unat (seq_rel ?s q)) (take j qs)) @ unat (seq_rel s q) # hs; r = unat (seq_rel ?s (qs ! j)) in
         if r \<notin> set before \<and> next_of before \<le> r + 64 then Inr () else Inl GssSequence)"
      using Cons.prems Suc step by (intro Cons.IH) (simp_all add: accept_seq_state seq_check_frame)
    then show ?thesis
      using Suc by (simp add: split_beta accept_seq_state seq_check_frame)
  qed
qed simp

subsection \<open>Properties\<close>

text \<open>
  C13: The receive window of a GSS-API context accepts each message once.  In every sequence of sequence numbers
  presented to a context with replay detection, a number is accepted exactly if it has not been presented before
  and is less than 64 behind the highest one; every other number is refused with a sequence error.  Numbers are
  relative to the context's first one and, for contexts of 32 bits, modulo \<open>2 ^ 32\<close>; the highest relative number,
  after which the code starts anew, is left out.
\<close>
theorem seq_accepts_once:
  assumes "flags AND GSS_C_REPLAY \<noteq> 0" and "rel = (\<lambda>q. unat (seq_rel (seq_new seqnum flags wide) q))"
    and "\<forall>q \<in> set qs. seq_rel (seq_new seqnum flags wide) q \<noteq> seq_mask (seq_new seqnum flags wide)" and "i < length qs"
  shows "snd (run accept_seq (seq_new seqnum flags wide) qs) ! i =
    (if rel (qs ! i) \<notin> rel ` set (take i qs) \<and> (\<forall>q \<in> set (take i qs). rel q < rel (qs ! i) + 64)
     then Inr () else Inl GssSequence)"
proof -
  let ?s = "seq_new seqnum flags wide"
  have "window_inv ?s []" "ss_do_replay ?s"
    using assms(1) by (simp_all add: window_inv_def next_of_def seq_new_def)
  note * = run_accept_seq [OF this assms(3,4)]
  have "next_of (rev (map rel xs)) \<le> b \<longleftrightarrow> (\<forall>q \<in> set xs. rel q < b)" for xs b
    by (auto simp: next_of_def Suc_le_eq)
  then show ?thesis
    using * by (simp add: Let_def assms(2))
qed

theorem seq_accepts_once_witness:
  "snd (run accept_seq (seq_new 5 GSS_C_REPLAY True) [5, 7, 6, 7]) ! 2 = Inr () \<and>
   snd (run accept_seq (seq_new 5 GSS_C_REPLAY True) [5, 7, 6, 7]) ! 3 = Inl GssSequence"
proof -
  have "\<forall>q \<in> set [5, 7, 6, 7]. seq_rel (seq_new 5 GSS_C_REPLAY True) q \<noteq> seq_mask (seq_new 5 GSS_C_REPLAY True)"
    by (simp add: seq_rel_def seq_mask_def seq_new_def)
  then show ?thesis
    using seq_accepts_once [of GSS_C_REPLAY _ 5 True "[5, 7, 6, 7]" 2, OF _ refl]
      seq_accepts_once [of GSS_C_REPLAY _ 5 True "[5, 7, 6, 7]" 3, OF _ refl]
    by (simp add: seq_rel_def seq_mask_def seq_new_def)
qed

end
