(* ===== verification/Gss.thy ===== *)
theory Gss
  imports GssSeq Tgs
begin

text \<open>
  The per-message tokens of the GSS-API mechanism (RFC 4121): \<open>crates/krb5-gss/src/wrap.rs\<close> (sealed tokens with
  their rotation, integrity-only tokens), \<open>mic.rs\<close>, \<open>oid.rs\<close> (the optional outer wrapping) and the integrity-only
  part of \<open>iov.rs\<close>.  Of a context only the fields these operations use are kept.  A header of 16 octets is a list;
  \<open>put_at\<close> is \<open>copy_from_slice\<close> on a part of it.
\<close>

subsection \<open>The outer wrapping\<close>

abbreviation (input) KRB5_OID :: bytes where
  "KRB5_OID \<equiv> [0x2a, 0x86, 0x48, 0x86, 0xf7, 0x12, 0x01, 0x02, 0x02]"

definition der_len_decode :: "bytes \<Rightarrow> gss_error + (nat \<times> nat)" where
  "der_len_decode b = andthen (ok_or GssTruncated (read_len b)) (\<lambda>(len, hlen). Inr (hlen, len))"

definition gss_wrap_app :: "bytes \<Rightarrow> bytes \<Rightarrow> bytes" where
  "gss_wrap_app tok_id inner = push_tlv 0x60 (push_tlv 0x06 KRB5_OID @ tok_id @ inner)"

definition gss_unwrap_app :: "bytes \<Rightarrow> gss_error + bytes" where
  "gss_unwrap_app token =
     (if length token < 2 \<or> token ! 0 \<noteq> 0x60 then Inl GssTruncated
      else
        andthen (der_len_decode (drop 1 token)) (\<lambda>(hlen, blen).
          let start = 1 + hlen in
          if 2 ^ 64 \<le> start + blen \<or> start + blen \<noteq> length token then Inl GssTruncated
          else
            let body = drop start token in
            if body = [] \<or> hd body \<noteq> 0x06 then Inl GssTruncated
            else
              andthen (der_len_decode (drop 1 body)) (\<lambda>(olen, oid_len).
                if 1 + olen + oid_len \<le> length body then Inr (drop (1 + olen + oid_len) body) else Inl GssTruncated)))"

definition message_token :: "bytes \<Rightarrow> gss_error + bytes" where
  "message_token token = (if token \<noteq> [] \<and> hd token = 0x60 then gss_unwrap_app token else Inr token)"

subsection \<open>Headers\<close>

abbreviation (input) TOK_WRAP :: bytes where "TOK_WRAP \<equiv> [0x05, 0x04]"
abbreviation (input) TOK_MIC :: bytes where "TOK_MIC \<equiv> [0x04, 0x04]"
abbreviation (input) FLAG_SENT_BY_ACCEPTOR :: u8 where "FLAG_SENT_BY_ACCEPTOR \<equiv> 0x01"
abbreviation (input) FLAG_SEALED :: u8 where "FLAG_SEALED \<equiv> 0x02"
abbreviation (input) FLAG_ACCEPTOR_SUBKEY :: u8 where "FLAG_ACCEPTOR_SUBKEY \<equiv> 0x04"

definition put_at :: "bytes \<Rightarrow> nat \<Rightarrow> bytes \<Rightarrow> bytes" where
  "put_at h i bs = take i h @ bs @ drop (i + length bs) h"

definition seal_usage :: "bool \<Rightarrow> u32" where
  "seal_usage initiator = (if initiator then 24 else 22)"

definition sign_usage :: "bool \<Rightarrow> u32" where
  "sign_usage initiator = (if initiator then 25 else 23)"

definition wrap_header :: "bool \<Rightarrow> bool \<Rightarrow> u64 \<Rightarrow> bytes" where
  "wrap_header initiator conf seq =
     (let flags = (if \<not> initiator then FLAG_SENT_BY_ACCEPTOR else 0);
          flags = (if conf then flags OR FLAG_SEALED else flags) in
      TOK_WRAP @ [flags, 0xff, 0, 0, 0, 0] @ be64 seq)"

definition mic_header :: "bool \<Rightarrow> u8 \<Rightarrow> u64 \<Rightarrow> bytes" where
  "mic_header initiator extra seq =
     TOK_MIC @ [extra OR (if initiator then 0 else FLAG_SENT_BY_ACCEPTOR), 0xff, 0xff, 0xff, 0xff, 0xff] @ be64 seq"

definition rfc4121_ckhdr :: "bytes \<Rightarrow> u8 \<Rightarrow> u64 \<Rightarrow> bool \<Rightarrow> bytes" where
  "rfc4121_ckhdr toktype flags seq mic =
     toktype @ [flags, 0xFF] @ (if mic then be32 0xFFFFFFFF else [0, 0, 0, 0]) @ be64 seq"

definition check_direction :: "u8 \<Rightarrow> bool \<Rightarrow> gss_error + unit" where
  "check_direction flags initiator =
     (if (flags AND FLAG_SENT_BY_ACCEPTOR \<noteq> 0) = initiator then Inr () else Inl GssIntegrity)"

definition verify_enc_header :: "bytes \<Rightarrow> u8 \<Rightarrow> nat \<Rightarrow> u64 \<Rightarrow> bool" where
  "verify_enc_header plain flags ec seq =
     (if length plain < 16 + ec then False
      else
        let h = drop (length plain - 16) plain in
        h ! 0 = TOK_WRAP ! 0 \<and> h ! 1 = TOK_WRAP ! 1 \<and> h ! 2 = flags \<and> h ! 3 = 0xFF \<and>
        be_val (take 2 (drop 4 h)) = ec \<and> (of_nat (be_val (drop 8 h)) :: u64) = seq)"

subsection \<open>Rotation\<close>

definition rotate_rrc :: "bytes \<Rightarrow> u16 \<Rightarrow> bytes" where
  "rotate_rrc cipher rrc =
     (if cipher = [] then cipher
      else
        let n = unat rrc mod length cipher in
        if n = 0 then cipher
        else let split = length cipher - n in drop split cipher @ take split cipher)"

definition apply_send_rrc :: "bytes \<Rightarrow> u16 \<Rightarrow> gss_error + bytes" where
  "apply_send_rrc tok rrc =
     (if length tok < 16 then Inl GssTruncated
      else
        let tok = put_at tok 6 (be16 rrc); clen = length tok - 16 in
        if clen = 0 then Inr tok
        else
          let n = unat rrc mod clen in
          if n = 0 then Inr tok
          else let cipher = drop 16 tok in Inr (take 16 tok @ drop n cipher @ take n cipher))"

subsection \<open>Tokens\<close>

record gss_context =
  gc_session :: protocol_key
  gc_acceptor_subkey :: "protocol_key option"
  gc_send_seq :: u64
  gc_recv :: seq_state
  gc_initiator :: bool

definition gss_crypto :: "crypto_error \<Rightarrow> gss_error" where
  "gss_crypto e = GssInner (crypto_error_str e)"

definition map_gss_cksum :: "crypto_error \<Rightarrow> gss_error" where
  "map_gss_cksum e = (case e of BadChecksumSize \<Rightarrow> GssTruncated | _ \<Rightarrow> GssIntegrity)"

definition gss_recv_key :: "gss_context \<Rightarrow> u8 \<Rightarrow> protocol_key" where
  "gss_recv_key c flags =
     (case gc_acceptor_subkey c of
        Some k \<Rightarrow> if flags AND FLAG_ACCEPTOR_SUBKEY \<noteq> 0 then k else gc_session c
      | None \<Rightarrow> gc_session c)"

definition gss_send_key :: "gss_context \<Rightarrow> protocol_key \<times> u8" where
  "gss_send_key c =
     (case gc_acceptor_subkey c of Some k \<Rightarrow> (k, FLAG_ACCEPTOR_SUBKEY) | None \<Rightarrow> (gc_session c, 0))"

definition or_flags :: "bytes \<Rightarrow> u8 \<Rightarrow> bytes" where
  "or_flags header extra = header[2 := header ! 2 OR extra]"

definition wrap_conf_inner ::
  "prims \<Rightarrow> (nat \<Rightarrow> bytes option) \<Rightarrow> bytes \<Rightarrow> u16 \<Rightarrow> u16 \<Rightarrow> gss_context \<Rightarrow> (gss_error + bytes) \<times> gss_context" where
  "wrap_conf_inner P rng plaintext ec rrc c =
     (let usage = seal_usage (gc_initiator c);
          (key, extra) = gss_send_key c;
          header = or_flags (wrap_header (gc_initiator c) True (gc_send_seq c)) extra;
          header = put_at header 4 (be16 ec);
          to_enc = plaintext @ replicate (unat ec) 0xFF @ header in
      case map_err gss_crypto (encrypt P rng key usage to_enc) of
        Inl e \<Rightarrow> (Inl e, c)
      | Inr cipher \<Rightarrow> (apply_send_rrc (header @ cipher) rrc, c\<lparr>gc_send_seq := gc_send_seq c + 1\<rparr>))"

definition wrap_integ :: "prims \<Rightarrow> bytes \<Rightarrow> gss_context \<Rightarrow> (gss_error + bytes) \<times> gss_context" where
  "wrap_integ P plaintext c =
     (let usage = seal_usage (gc_initiator c);
          (key, extra) = gss_send_key c;
          header = or_flags (wrap_header (gc_initiator c) False (gc_send_seq c)) extra in
      case map_err gss_crypto (checksum_inner P key usage (plaintext @ header)) of
        Inl e \<Rightarrow> (Inl e, c)
      | Inr mac \<Rightarrow>
          if length mac \<ge> 2 ^ 16 then (Inl GssTruncated, c)
          else (Inr (put_at header 4 (be16 (of_nat (length mac))) @ plaintext @ mac), c\<lparr>gc_send_seq := gc_send_seq c + 1\<rparr>))"

definition gss_wrap :: "prims \<Rightarrow> (nat \<Rightarrow> bytes option) \<Rightarrow> bytes \<Rightarrow> gss_context \<Rightarrow> (gss_error + bytes) \<times> gss_context" where
  "gss_wrap P rng plaintext c = wrap_conf_inner P rng plaintext 0 0 c"

definition wrap_with_rrc ::
  "prims \<Rightarrow> (nat \<Rightarrow> bytes option) \<Rightarrow> bytes \<Rightarrow> u16 \<Rightarrow> gss_context \<Rightarrow> (gss_error + bytes) \<times> gss_context" where
  "wrap_with_rrc P rng plaintext rrc c = wrap_conf_inner P rng plaintext 0 rrc c"

text \<open>The protected content of a token: its data if the checksum or the decryption and the inner header agree.\<close>

definition open_payload :: "prims \<Rightarrow> protocol_key \<Rightarrow> u32 \<Rightarrow> u8 \<Rightarrow> nat \<Rightarrow> u64 \<Rightarrow> bytes \<Rightarrow> gss_error + bytes" where
  "open_payload P key usage flags ec seq payload =
     (if flags AND FLAG_SEALED = 0 then
        let ctype = checksum_type (pk_etype key) in
        andthen (ok_or GssTruncated (checksum_output_size ctype)) (\<lambda>cksumsize.
          if cksumsize > length payload \<or> ec \<noteq> cksumsize then Inl GssTruncated
          else
            let split = length payload - cksumsize; data = take split payload; mac = drop split payload in
            andthen (map_err map_gss_cksum
                       (verify_checksum_type P key usage (data @ rfc4121_ckhdr TOK_WRAP flags seq False) ctype mac))
              (\<lambda>_. Inr data))
      else
        andthen (map_err (\<lambda>e. if e = Integrity then GssIntegrity else gss_crypto e) (decrypt P key usage payload)) (\<lambda>plain.
          if \<not> verify_enc_header plain flags ec seq then Inl GssTruncated
          else Inr (take (length plain - ec - 16) plain)))"

definition unwrap_v3 :: "prims \<Rightarrow> bytes \<Rightarrow> gss_context \<Rightarrow> (gss_error + (bytes \<times> bool)) \<times> gss_context" where
  "unwrap_v3 P token c =
     (case andthen (message_token token) (\<lambda>inner.
           if length inner < 16 \<or> take 2 inner \<noteq> TOK_WRAP then Inl GssTruncated
           else
             let header = take 16 inner; flags = header ! 2 in
             if header ! 3 \<noteq> 0xFF then Inl GssTruncated
             else
               andthen (check_direction flags (gc_initiator c)) (\<lambda>_.
               let ec = be_val (take 2 (drop 4 header));
                   rrc = of_nat (be_val (take 2 (drop 6 header)));
                   seq = of_nat (be_val (drop 8 header));
                   payload = rotate_rrc (drop 16 inner) rrc;
                   usage = seal_usage (\<not> gc_initiator c);
                   key = gss_recv_key c flags in
               andthen (open_payload P key usage flags ec seq payload) (\<lambda>msg.
                 Inr (msg, flags AND FLAG_SEALED \<noteq> 0, seq)))) of
        Inl e \<Rightarrow> (Inl e, c)
      | Inr (msg, conf, seq) \<Rightarrow>
          let (s, r) = accept_seq (gc_recv c) seq in
          (andthen r (\<lambda>_. Inr (msg, conf)), c\<lparr>gc_recv := s\<rparr>))"

definition gss_unwrap :: "prims \<Rightarrow> bytes \<Rightarrow> gss_context \<Rightarrow> (gss_error + bytes) \<times> gss_context" where
  "gss_unwrap P token c = (let (r, c) = unwrap_v3 P token c in (andthen r (\<lambda>(msg, _). Inr msg), c))"

definition get_mic :: "prims \<Rightarrow> bytes \<Rightarrow> gss_context \<Rightarrow> (gss_error + bytes) \<times> gss_context" where
  "get_mic P data c =
     (let usage = sign_usage (gc_initiator c);
          (key, extra) = gss_send_key c;
          header = mic_header (gc_initiator c) extra (gc_send_seq c) in
      case map_err gss_crypto (checksum_inner P key usage (data @ header)) of
        Inl e \<Rightarrow> (Inl e, c)
      | Inr mic \<Rightarrow> (Inr (header @ mic), c\<lparr>gc_send_seq := gc_send_seq c + 1\<rparr>))"

definition verify_mic :: "prims \<Rightarrow> bytes \<Rightarrow> bytes \<Rightarrow> gss_context \<Rightarrow> (gss_error + unit) \<times> gss_context" where
  "verify_mic P data token c =
     (case andthen (message_token token) (\<lambda>inner.
           if length inner < 16 \<or> take 2 inner \<noteq> TOK_MIC then Inl GssTruncated
           else
             let seq = of_nat (be_val (take 8 (drop 8 inner))) in
             if inner ! 3 \<noteq> 0xFF \<or> take 4 (drop 4 inner) \<noteq> replicate 4 0xFF then Inl GssTruncated
             else
               andthen (check_direction (inner ! 2) (gc_initiator c)) (\<lambda>_.
               let usage = sign_usage (\<not> gc_initiator c);
                   key = gss_recv_key c (inner ! 2);
                   ckhdr = rfc4121_ckhdr TOK_MIC (inner ! 2) seq True in
               andthen (map_err map_gss_cksum
                          (verify_checksum_type P key usage (data @ ckhdr) (checksum_type (pk_etype key)) (drop 16 inner)))
                 (\<lambda>_. Inr seq))) of
        Inl e \<Rightarrow> (Inl e, c)
      | Inr seq \<Rightarrow> let (s, r) = accept_seq (gc_recv c) seq in (r, c\<lparr>gc_recv := s\<rparr>))"

subsection \<open>Headers and rotations read back\<close>

lemma length_wrap_header [simp]: "length (wrap_header i conf seq) = 16"
  by (simp add: wrap_header_def Let_def)

definition wrap_flags :: "bool \<Rightarrow> bool \<Rightarrow> u8 \<Rightarrow> u8" where
  "wrap_flags initiator conf extra =
     ((if \<not> initiator then FLAG_SENT_BY_ACCEPTOR else 0) OR (if conf then FLAG_SEALED else 0)) OR extra"

lemma or_flags_wrap: "or_flags (wrap_header i conf seq) extra = TOK_WRAP @ [wrap_flags i conf extra, 0xff, 0, 0, 0, 0] @ be64 seq"
  by (simp add: or_flags_def wrap_header_def wrap_flags_def Let_def)

lemma list_of_2: "length xs = 2 \<Longrightarrow> \<exists>a b. xs = [a, b]"
  by (auto simp: numeral_2_eq_2 length_Suc_conv)

lemma put_ec: "length E = 2 \<Longrightarrow> put_at (TOK_WRAP @ [fl, 0xff, 0, 0, 0, 0] @ S) 4 E = TOK_WRAP @ [fl, 0xff] @ E @ [0, 0] @ S"
  by (auto simp: put_at_def dest!: list_of_2)

lemma put_rrc:
  "length E = 2 \<Longrightarrow> length R = 2 \<Longrightarrow>
   put_at (TOK_WRAP @ [fl, 0xff] @ E @ [0, 0] @ S) 6 R = TOK_WRAP @ [fl, 0xff] @ E @ R @ S"
  by (auto simp: put_at_def dest!: list_of_2)

lemma rotate_back:
  assumes "n = unat rrc mod length c" and "c \<noteq> []"
  shows "rotate_rrc (drop n c @ take n c) rrc = c"
proof -
  have "n < length c"
    using assms by simp
  then show ?thesis
    using assms by (cases "n = 0") (auto simp: rotate_rrc_def Let_def)
qed

lemma apply_send_rrc_back:
  assumes "length h = 16"
  shows "\<exists>c'. apply_send_rrc (h @ c) rrc = Inr (put_at h 6 (be16 rrc) @ c') \<and> rotate_rrc c' rrc = c"
proof -
  have p: "put_at (h @ c) 6 (be16 rrc) = put_at h 6 (be16 rrc) @ c" "length (put_at h 6 (be16 rrc)) = 16"
    using assms by (simp_all add: put_at_def)
  define n where "n = unat rrc mod length c"
  consider (nil) "c = []" | (zero) "c \<noteq> []" "n = 0" | (rot) "c \<noteq> []" "n \<noteq> 0"
    by blast
  then show ?thesis
  proof cases
    case nil
    then show ?thesis
      using assms p by (intro exI [of _ c]) (simp add: apply_send_rrc_def Let_def rotate_rrc_def)
  next
    case zero
    then show ?thesis
      using assms p rotate_back [OF n_def zero(1)]
      by (intro exI [of _ c]) (simp add: apply_send_rrc_def Let_def n_def [symmetric])
  next
    case rot
    then show ?thesis
      using assms p rotate_back [OF n_def rot(1)]
      by (intro exI [of _ "drop n c @ take n c"]) (simp add: apply_send_rrc_def Let_def n_def [symmetric])
  qed
qed

lemma unwrap_token:
  assumes "length E = 2" and "length R = 2"
  shows "unwrap_v3 P (TOK_WRAP @ [fl, 0xff] @ E @ R @ be64 seq @ payload) c =
    (case andthen (check_direction fl (gc_initiator c)) (\<lambda>_.
       open_payload P (gss_recv_key c fl) (seal_usage (\<not> gc_initiator c)) fl (be_val E) seq
         (rotate_rrc payload (of_nat (be_val R)))) of
       Inl e \<Rightarrow> (Inl e, c)
     | Inr msg \<Rightarrow> let (s, r) = accept_seq (gc_recv c) seq in
         (andthen r (\<lambda>_. Inr (msg, fl AND FLAG_SEALED \<noteq> 0)), c\<lparr>gc_recv := s\<rparr>))"
proof -
  obtain e1 e2 r1 r2 where "E = [e1, e2]" "R = [r1, r2]"
    using assms by (auto dest!: list_of_2)
  then show ?thesis
    by (simp add: unwrap_v3_def message_token_def andthen_def split: sum.split)
qed

subsection \<open>Delivery\<close>

definition gss_peers :: "gss_context \<Rightarrow> gss_context \<Rightarrow> bool" where
  "gss_peers a b \<longleftrightarrow> gc_session a = gc_session b \<and> gc_acceptor_subkey a = gc_acceptor_subkey b \<and>
     gc_initiator b = (\<not> gc_initiator a)"

lemma send_key_cases: "snd (gss_send_key a) = 0 \<or> snd (gss_send_key a) = FLAG_ACCEPTOR_SUBKEY"
  by (simp add: gss_send_key_def split: option.split)

lemma peer_flags:
  assumes "gss_peers a b" and "fl = wrap_flags (gc_initiator a) conf (snd (gss_send_key a))"
  shows "check_direction fl (gc_initiator b) = Inr ()" "gss_recv_key b fl = fst (gss_send_key a)"
    "fl AND FLAG_SEALED \<noteq> 0 \<longleftrightarrow> conf"
  using assms send_key_cases [of a]
  by (auto simp: wrap_flags_def check_direction_def gss_peers_def gss_recv_key_def gss_send_key_def split: option.splits)

lemma open_sealed:
  assumes "decrypt P key usage payload = Inr (pt @ replicate (unat ec) 0xFF @ TOK_WRAP @ [fl, 0xff] @ be16 ec @ [0, 0] @ be64 seq)"
    and "fl AND FLAG_SEALED \<noteq> 0"
  shows "open_payload P key usage fl (be_val (be16 ec)) seq payload = Inr pt"
proof -
  obtain e1 e2 where e: "be16 ec = [e1, e2]"
    using list_of_2 [of "be16 ec"] by auto
  have ec: "be_val (be16 ec) = unat ec"
    using unat_less_pow [of ec] by (simp add: be_val_be_bytes_lt)
  have "verify_enc_header (pt @ replicate (unat ec) 0xFF @ TOK_WRAP @ [fl, 0xff] @ be16 ec @ [0, 0] @ be64 seq) fl (unat ec) seq"
    using ec unfolding e by (simp add: verify_enc_header_def Let_def nth_append)
  with assms show ?thesis
    unfolding ec by (simp add: open_payload_def)
qed

lemma wrap_conf_token:
  assumes "encrypt P rng (fst (gss_send_key a)) (seal_usage (gc_initiator a))
      (pt @ replicate (unat ec) 0xFF @ TOK_WRAP @ [wrap_flags (gc_initiator a) True (snd (gss_send_key a)), 0xff] @ be16 ec @ [0, 0] @
       be64 (gc_send_seq a)) = Inr ct"
  shows "\<exists>c'. wrap_conf_inner P rng pt ec rrc a =
      (Inr (TOK_WRAP @ [wrap_flags (gc_initiator a) True (snd (gss_send_key a)), 0xff] @ be16 ec @ be16 rrc @ be64 (gc_send_seq a) @ c'),
       a\<lparr>gc_send_seq := gc_send_seq a + 1\<rparr>) \<and> rotate_rrc c' rrc = ct"
proof -
  let ?fl = "wrap_flags (gc_initiator a) True (snd (gss_send_key a))"
  let ?h = "TOK_WRAP @ [?fl, 0xff] @ be16 ec @ [0, 0] @ be64 (gc_send_seq a)"
  have h: "put_at (or_flags (wrap_header (gc_initiator a) True (gc_send_seq a)) (snd (gss_send_key a))) 4 (be16 ec) = ?h"
    unfolding or_flags_wrap by (rule put_ec) simp
  obtain c' where c': "apply_send_rrc (?h @ ct) rrc = Inr (put_at ?h 6 (be16 rrc) @ c')" "rotate_rrc c' rrc = ct"
    using apply_send_rrc_back [of ?h ct rrc] by auto
  have "put_at ?h 6 (be16 rrc) = TOK_WRAP @ [?fl, 0xff] @ be16 ec @ be16 rrc @ be64 (gc_send_seq a)"
    by (rule put_rrc) simp_all
  then show ?thesis
    using assms c' unfolding wrap_conf_inner_def Let_def split_beta h
    by (intro exI [of _ c']) (simp only: map_err_simps sum.case append.assoc)
qed

lemma sealed_delivered:
  assumes "prims_ok P" and "key_ok (fst (gss_send_key a))" and "rng_ok rng" and "gss_peers a b"
    and "pk_etype (fst (gss_send_key a)) \<noteq> Des3CbcSha1" and "rng 16 \<noteq> None"
    and "accept_seq (gc_recv b) (gc_send_seq a) = (s, Inr ())"
  shows "\<exists>tok. wrap_conf_inner P rng pt ec rrc a = (Inr tok, a\<lparr>gc_send_seq := gc_send_seq a + 1\<rparr>) \<and>
    unwrap_v3 P tok b = (Inr (pt, True), b\<lparr>gc_recv := s\<rparr>)"
proof -
  let ?fl = "wrap_flags (gc_initiator a) True (snd (gss_send_key a))"
  let ?to_enc = "pt @ replicate (unat ec) 0xFF @ TOK_WRAP @ [?fl, 0xff] @ be16 ec @ [0, 0] @ be64 (gc_send_seq a)"
  note fl = peer_flags [OF assms(4) refl, of True]
  obtain ct where e: "encrypt P rng (fst (gss_send_key a)) (seal_usage (gc_initiator a)) ?to_enc = Inr ct"
    using encrypt_then_decrypt [OF assms(1-3), of "seal_usage (gc_initiator a)" ?to_enc] assms(5,6) by (auto simp: is_ok_iff)
  have d: "decrypt P (fst (gss_send_key a)) (seal_usage (gc_initiator a)) ct = Inr ?to_enc"
    using encrypt_decrypt [OF assms(1-3) e] assms(5) by simp
  obtain c' where w: "wrap_conf_inner P rng pt ec rrc a =
      (Inr (TOK_WRAP @ [?fl, 0xff] @ be16 ec @ be16 rrc @ be64 (gc_send_seq a) @ c'), a\<lparr>gc_send_seq := gc_send_seq a + 1\<rparr>)"
    "rotate_rrc c' rrc = ct"
    using wrap_conf_token [OF e] by blast
  have "open_payload P (gss_recv_key b ?fl) (seal_usage (\<not> gc_initiator b)) ?fl (be_val (be16 ec)) (gc_send_seq a)
      (rotate_rrc c' (of_nat (be_val (be16 rrc)))) = Inr pt"
    using open_sealed [OF d] fl assms(4) by (simp add: w(2) gss_peers_def)
  then have "unwrap_v3 P (TOK_WRAP @ [?fl, 0xff] @ be16 ec @ be16 rrc @ be64 (gc_send_seq a) @ c') b = (Inr (pt, True), b\<lparr>gc_recv := s\<rparr>)"
    using fl assms(7) by (subst unwrap_token) simp_all
  with w(1) show ?thesis
    by blast
qed

lemma open_integ:
  assumes "prims_ok P" and "key_ok key" and "fl AND FLAG_SEALED = 0"
    and "checksum_inner P key usage (pt @ TOK_WRAP @ [fl, 0xff, 0, 0, 0, 0] @ be64 seq) = Inr mac"
  shows "open_payload P key usage fl (length mac) seq (pt @ mac) = Inr pt"
  using assms(3,4) checksum_inner_size [OF assms(1,2,4)]
    verify_own_checksum [OF assms(1,2), of "checksum_type (pk_etype key)" usage "pt @ TOK_WRAP @ [fl, 0xff, 0, 0, 0, 0] @ be64 seq" mac]
  by (simp add: open_payload_def Let_def ok_or_def rfc4121_ckhdr_def)

lemma checksum_size_small: "checksum_output_size t = Some n \<Longrightarrow> n < 2 ^ 16"
  by (auto simp: checksum_output_size_def split: if_splits)

lemma integ_delivered:
  assumes "prims_ok P" and "key_ok (fst (gss_send_key a))" and "gss_peers a b"
    and "accept_seq (gc_recv b) (gc_send_seq a) = (s, Inr ())" and "wrap_integ P pt a = (Inr tok, a')"
  shows "unwrap_v3 P tok b = (Inr (pt, False), b\<lparr>gc_recv := s\<rparr>)"
proof -
  let ?fl = "wrap_flags (gc_initiator a) False (snd (gss_send_key a))"
  note fl = peer_flags [OF assms(3) refl, of False]
  obtain mac where m: "checksum_inner P (fst (gss_send_key a)) (seal_usage (gc_initiator a))
      (pt @ TOK_WRAP @ [?fl, 0xff, 0, 0, 0, 0] @ be64 (gc_send_seq a)) = Inr mac" "length mac < 2 ^ 16"
    "tok = put_at (TOK_WRAP @ [?fl, 0xff, 0, 0, 0, 0] @ be64 (gc_send_seq a)) 4 (be16 (of_nat (length mac))) @ pt @ mac"
    using assms(5) unfolding wrap_integ_def Let_def split_beta or_flags_wrap by (auto split: sum.splits if_splits)
  have tok: "tok = TOK_WRAP @ [?fl, 0xff] @ be16 (of_nat (length mac)) @ [0, 0] @ be64 (gc_send_seq a) @ pt @ mac"
    unfolding m(3) by (subst put_ec) simp_all
  have ec: "be_val (be16 (of_nat (length mac))) = length mac"
    using m(2) by (simp add: be_val_be_bytes_lt unat_of_nat)
  have "open_payload P (fst (gss_send_key a)) (seal_usage (gc_initiator a)) ?fl (length mac) (gc_send_seq a) (pt @ mac) = Inr pt"
    using open_integ [OF assms(1,2) _ m(1)] fl(3) by simp
  moreover have "rotate_rrc (pt @ mac) (of_nat (be_val [0, 0])) = pt @ mac"
    by (simp add: rotate_rrc_def be_val_def)
  moreover have "gc_initiator a = (\<not> gc_initiator b)"
    using assms(3) by (simp add: gss_peers_def)
  ultimately show ?thesis
    unfolding tok using fl assms(4) by (subst unwrap_token) (simp_all add: ec)
qed

subsection \<open>Message integrity codes\<close>

lemma four: "4 = Suc (Suc (Suc (Suc 0)))"
  by simp

lemma replicate_4: "replicate 4 x = [x, x, x, x]"
  unfolding four by simp

lemma be32_fill: "be32 0xFFFFFFFF = [0xff, 0xff, 0xff, 0xff]"
proof -
  have "be_bytes (Suc (Suc (Suc (Suc 0)))) 4294967295 = [0xff, 0xff, 0xff, 0xff]"
    by simp
  moreover have "unat (0xFFFFFFFF :: u32) = 4294967295"
    by simp
  ultimately show ?thesis
    by (simp only: four)
qed

lemma mic_header_split:
  assumes "16 \<le> length inner" and "take 2 inner = TOK_MIC" and "inner ! 3 = 0xFF" and "take 4 (drop 4 inner) = replicate 4 0xFF"
  shows "inner = TOK_MIC @ [inner ! 2, 0xff, 0xff, 0xff, 0xff, 0xff] @ be64 (of_nat (be_val (take 8 (drop 8 inner)))) @ drop 16 inner"
proof -
  define x where "x = take 8 (drop 8 inner)"
  have "length x = 8"
    using assms(1) by (simp add: x_def)
  then have 8: "be64 (of_nat (be_val x)) = x"
    using be_val_bound [of x] be_bytes_be_val [of x] by (simp add: unat_of_nat)
  have "inner = take 2 inner @ [inner ! 2, inner ! 3] @ take 4 (drop 4 inner) @ take 8 (drop 8 inner) @ drop 16 inner"
  proof -
    have "drop 2 inner = inner ! 2 # inner ! 3 # drop 4 inner"
      using assms(1) Cons_nth_drop_Suc [of 2 inner] Cons_nth_drop_Suc [of 3 inner] by simp
    moreover have "drop 4 inner = take 4 (drop 4 inner) @ take 8 (drop 8 inner) @ drop 16 inner"
      using append_take_drop_id [of 4 "drop 4 inner"] append_take_drop_id [of 8 "drop 8 inner"] by simp
    ultimately show ?thesis
      using append_take_drop_id [of 2 inner] by simp
  qed
  then show ?thesis
    unfolding x_def [symmetric] 8 assms(2-4) replicate_4 by simp
qed

lemma verify_mic_token:
  assumes "prims_ok P" and "key_ok (gss_recv_key c fl)"
    and "message_token tok = Inr (TOK_MIC @ [fl, 0xff, 0xff, 0xff, 0xff, 0xff] @ be64 seq @ mic)"
  shows "fst (verify_mic P data tok c) = Inr () \<longleftrightarrow>
    (fl AND FLAG_SENT_BY_ACCEPTOR \<noteq> 0) = gc_initiator c \<and>
    checksum_inner P (gss_recv_key c fl) (sign_usage (\<not> gc_initiator c))
      (data @ TOK_MIC @ [fl, 0xff, 0xff, 0xff, 0xff, 0xff] @ be64 seq) = Inr mic \<and>
    snd (accept_seq (gc_recv c) seq) = Inr ()"
proof -
  let ?key = "gss_recv_key c fl" and ?hdr = "TOK_MIC @ [fl, 0xff, 0xff, 0xff, 0xff, 0xff] @ be64 seq"
  have ck: "rfc4121_ckhdr TOK_MIC fl seq True = ?hdr"
    unfolding rfc4121_ckhdr_def be32_fill by simp
  define inner where "inner = ?hdr @ mic"
  have inner: "\<not> length inner < 16" "take 2 inner = TOK_MIC" "inner ! 2 = fl" "inner ! 3 = 0xff" "drop 16 inner = mic"
    "take 8 (drop 8 inner) = be64 seq"
    by (simp_all add: inner_def)
  have mt: "message_token tok = Inr inner"
    using assms(3) by (simp add: inner_def)
  have fill: "take 4 (drop 4 inner) = replicate 4 0xff"
    by (simp add: inner_def replicate_4)
  have v: "verify_checksum_type P ?key u (data @ ?hdr) (checksum_type (pk_etype ?key)) mic = Inr () \<longleftrightarrow>
      checksum_inner P ?key u (data @ ?hdr) = Inr mic" for u
    using verify_own_checksum [OF assms(1,2)] by simp
  have "verify_mic P data tok c =
      (case andthen (check_direction fl (gc_initiator c)) (\<lambda>_.
         andthen (map_err map_gss_cksum (verify_checksum_type P ?key (sign_usage (\<not> gc_initiator c)) (data @ ?hdr)
           (checksum_type (pk_etype ?key)) mic)) (\<lambda>_. Inr seq)) of
         Inl e \<Rightarrow> (Inl e, c)
       | Inr seq \<Rightarrow> let (s, r) = accept_seq (gc_recv c) seq in (r, c\<lparr>gc_recv := s\<rparr>))"
    unfolding verify_mic_def mt by (simp only: andthen_simps inner fill ck of_be64 Let_def if_False simp_thms)
  then show ?thesis
    using v [of "sign_usage (\<not> gc_initiator c)"]
    by (auto simp: check_direction_def split_beta Let_def andthen_def map_err_def split: sum.splits if_splits)
qed

lemma mic_flags:
  assumes "gss_peers a b" and "fl = snd (gss_send_key a) OR (if gc_initiator a then 0 else FLAG_SENT_BY_ACCEPTOR)"
  shows "(fl AND FLAG_SENT_BY_ACCEPTOR \<noteq> 0) = gc_initiator b" "gss_recv_key b fl = fst (gss_send_key a)"
  using assms by (auto simp: gss_peers_def gss_recv_key_def gss_send_key_def split: option.splits)

lemma mic_delivered:
  assumes "prims_ok P" and "key_ok (fst (gss_send_key a))" and "gss_peers a b"
    and "snd (accept_seq (gc_recv b) (gc_send_seq a)) = Inr ()" and "get_mic P data a = (Inr tok, a')"
  shows "fst (verify_mic P data tok b) = Inr ()"
proof -
  define fl where "fl = snd (gss_send_key a) OR (if gc_initiator a then 0 else FLAG_SENT_BY_ACCEPTOR)"
  note fl = mic_flags [OF assms(3) fl_def]
  obtain mic where m: "checksum_inner P (fst (gss_send_key a)) (sign_usage (gc_initiator a))
      (data @ TOK_MIC @ [fl, 0xff, 0xff, 0xff, 0xff, 0xff] @ be64 (gc_send_seq a)) = Inr mic"
    "tok = TOK_MIC @ [fl, 0xff, 0xff, 0xff, 0xff, 0xff] @ be64 (gc_send_seq a) @ mic"
    using assms(5) unfolding get_mic_def mic_header_def fl_def [symmetric] Let_def split_beta by (auto split: sum.splits)
  have "message_token tok = Inr (TOK_MIC @ [fl, 0xff, 0xff, 0xff, 0xff, 0xff] @ be64 (gc_send_seq a) @ mic)"
    by (simp add: message_token_def m(2))
  moreover have "gc_initiator a = (\<not> gc_initiator b)"
    using assms(3) by (simp add: gss_peers_def)
  ultimately show ?thesis
    using verify_mic_token [OF assms(1), of b fl tok "gc_send_seq a" mic data] assms(2,4) fl m(1) by simp
qed

subsection \<open>Properties\<close>

text \<open>
  C14: Tokens are delivered.  Between the contexts of an initiator and an acceptor with the same keys, for a sequence
  number that the receiver's window accepts: a sealed token, with any extra count and any rotation, is made and unwraps to
  its plaintext, marked confidential; an integrity-only token unwraps to its plaintext, not marked confidential; and a
  message integrity code is verified for its message.  The receiver's state changes only in its window.  Triple DES,
  whose padding hides the inner header, is left out.
\<close>
theorem gss_delivered:
  assumes "prims_ok P" and "key_ok (fst (gss_send_key a))" and "rng_ok rng" and "gss_peers a b"
    and "pk_etype (fst (gss_send_key a)) \<noteq> Des3CbcSha1" and "rng 16 \<noteq> None"
    and "accept_seq (gc_recv b) (gc_send_seq a) = (s, Inr ())"
  shows "(\<exists>tok. wrap_conf_inner P rng pt ec rrc a = (Inr tok, a\<lparr>gc_send_seq := gc_send_seq a + 1\<rparr>) \<and>
       unwrap_v3 P tok b = (Inr (pt, True), b\<lparr>gc_recv := s\<rparr>)) \<and>
    (\<forall>tok a'. wrap_integ P pt a = (Inr tok, a') \<longrightarrow> unwrap_v3 P tok b = (Inr (pt, False), b\<lparr>gc_recv := s\<rparr>)) \<and>
    (\<forall>tok a'. get_mic P pt a = (Inr tok, a') \<longrightarrow> fst (verify_mic P pt tok b) = Inr ())"
  using sealed_delivered [OF assms] integ_delivered [OF assms(1,2,4,7)] mic_delivered [OF assms(1,2,4)] assms(7)
  by auto

definition example_gss :: "bool \<Rightarrow> gss_context" where
  "example_gss initiator =
     \<lparr>gc_session = example_rc4_key, gc_acceptor_subkey = None, gc_send_seq = 9, gc_recv = seq_new 9 GSS_C_REPLAY True,
      gc_initiator = initiator\<rparr>"

theorem gss_delivered_witness:
  "\<exists>tok a' b'. wrap_conf_inner example_prims (\<lambda>n. Some (replicate n 0)) [1, 2, 3] 0 2 (example_gss True) = (Inr tok, a') \<and>
     unwrap_v3 example_prims tok (example_gss False) = (Inr ([1, 2, 3], True), b')"
proof -
  have "snd (accept_seq (seq_new 9 GSS_C_REPLAY True) 9) = Inr ()"
    by (simp add: accept_seq_def seq_check_def seq_new_def seq_rel_def seq_mask_def Let_def)
  then obtain s where s: "accept_seq (gc_recv (example_gss False)) (gc_send_seq (example_gss True)) = (s, Inr ())"
    by (cases "accept_seq (seq_new 9 GSS_C_REPLAY True) 9") (simp add: example_gss_def)
  have "gss_peers (example_gss True) (example_gss False)" "gss_send_key (example_gss True) = (example_rc4_key, 0)"
    by (simp_all add: gss_peers_def example_gss_def gss_send_key_def)
  then show ?thesis
    using gss_delivered [of example_prims "example_gss True" "\<lambda>n. Some (replicate n 0)" "example_gss False" s "[1, 2, 3]" 0 2]
      example_prims_ok example_rc4_key_ok(1) s by (auto simp: rng_ok_def example_rc4_key_def)
qed

text \<open>
  C15: A message integrity code is verified exactly by itself.  \<open>verify_mic\<close> accepts a token for a message if and only
  if the token, outer wrapping removed, is a header sent in the right direction, with its fill octets and a sequence number
  that the window accepts, followed by the checksum that the key the flags select gives for the message and this
  header.
\<close>
theorem gss_mic_exact:
  assumes "prims_ok P" and "\<And>fl. key_ok (gss_recv_key c fl)"
  shows "fst (verify_mic P data tok c) = Inr () \<longleftrightarrow>
    (\<exists>fl seq mic. message_token tok = Inr (TOK_MIC @ [fl, 0xff, 0xff, 0xff, 0xff, 0xff] @ be64 seq @ mic) \<and>
      (fl AND FLAG_SENT_BY_ACCEPTOR \<noteq> 0) = gc_initiator c \<and>
      checksum_inner P (gss_recv_key c fl) (sign_usage (\<not> gc_initiator c))
        (data @ TOK_MIC @ [fl, 0xff, 0xff, 0xff, 0xff, 0xff] @ be64 seq) = Inr mic \<and>
      snd (accept_seq (gc_recv c) seq) = Inr ())"
proof -
  have "\<exists>fl seq mic. message_token tok = Inr (TOK_MIC @ [fl, 0xff, 0xff, 0xff, 0xff, 0xff] @ be64 seq @ mic)"
    if acc: "fst (verify_mic P data tok c) = Inr ()"
  proof -
    obtain inner where "message_token tok = Inr inner" "16 \<le> length inner" "take 2 inner = TOK_MIC" "inner ! 3 = 0xFF"
      "take 4 (drop 4 inner) = replicate 4 0xFF"
      using acc unfolding verify_mic_def
      by (cases "message_token tok") (auto simp: Let_def split: sum.splits if_splits)
    then show ?thesis
      using mic_header_split [of inner] by metis
  qed
  then show ?thesis
    using verify_mic_token [OF assms] by blast
qed

theorem gss_mic_exact_witness:
  "fst (verify_mic example_prims [1, 2] (TOK_MIC @ [0, 0xff, 0xff, 0xff, 0xff, 0xff] @ be64 9 @ replicate 16 7) (example_gss False)) = Inr ()"
proof -
  have k: "key_ok (gss_recv_key (example_gss False) fl)" for fl
    using example_rc4_key_ok(1) by (simp add: gss_recv_key_def example_gss_def)
  have "message_token (TOK_MIC @ [0, 0xff, 0xff, 0xff, 0xff, 0xff] @ be64 9 @ replicate 16 7) =
      Inr (TOK_MIC @ [0, 0xff, 0xff, 0xff, 0xff, 0xff] @ be64 9 @ replicate 16 7)"
    by (simp add: message_token_def)
  moreover have "checksum_inner example_prims (gss_recv_key (example_gss False) 0) (sign_usage True)
      ([1, 2] @ TOK_MIC @ [0, 0xff, 0xff, 0xff, 0xff, 0xff] @ be64 9) = Inr (replicate 16 7)"
    by code_simp
  moreover have "snd (accept_seq (gc_recv (example_gss False)) 9) = Inr ()"
    by (simp add: example_gss_def accept_seq_def seq_check_def seq_new_def seq_rel_def seq_mask_def Let_def)
  ultimately show ?thesis
    unfolding gss_mic_exact [OF example_prims_ok k]
    by (intro exI [of _ 0] exI [of _ 9] exI [of _ "replicate 16 7"]) (simp add: example_gss_def)
qed

end
