(* ===== verification/GssIov.thy ===== *)
theory GssIov
  imports Gss
begin

text \<open>
  Integrity-only tokens over scattered buffers (\<open>crates/krb5-gss/src/iov.rs\<close>).  A list of typed buffers is
  changed in place by the code; here the changed list is returned, and an error leaves the contents of the buffers open.
\<close>

datatype iov_type = IovData | IovHeader | IovTrailer | IovPadding | IovSignOnly

record iov_buf =
  iv_kind :: iov_type
  iv_data :: bytes

definition of_kind :: "iov_type \<Rightarrow> iov_buf list \<Rightarrow> iov_buf list" where
  "of_kind k iov = filter (\<lambda>b. iv_kind b = k) iov"

definition iov_find :: "iov_buf list \<Rightarrow> iov_type \<Rightarrow> gss_error + bytes" where
  "iov_find iov k = (case of_kind k iov of [b] \<Rightarrow> Inr (iv_data b) | _ \<Rightarrow> Inl GssTruncated)"

definition iov_copy_data :: "iov_buf list \<Rightarrow> gss_error + bytes" where
  "iov_copy_data iov =
     (if of_kind IovData iov \<noteq> [] then Inr (concat (map iv_data (of_kind IovData iov))) else Inl GssTruncated)"

definition iov_sign_body :: "iov_buf list \<Rightarrow> bytes" where
  "iov_sign_body iov = concat (map iv_data (filter (\<lambda>b. iv_kind b = IovData \<or> iv_kind b = IovSignOnly) iov))"

definition write_iov_one :: "iov_buf list \<Rightarrow> iov_type \<Rightarrow> bytes \<Rightarrow> gss_error + iov_buf list" where
  "write_iov_one iov k bs =
     (if length (of_kind k iov) = 1 then Inr (map (\<lambda>b. if iv_kind b = k then b\<lparr>iv_data := bs\<rparr> else b) iov)
      else Inl GssTruncated)"

fun write_iov_loop :: "iov_buf list \<Rightarrow> bytes \<Rightarrow> gss_error + (iov_buf list \<times> bytes)" where
  "write_iov_loop [] plain = Inr ([], plain)"
| "write_iov_loop (b # iov) plain =
     (if iv_kind b = IovData then
        let n = length (iv_data b) in
        if length plain < n then Inl GssTruncated
        else andthen (write_iov_loop iov (drop n plain)) (\<lambda>(iov, rest). Inr (b\<lparr>iv_data := take n plain\<rparr> # iov, rest))
      else andthen (write_iov_loop iov plain) (\<lambda>(iov, rest). Inr (b # iov, rest)))"

text \<open>The offset of the code is kept as the rest of the octets.\<close>

definition write_iov_data :: "iov_buf list \<Rightarrow> bytes \<Rightarrow> gss_error + iov_buf list" where
  "write_iov_data iov plain =
     andthen (write_iov_loop iov plain) (\<lambda>(iov, rest). if rest = [] then Inr iov else Inl GssTruncated)"

definition join_wrap_token :: "iov_buf list \<Rightarrow> gss_error + bytes" where
  "join_wrap_token iov =
     andthen (iov_find iov IovHeader) (\<lambda>hdr.
     andthen (iov_copy_data iov) (\<lambda>data.
     andthen (iov_find iov IovTrailer) (\<lambda>trailer.
       Inr (hdr @ data @ (case iov_find iov IovPadding of Inr p \<Rightarrow> p | Inl _ \<Rightarrow> []) @ trailer))))"

fun clear_padding :: "iov_buf list \<Rightarrow> iov_buf list" where
  "clear_padding [] = []"
| "clear_padding (b # iov) = (if iv_kind b = IovPadding then b\<lparr>iv_data := []\<rparr> # iov else b # clear_padding iov)"

definition require_aes :: "enctype \<Rightarrow> gss_error + unit" where
  "require_aes e = (if is_aes e then Inr () else Inl (GssInner ''gss wrap_iov aes''))"

definition wrap_iov_integ :: "prims \<Rightarrow> iov_buf list \<Rightarrow> gss_context \<Rightarrow> (gss_error + iov_buf list) \<times> gss_context" where
  "wrap_iov_integ P iov c =
     (let (key, extra) = gss_send_key c;
          usage = seal_usage (gc_initiator c);
          header = or_flags (wrap_header (gc_initiator c) False (gc_send_seq c)) extra in
      case andthen (require_aes (pk_etype key)) (\<lambda>_.
           map_err gss_crypto (checksum_inner P key usage (iov_sign_body iov @ header))) of
        Inl e \<Rightarrow> (Inl e, c)
      | Inr mac \<Rightarrow>
          if length mac \<ge> 2 ^ 16 then (Inl GssTruncated, c)
          else
            (andthen (write_iov_one iov IovHeader (put_at header 4 (be16 (of_nat (length mac))))) (\<lambda>iov.
             andthen (write_iov_one iov IovTrailer mac) (\<lambda>iov. Inr (clear_padding iov))),
             c\<lparr>gc_send_seq := gc_send_seq c + 1\<rparr>))"

definition unwrap_iov_integ :: "prims \<Rightarrow> iov_buf list \<Rightarrow> gss_context \<Rightarrow> (gss_error + iov_buf list) \<times> gss_context" where
  "unwrap_iov_integ P iov c =
     (case andthen (case of_kind IovHeader iov of
                      [] \<Rightarrow> Inl GssTruncated
                    | b # _ \<Rightarrow> if length (iv_data b) \<le> 2 then Inl GssTruncated else Inr (iv_data b ! 2)) (\<lambda>flags.
           andthen (require_aes (pk_etype (gss_recv_key c flags))) (\<lambda>_. join_wrap_token iov)) of
        Inl e \<Rightarrow> (Inl e, c)
      | Inr tok \<Rightarrow>
          let (r, c) = gss_unwrap P tok c in (andthen r (write_iov_data iov), c))"

subsection \<open>What the receiver of an integrity-only token checks\<close>

lemma of_kind_clear: "k \<noteq> IovPadding \<Longrightarrow> of_kind k (clear_padding iov) = of_kind k iov"
  by (induction iov) (auto simp: of_kind_def)

lemma padding_cleared: "(case iov_find (clear_padding iov) IovPadding of Inr p \<Rightarrow> p | Inl _ \<Rightarrow> []) = []"
proof -
  have "of_kind IovPadding (clear_padding iov) = [] \<or> (\<exists>b bs. of_kind IovPadding (clear_padding iov) = b\<lparr>iv_data := []\<rparr> # bs)"
    by (induction iov) (auto simp: of_kind_def)
  then show ?thesis
    by (auto simp: iov_find_def split: list.split)
qed

lemma of_kind_write:
  "of_kind k (map (\<lambda>b. if iv_kind b = k' then b\<lparr>iv_data := bs\<rparr> else b) iov) =
     (if k = k' then map (\<lambda>b. b\<lparr>iv_data := bs\<rparr>) (of_kind k iov) else of_kind k iov)"
  by (induction iov) (auto simp: of_kind_def)

lemma write_own_data: "write_iov_data iov (concat (map iv_data (of_kind IovData iov))) = Inr iov"
proof -
  have "write_iov_loop iov (concat (map iv_data (of_kind IovData iov)) @ rest) = Inr (iov, rest)" for rest
    by (induction iov) (auto simp: of_kind_def Let_def)
  from this [of "[]"] show ?thesis
    by (simp add: write_iov_data_def)
qed

lemma open_integ_iff:
  assumes "prims_ok P" and "key_ok key" and "fl AND FLAG_SEALED = 0"
    and "checksum_output_size (checksum_type (pk_etype key)) = Some (length mac)"
  shows "open_payload P key usage fl (length mac) seq (data @ mac) = Inr d \<longleftrightarrow>
    d = data \<and> checksum_inner P key usage (data @ TOK_WRAP @ [fl, 0xff, 0, 0, 0, 0] @ be64 seq) = Inr mac"
  using assms(3,4)
    verify_own_checksum [OF assms(1,2), of "checksum_type (pk_etype key)" usage "data @ TOK_WRAP @ [fl, 0xff, 0, 0, 0, 0] @ be64 seq" mac]
  by (auto simp: open_payload_def Let_def ok_or_def rfc4121_ckhdr_def)

lemma wrap_iov_integ_buffers:
  assumes "wrap_iov_integ P iov a = (Inr iov', a')" and "of_kind IovData iov \<noteq> []"
  defines "fl \<equiv> wrap_flags (gc_initiator a) False (snd (gss_send_key a))"
  shows "\<exists>mac. is_aes (pk_etype (fst (gss_send_key a))) \<and> length mac < 2 ^ 16 \<and>
    checksum_inner P (fst (gss_send_key a)) (seal_usage (gc_initiator a))
      (iov_sign_body iov @ TOK_WRAP @ [fl, 0xff, 0, 0, 0, 0] @ be64 (gc_send_seq a)) = Inr mac \<and>
    (\<exists>b bs. of_kind IovHeader iov' = b # bs \<and> length (iv_data b) = 16 \<and> iv_data b ! 2 = fl) \<and>
    of_kind IovData iov' = of_kind IovData iov \<and>
    join_wrap_token iov' = Inr (TOK_WRAP @ [fl, 0xff] @ be16 (of_nat (length mac)) @ [0, 0] @ be64 (gc_send_seq a) @
      concat (map iv_data (of_kind IovData iov)) @ mac)"
proof -
  let ?hdr = "TOK_WRAP @ [fl, 0xff, 0, 0, 0, 0] @ be64 (gc_send_seq a)"
  define q where "q = andthen (require_aes (pk_etype (fst (gss_send_key a)))) (\<lambda>_. map_err gss_crypto
    (checksum_inner P (fst (gss_send_key a)) (seal_usage (gc_initiator a)) (iov_sign_body iov @ ?hdr)))"
  have "wrap_iov_integ P iov a = (case q of Inl e \<Rightarrow> (Inl e, a)
      | Inr mac \<Rightarrow> if length mac \<ge> 2 ^ 16 then (Inl GssTruncated, a)
          else (andthen (write_iov_one iov IovHeader (put_at ?hdr 4 (be16 (of_nat (length mac))))) (\<lambda>iov.
             andthen (write_iov_one iov IovTrailer mac) (\<lambda>iov. Inr (clear_padding iov))),
             a\<lparr>gc_send_seq := gc_send_seq a + 1\<rparr>))"
    unfolding wrap_iov_integ_def Let_def split_beta or_flags_wrap fl_def q_def by (rule refl)
  note w = assms(1) [unfolded this]
  obtain mac where q: "q = Inr mac"
    using w by (cases q) auto
  then have m: "is_aes (pk_etype (fst (gss_send_key a)))"
    "checksum_inner P (fst (gss_send_key a)) (seal_usage (gc_initiator a)) (iov_sign_body iov @ ?hdr) = Inr mac"
    by (auto simp: q_def require_aes_def split: if_splits)
  have out: "length mac < 2 ^ 16" "andthen (write_iov_one iov IovHeader (put_at ?hdr 4 (be16 (of_nat (length mac))))) (\<lambda>iov.
       andthen (write_iov_one iov IovTrailer mac) (\<lambda>iov. Inr (clear_padding iov))) = Inr iov'"
    using w unfolding q by (auto simp del: andthen_eq_Inr split: if_splits)
  define h where "h = put_at ?hdr 4 (be16 (of_nat (length mac)))"
  have h: "h = TOK_WRAP @ [fl, 0xff] @ be16 (of_nat (length mac)) @ [0, 0] @ be64 (gc_send_seq a)"
    unfolding h_def by (rule put_ec) simp
  obtain hb tb where hb: "of_kind IovHeader iov = [hb]" and tb: "of_kind IovTrailer iov = [tb]"
    using out(2) by (auto simp: write_iov_one_def of_kind_write length_Suc_conv simp del: List.map_map split: if_splits)
  have iov': "of_kind IovHeader iov' = [hb\<lparr>iv_data := h\<rparr>]" "of_kind IovTrailer iov' = [tb\<lparr>iv_data := mac\<rparr>]"
    "of_kind IovData iov' = of_kind IovData iov" "(case iov_find iov' IovPadding of Inr p \<Rightarrow> p | Inl _ \<Rightarrow> []) = []"
    using out(2) hb tb unfolding h_def [symmetric]
    by (auto simp: write_iov_one_def of_kind_clear of_kind_write padding_cleared simp del: List.map_map split: if_splits)
  have "join_wrap_token iov' = Inr (h @ concat (map iv_data (of_kind IovData iov)) @ mac)"
    using iov' assms(2) by (simp add: join_wrap_token_def iov_copy_data_def) (simp add: iov_find_def iov')
  moreover have "length h = 16" "h ! 2 = fl"
    by (simp_all add: h)
  ultimately show ?thesis
    using m out(1) iov' h by (intro exI [of _ mac]) simp
qed

text \<open>
  The sender puts the sign-only buffers under the checksum, the receiver does not: a token is accepted exactly if
  the checksums with and without them agree, so that with content in such a buffer it is refused unless the checksum
  collides.
\<close>
theorem iov_integ_sign_only:
  assumes "prims_ok P" and "key_ok (fst (gss_send_key a))" and "gss_peers a b" and "of_kind IovData iov \<noteq> []"
    and "snd (accept_seq (gc_recv b) (gc_send_seq a)) = Inr ()" and "wrap_iov_integ P iov a = (Inr iov', a')"
    and "header = TOK_WRAP @ [wrap_flags (gc_initiator a) False (snd (gss_send_key a)), 0xff, 0, 0, 0, 0] @ be64 (gc_send_seq a)"
  shows "is_ok (fst (unwrap_iov_integ P iov' b)) \<longleftrightarrow>
    checksum_inner P (fst (gss_send_key a)) (seal_usage (gc_initiator a)) (concat (map iv_data (of_kind IovData iov)) @ header) =
    checksum_inner P (fst (gss_send_key a)) (seal_usage (gc_initiator a)) (iov_sign_body iov @ header)"
proof -
  let ?fl = "wrap_flags (gc_initiator a) False (snd (gss_send_key a))" and ?d = "concat (map iv_data (of_kind IovData iov))"
  let ?u = "seal_usage (gc_initiator a)" and ?k = "fst (gss_send_key a)"
  obtain mac hb bs where m: "is_aes (pk_etype ?k)" "length mac < 2 ^ 16" "checksum_inner P ?k ?u (iov_sign_body iov @ header) = Inr mac"
    "of_kind IovHeader iov' = hb # bs" "length (iv_data hb) = 16" "iv_data hb ! 2 = ?fl" "of_kind IovData iov' = of_kind IovData iov"
    "join_wrap_token iov' = Inr (TOK_WRAP @ [?fl, 0xff] @ be16 (of_nat (length mac)) @ [0, 0] @ be64 (gc_send_seq a) @ ?d @ mac)"
    using wrap_iov_integ_buffers [OF assms(6,4)] unfolding assms(7) by (elim exE conjE)
  note fl = peer_flags [OF assms(3) refl, of False]
  have sz: "checksum_output_size (checksum_type (pk_etype ?k)) = Some (length mac)"
    by (rule checksum_inner_size [OF assms(1,2) m(3)])
  have ec: "be_val (be16 (of_nat (length mac))) = length mac"
    using m(2) by (simp add: be_val_be_bytes_lt unat_of_nat)
  have rot: "rotate_rrc (?d @ mac) (of_nat (be_val [0, 0])) = ?d @ mac"
    by (simp add: rotate_rrc_def be_val_def)
  have i: "(\<not> gc_initiator b) = gc_initiator a"
    using assms(3) by (simp add: gss_peers_def)
  define r where "r = open_payload P ?k ?u ?fl (length mac) (gc_send_seq a) (?d @ mac)"
  have r: "r = Inr d \<longleftrightarrow> d = ?d \<and> checksum_inner P ?k ?u (?d @ header) = Inr mac" for d
    unfolding r_def assms(7) by (rule open_integ_iff [OF assms(1,2) _ sz]) (use fl(3) in simp)
  have "fst (gss_unwrap P (TOK_WRAP @ [?fl, 0xff] @ be16 (of_nat (length mac)) @ [0, 0] @ be64 (gc_send_seq a) @ ?d @ mac) b) = r"
    unfolding gss_unwrap_def using fl assms(5)
    by (subst unwrap_token) (auto simp: ec rot i r_def [symmetric] split_beta Let_def split: sum.split)
  then have eq: "fst (unwrap_iov_integ P iov' b) = andthen r (write_iov_data iov')"
    using m fl by (simp add: unwrap_iov_integ_def require_aes_def split_beta Let_def)
  have wr: "write_iov_data iov' ?d = Inr iov'"
    unfolding m(7) [symmetric] by (rule write_own_data)
  show ?thesis
  proof (cases r)
    case (Inl e)
    then have "checksum_inner P ?k ?u (?d @ header) \<noteq> Inr mac" "\<not> is_ok (fst (unwrap_iov_integ P iov' b))"
      using r [of ?d] unfolding eq by (simp_all add: is_ok_def)
    with m(3) show ?thesis
      by metis
  next
    case (Inr d)
    then have "d = ?d" "checksum_inner P ?k ?u (?d @ header) = Inr mac"
      using r [of d] by blast+
    moreover from this(1) have "is_ok (fst (unwrap_iov_integ P iov' b))"
      unfolding eq Inr andthen_simps using wr by (simp only: is_ok_def sum.case)
    ultimately show ?thesis
      using m(3) by metis
  qed
qed

end
