(* ===== verification/Spec2Isabelle.thy ===== *)
theory Spec2Isabelle
  imports Lockout_File Lookaside AsReq AuthCon GssIov
begin

text \<open>
  Verification of kerber-rust, an implementation of Kerberos V5 in Rust: a key distribution centre (KDC) with its
  database, the protocol library that clients and services use, and a GSS-API mechanism on top of it.  Paths are
  relative to \<open>src/\<close>.

  \<^bold>\<open>The program.\<close>  A client asks the KDC for a ticket with an AS request (\<open>crates/krb5-kdc/src/issue/as_req.rs\<close>).  The
  KDC looks client and server up in its database, checks the request against their entries and against the
  lockout record of the client, decides flags, times and encryption types, and seals a ticket.  With that ticket the
  client asks for others by TGS requests: the KDC opens the header ticket, checks the authenticator in it, the realms
  passed through and the policy, and issues a ticket that is bounded by the header.  A service that has received a
  ticket and an authenticator keeps an authentication context and exchanges protected messages through it.  All
  of this rests on the cryptographic operations of \<open>crates/krb5-crypto\<close>, on the names, times, flags and encodings of
  \<open>crates/krb5-types\<close>, and on block ciphers, hashes and the \<open>rasn\<close> encoder of other crates.

  \<^bold>\<open>Conventions.\<close>  A function of the source is a HOL function on records and datatypes with the source's fields and
  constructors.  Mutable state is passed in and returned updated; \<open>Result\<close> is a sum with the error on the left; machine
  integers are words where they can wrap and natural numbers where they count octets in memory.  Constants are
  abbreviations.  What comes from outside is an argument: the primitives are the record \<open>prims\<close> with the laws
  \<open>prims_ok\<close> (a block cipher inverts, digests have their sizes), random octets a function with \<open>rng_ok\<close>, encoders and
  decoders functions of the records \<open>tgs_env\<close>, \<open>sp_env\<close> and \<open>ac_env\<close>, the clock a value, the database of \<open>AsReq\<close> its lookup
  function, and the outcome of the pre-authentication mechanisms and policy modules arguments.  Each property with such a
  hypothesis is applied to concrete functions in a witness next to it.

  \<^bold>\<open>The theories.\<close>
  \<^item> \<open>Prelude\<close>, \<open>Rust_Text\<close>, \<open>Rust_Num\<close>: results, octet encodings, the string and number operations of Rust's library, and two
    interfaces.  The locale \<open>cursor_codec\<close> (an encoder and a cursor-style decoder that inverts it) is interpreted by \<open>Der\<close>;
    \<open>machine\<close> (a step function that keeps an invariant, and runs of it) by \<open>Replay\<close>, \<open>Lookaside\<close> and \<open>AuthCon\<close>.
  \<^item> \<open>Names\<close> (\<open>krb5-types/src/name.rs\<close>): parsing and printing of principal names invert each other, and the database
    key identifies exactly the names that compare equal.
  \<^item> \<open>Constants\<close>, \<open>Status\<close>, \<open>Flags\<close>, \<open>KTime\<close>, \<open>Messages\<close> (\<open>krb5-types/src\<close>): numbers and texts of the protocol, bit strings and their
    packed form, time stamps with 32-bit arithmetic, and the message records.
  \<^item> \<open>Transit\<close> (\<open>transited.rs\<close>): the compressed list of realms is read back as written, and a ticket is accepted exactly if it
    passed only through realms on the path between its ends (the configured one, or the domains up to the lowest common
    one), was checked before, or is anonymous.
  \<^item> \<open>Etypes\<close>, \<open>Nfold\<close>, \<open>Derive\<close>, \<open>Cts\<close>, \<open>Crypto\<close>, \<open>Prf\<close> (\<open>krb5-crypto/src\<close>): the eight encryption types.  N-fold is the sum
    RFC 3961 defines, ciphertext stealing inverts, decryption accepts exactly what encryption produces under the
    same key, usage and chained state, checksums of every keyed type verify exactly, derived keys are well formed.
  \<^item> \<open>Der\<close>, \<open>Pac\<close> (\<open>der.rs\<close>, \<open>pac.rs\<close>): tag-length-value elements, the octets of a request body under a checksum, the
    privilege attribute certificate and the octets under its signatures.
  \<^item> \<open>KDB\<close> (\<open>krb5-kdc/src/store\<close>): entries, aliases, key search and key rotation, with the exact condition under which new
    keys are lost when the version number wraps.
  \<^item> \<open>Lockout\<close>, \<open>Lockout_File\<close> (\<open>lockout.rs\<close>, \<open>lockout/file.rs\<close>): the lockout policy over any table of records (locale
    \<open>lockout_table\<close>), interpreted on the overlay in memory (\<open>ov\<close>) and on the side file (\<open>sf\<close>).  The side file, lines with
    a CRC that are updated in place, refines a map, also for a reader with an old index.
  \<^item> \<open>KdcUtil\<close>, \<open>Authdata\<close>, \<open>Tgs\<close> (\<open>issue/kdc_util.rs\<close>, \<open>ad.rs\<close>, \<open>issue/tgs_policy.rs\<close>, \<open>issue/tgs_req.rs\<close>): the checks of AS requests,
    end and renew-till times as exact minima, the search for authorization data, the acceptance of a TGS request from the
    octets of its header to the times of the ticket, and every flag of the ticket.
  \<^item> \<open>AsReq\<close> (\<open>issue/as_req.rs\<close>, \<open>plugins.rs\<close>): the lookup of client and server, the anonymous and the pre-authentication
    rule, flags and times of the ticket.  No ticket has more than both entries allow, whatever policy modules adjust.
  \<^item> \<open>Lookaside\<close> (\<open>lookaside.rs\<close>): the cache of replies refines the map of last replies in bounded space.
  \<^item> \<open>Replay\<close>, \<open>SafePriv\<close>, \<open>AuthCon\<close> (\<open>krb5-protocol/src/replay.rs\<close>, \<open>safe_priv.rs\<close>, \<open>auth_con.rs\<close>): the replay cache, protected
    messages and the authentication context.  Messages between contexts in step are delivered, and none is
    accepted twice while the cache keeps its tag.
  \<^item> \<open>GssSeq\<close>, \<open>Gss\<close>, \<open>GssIov\<close> (\<open>krb5-gss/src\<close>): the receive window with its bitmap, sealed and integrity-only tokens, message
    integrity codes, and the integrity-only tokens over scattered buffers, whose two ends treat sign-only buffers
    differently (\<open>iov_integ_sign_only\<close>).

  \<^bold>\<open>How they compose.\<close>  \<open>Tgs\<close> opens the header ticket with a key that \<open>KDB\<close> finds, with \<open>Crypto\<close> for the seal and the checksum,
  \<open>Der\<close> for the body, \<open>Authdata\<close> for the armor and \<open>KdcUtil\<close> for flags and times.  The lockout check of \<open>KdcUtil\<close> is the one whose
  records the side file holds.  \<open>AsReq\<close> takes the checks, flags and times of \<open>KdcUtil\<close>.  \<open>AuthCon\<close> reads messages with \<open>SafePriv\<close>, \<open>Crypto\<close> and \<open>Replay\<close>, and \<open>Gss\<close> its tokens with \<open>Crypto\<close>
  and \<open>GssSeq\<close>.

  \<^bold>\<open>Bounds and termination.\<close>  Recursion is structural or has a measure (octets left to read or to make, entries left to
  evict).  Three loops are partial functions with the value \<open>None\<close> for not returning.  The search for authorization data follows
  containers that the decoder yields, and returns when decoding yields less than it is given; the loops of PRF+ (for
  keys other than triple DES) and of the key derivation of PKINIT always return, as each block adds octets.  Alias chains are followed for at
  most ten steps, a header ticket without a key version is tried with at most three keys of its server, and at most 256
  authorization data elements match, as in the code.  DER elements are shorter than \<open>2 ^ 63\<close> octets, which every slice
  in memory is.  The time difference of a ticket's end is 32 bits wide: the bounds on end times are stated for start times
  it reaches, and \<open>postdated_end_wraps\<close> in \<open>Tgs\<close> shows what happens beyond.  The theorems that sealed messages are delivered
  leave out triple DES, whose encryption pads the message.  The highest relative sequence number of a GSS-API context,
  after which its window starts anew, is excluded.

  \<^bold>\<open>Not modelled.\<close>  Input and output: sockets, daemons, signals, logging, files and their locking (the side file is its
  octets), the command line programs, database dumps and propagation.  Generated or foreign code: \<open>rasn\<close>, the field arithmetic
  of \<open>krb5-brainpool\<close>, elliptic curves, CMS and certificates, dynamic plugins.  Code that mostly orders calls of these:
  the dispatch of requests, the AS and TGS handlers around the modelled decisions and the assembly of their replies, the
  pre-authentication mechanisms, the client's exchanges, context establishment of the GSS-API, the administration service.
  Formats without a decision of their own: credential caches, key tables, configuration files.  Wiping of secrets, timing
  and memory allocation have no counterpart in a functional model.
\<close>

end
